(* ===== verification/Go_Base.thy ===== *)
theory Go_Base
  imports Main "HOL-Library.AList" "HOL-Library.Multiset" "HOL-Library.List_Lexorder"
    "HOL-Library.Char_ord"
begin

text \<open>
  The Go vocabulary the components share: maps as association lists with distinct keys,
  the iteration order of \<open>range\<close> over a map as an explicit argument, byte strings with the
  functions of package \<open>strings\<close> the source calls, and \<open>sort.Slice\<close>.

  Go strings are byte sequences, and \<open>string\<close> is a list of 8-bit characters: \<open>length\<close> is
  Go's \<open>len\<close>, and the lexicographic order of \<open>HOL-Library.List_Lexorder\<close> over
  \<open>HOL-Library.Char_ord\<close> is Go's \<open><\<close> on strings.
\<close>

named_theorems go_simps \<open>defining equations of the small Go library functions\<close>
named_theorems sort_facts \<open>what sort.Slice keeps and promises\<close>

section \<open>Maps\<close>

text \<open>
  A Go map is an association list with distinct keys. Reading is \<open>map_of\<close> (a missing key is
  \<open>None\<close>: Go's nil for the pointer-valued maps of the source), assignment is
  \<open>AList.update\<close> and \<open>delete\<close> is \<open>AList.delete\<close>.
\<close>

type_synonym ('k, 'v) gomap = "('k \<times> 'v) list"

abbreviation map_keys :: "('k, 'v) gomap \<Rightarrow> 'k list" where
  "map_keys m \<equiv> map fst m"

abbreviation map_ok :: "('k, 'v) gomap \<Rightarrow> bool" where
  "map_ok m \<equiv> distinct (map fst m)"

text \<open>
  \<open>range\<close> over a map visits the keys in an order the language leaves open. A function that
  ranges over a map takes that order as an argument \<open>iter\<close>, which rearranges the list of
  keys; a theorem about the function holds for every such order.
\<close>

definition is_iter :: "('k list \<Rightarrow> 'k list) \<Rightarrow> bool" where
  "is_iter iter \<longleftrightarrow> (\<forall>xs. mset (iter xs) = mset xs)"

lemma is_iter_set: "is_iter iter \<Longrightarrow> set (iter xs) = set xs"
  unfolding is_iter_def by (metis set_mset_mset)

lemma is_iter_distinct: "is_iter iter \<Longrightarrow> distinct (iter xs) = distinct xs"
  unfolding is_iter_def by (metis distinct_count_atmost_1 set_mset_mset)

lemma is_iter_id [simp, intro]: "is_iter (\<lambda>xs. xs)"
  by (simp add: is_iter_def)

lemma is_iter_rev [simp, intro]: "is_iter rev"
  by (simp add: is_iter_def)

lemma map_of_update [simp]: "map_of (AList.update k v m) = (map_of m)(k \<mapsto> v)"
  by (rule update_conv')

lemma map_of_delete_upd [simp]: "map_of (AList.delete k m) = (map_of m)(k := None)"
  by (rule delete_conv')

lemma map_of_filter_key:
  "map_of (filter (\<lambda>kv. P (fst kv)) m) k = (if P k then map_of m k else None)"
  by (induction m) auto

lemma map_of_filter_entry:
  "map_ok m \<Longrightarrow> map_of (filter (\<lambda>(k, v). P k v) m) k
    = (case map_of m k of None \<Rightarrow> None | Some v \<Rightarrow> if P k v then Some v else None)"
  by (induction m) (auto split: option.splits simp: map_of_eq_None_iff dest: map_of_SomeD)

lemma map_ok_filter [simp]: "map_ok m \<Longrightarrow> map_ok (filter P m)"
  by (simp add: distinct_map_filter)

section \<open>Strings\<close>

text \<open>\<open>strings.Split(s, sep)\<close> for a separator of one byte: never empty.\<close>

fun split_on :: "char \<Rightarrow> string \<Rightarrow> string list" where
  "split_on c [] = [[]]"
| "split_on c (x # xs) =
     (if x = c then [] # split_on c xs
      else (case split_on c xs of [] \<Rightarrow> [[x]] | p # ps \<Rightarrow> (x # p) # ps))"

text \<open>\<open>strings.Join(parts, sep)\<close>.\<close>

fun join :: "string \<Rightarrow> string list \<Rightarrow> string" where
  "join sep [] = []"
| "join sep [p] = p"
| "join sep (p # q # ps) = p @ sep @ join sep (q # ps)"

text \<open>\<open>strings.TrimLeft\<close>, \<open>TrimRight\<close> and \<open>Trim\<close> with a cutset of one byte.\<close>

definition trim_left :: "char \<Rightarrow> string \<Rightarrow> string" where
  "trim_left c s = dropWhile (\<lambda>x. x = c) s"

definition trim_right :: "char \<Rightarrow> string \<Rightarrow> string" where
  "trim_right c s = rev (dropWhile (\<lambda>x. x = c) (rev s))"

definition trim_byte :: "char \<Rightarrow> string \<Rightarrow> string" where
  "trim_byte c s = trim_right c (trim_left c s)"

text \<open>\<open>strings.HasPrefix\<close>, \<open>HasSuffix\<close>, \<open>TrimPrefix\<close>, \<open>Contains\<close>, \<open>ReplaceAll\<close> of one byte.\<close>

definition has_prefix :: "string \<Rightarrow> string \<Rightarrow> bool" where
  "has_prefix s p \<longleftrightarrow> take (length p) s = p"

definition has_suffix :: "string \<Rightarrow> string \<Rightarrow> bool" where
  "has_suffix s p \<longleftrightarrow> has_prefix (rev s) (rev p)"

definition trim_prefix :: "string \<Rightarrow> string \<Rightarrow> string" where
  "trim_prefix s p = (if has_prefix s p then drop (length p) s else s)"

fun contains_str :: "string \<Rightarrow> string \<Rightarrow> bool" where
  "contains_str [] p = (p = [])"
| "contains_str (x # xs) p = (has_prefix (x # xs) p \<or> contains_str xs p)"

text \<open>Cut a string at the first occurrence of a byte: the part before, and the rest if any.\<close>

fun cut_byte :: "char \<Rightarrow> string \<Rightarrow> string \<times> string option" where
  "cut_byte c [] = ([], None)"
| "cut_byte c (x # xs) =
     (if x = c then ([], Some xs) else (case cut_byte c xs of (a, b) \<Rightarrow> (x # a, b)))"

definition cut_last :: "char \<Rightarrow> string \<Rightarrow> (string \<times> string) option" where
  "cut_last c s = (case cut_byte c (rev s) of (a, None) \<Rightarrow> None | (a, Some b) \<Rightarrow> Some (rev b, rev a))"

text \<open>ASCII case mapping and the white space of \<open>strings.TrimSpace\<close> and \<open>strings.Fields\<close>.\<close>

definition ascii_lower :: "char \<Rightarrow> char" where
  "ascii_lower c = (if CHR ''A'' \<le> c \<and> c \<le> CHR ''Z'' then char_of (of_char c + (32::nat)) else c)"

definition to_lower :: "string \<Rightarrow> string" where
  "to_lower s = map ascii_lower s"

definition is_space :: "char \<Rightarrow> bool" where
  "is_space c \<longleftrightarrow> c \<in> {CHR '' '', CHR 0x09, CHR 0x0A, CHR 0x0B, CHR 0x0C, CHR 0x0D}"

definition is_digit :: "char \<Rightarrow> bool" where
  "is_digit c \<longleftrightarrow> CHR ''0'' \<le> c \<and> c \<le> CHR ''9''"

lemmas [go_simps] = trim_left_def trim_right_def trim_byte_def has_prefix_def has_suffix_def
  trim_prefix_def ascii_lower_def to_lower_def is_space_def is_digit_def

lemma split_on_nonempty [simp]: "split_on c s \<noteq> []"
  by (induction s) (auto split: list.splits)

lemma length_split_on_pos: "0 < length (split_on c s)"
  by simp

text \<open>Splitting and joining with the separator gives the string back.\<close>

lemma join_split_on: "join [c] (split_on c s) = s"
proof (induction s)
  case Nil
  then show ?case by simp
next
  case (Cons x xs)
  then obtain p ps where ps: "split_on c xs = p # ps"
    by (metis neq_Nil_conv split_on_nonempty)
  with Cons.IH have "join [c] (p # ps) = xs" by simp
  then show ?case using ps by (cases ps) auto
qed

lemma split_on_no_sep: "c \<notin> set s \<Longrightarrow> split_on c s = [s]"
  by (induction s) auto

lemma split_on_append: "c \<notin> set s \<Longrightarrow> split_on c (s @ c # t) = s # split_on c t"
  by (induction s) auto

lemma split_on_parts: "p \<in> set (split_on c s) \<Longrightarrow> c \<notin> set p"
proof (induction s arbitrary: p)
  case Nil
  then show ?case by simp
next
  case (Cons x xs)
  obtain q qs where qs: "split_on c xs = q # qs"
    by (metis neq_Nil_conv split_on_nonempty)
  with Cons.IH have "\<And>r. r \<in> set (q # qs) \<Longrightarrow> c \<notin> set r" by simp
  with Cons.prems qs show ?case by (auto split: if_splits)
qed

text \<open>Conversely, splitting a join of separator-free parts gives the parts back.\<close>

lemma split_on_join:
  "ps \<noteq> [] \<Longrightarrow> \<forall>p \<in> set ps. c \<notin> set p \<Longrightarrow> split_on c (join [c] ps) = ps"
proof (induction ps)
  case Nil
  then show ?case by simp
next
  case (Cons p ps)
  then show ?case by (cases ps) (simp_all add: split_on_no_sep split_on_append)
qed

lemma cut_byte_found: "c \<notin> set a \<Longrightarrow> cut_byte c (a @ c # b) = (a, Some b)"
  by (induction a) auto

lemma cut_byte_absent: "c \<notin> set s \<Longrightarrow> cut_byte c s = (s, None)"
  by (induction s) auto

lemma cut_byte_Some: "cut_byte c s = (a, Some b) \<longleftrightarrow> s = a @ c # b \<and> c \<notin> set a"
proof (cases "c \<in> set s")
  case True
  then obtain x y where s: "s = x @ c # y" "c \<notin> set x" using split_list_first by fastforce
  then have "cut_byte c s = (x, Some y)" using cut_byte_found by simp
  moreover have "s = a @ c # b \<Longrightarrow> c \<notin> set a \<Longrightarrow> cut_byte c s = (a, Some b)"
    using cut_byte_found by simp
  ultimately show ?thesis using s by (metis Pair_inject option.inject)
next
  case False
  then show ?thesis using cut_byte_absent by auto
qed

lemma cut_byte_None: "cut_byte c s = (a, None) \<longleftrightarrow> s = a \<and> c \<notin> set s"
proof (cases "c \<in> set s")
  case True
  then obtain x y where "s = x @ c # y" "c \<notin> set x" using split_list_first by fastforce
  then show ?thesis using cut_byte_found by auto
qed (auto simp: cut_byte_absent)

lemma cut_last_found: "c \<notin> set b \<Longrightarrow> cut_last c (a @ c # b) = Some (a, b)"
  using cut_byte_found [of c "rev b" "rev a"] by (simp add: cut_last_def)

lemma cut_last_Some: "cut_last c s = Some (a, b) \<longleftrightarrow> s = a @ c # b \<and> c \<notin> set b"
proof
  assume "cut_last c s = Some (a, b)"
  then have "cut_byte c (rev s) = (rev b, Some (rev a))"
    by (auto simp: cut_last_def split: prod.splits option.splits)
  then have "rev s = rev b @ c # rev a" and "c \<notin> set b"
    by (auto simp: cut_byte_Some)
  then show "s = a @ c # b \<and> c \<notin> set b"
    by (metis rev_append rev_rev_ident rev.simps(2) append_assoc append_Cons append_Nil)
qed (auto simp: cut_last_found)

lemma cut_last_None: "cut_last c s = None \<longleftrightarrow> c \<notin> set s"
  by (cases "cut_byte c (rev s)")
    (auto simp: cut_last_def cut_byte_None cut_byte_Some rev_swap split: option.splits)

lemma has_prefix_append [simp]: "has_prefix (p @ s) p"
  by (simp add: has_prefix_def)

lemma has_prefix_iff: "has_prefix s p \<longleftrightarrow> (\<exists>t. s = p @ t)"
  by (metis append_take_drop_id append_eq_conv_conj has_prefix_def)

section \<open>sort.Slice\<close>

text \<open>
  \<open>sort.Slice\<close> on at most 12 elements is Go's \<open>insertionSort_func\<close>: each element moves left
  past its predecessors while the comparator puts it before them. \<open>insert_back lt x rp\<close>
  inserts \<open>x\<close> behind the sorted prefix whose reversal is \<open>rp\<close>.

  On longer slices \<open>sort.Slice\<close> is a pattern-defeating quicksort. For a comparator that is
  a strict weak order both return a permutation sorted by it, and they can differ only in
  the order of elements the comparator ties; every lemma below that is stated from the laws
  \<open>sorting\<close> therefore holds for both. \<open>sort.SliceStable\<close> keeps ties in their
  order, as the insertion sort does.
\<close>

fun insert_back :: "('a \<Rightarrow> 'a \<Rightarrow> bool) \<Rightarrow> 'a \<Rightarrow> 'a list \<Rightarrow> 'a list" where
  "insert_back lt x [] = [x]"
| "insert_back lt x (y # rp) =
     (if lt x y then y # insert_back lt x rp else x # y # rp)"

fun sort_step :: "('a \<Rightarrow> 'a \<Rightarrow> bool) \<Rightarrow> 'a list \<Rightarrow> 'a list \<Rightarrow> 'a list" where
  "sort_step lt rp [] = rev rp"
| "sort_step lt rp (x # xs) = sort_step lt (insert_back lt x rp) xs"

definition sort_slice :: "('a \<Rightarrow> 'a \<Rightarrow> bool) \<Rightarrow> 'a list \<Rightarrow> 'a list" where
  "sort_slice lt xs = sort_step lt [] xs"

text \<open>The comparators \<open>sort.Slice\<close> accepts: strict weak orders.\<close>

locale weak_order =
  fixes lt :: "'a \<Rightarrow> 'a \<Rightarrow> bool"
  assumes irrefl: "\<not> lt x x"
    and trans: "lt x y \<Longrightarrow> lt y z \<Longrightarrow> lt x z"
    and ntrans: "\<not> lt x y \<Longrightarrow> \<not> lt y z \<Longrightarrow> \<not> lt x z"
begin

lemma asym: "lt x y \<Longrightarrow> \<not> lt y x"
  using irrefl trans by blast

lemma lt_ntrans: "lt x y \<Longrightarrow> \<not> lt z y \<Longrightarrow> lt x z"
  using ntrans by blast

lemma ntrans_lt: "\<not> lt y x \<Longrightarrow> lt y z \<Longrightarrow> lt x z"
  using ntrans by blast

end

text \<open>What a caller may rely on: a permutation, sorted when the comparator is an order.\<close>

definition sorted_by :: "('a \<Rightarrow> 'a \<Rightarrow> bool) \<Rightarrow> 'a list \<Rightarrow> bool" where
  "sorted_by lt xs \<longleftrightarrow> sorted_wrt (\<lambda>x y. \<not> lt y x) xs"

locale sorting =
  fixes srt :: "('a \<Rightarrow> 'a \<Rightarrow> bool) \<Rightarrow> 'a list \<Rightarrow> 'a list"
  assumes mset_srt: "mset (srt lt xs) = mset xs"
    and sorted_srt: "weak_order lt \<Longrightarrow> sorted_by lt (srt lt xs)"
begin

lemma set_srt: "set (srt lt xs) = set xs"
  using mset_srt by (metis set_mset_mset)

lemma length_srt: "length (srt lt xs) = length xs"
  using mset_srt by (metis size_mset)

lemma distinct_srt: "distinct (srt lt xs) = distinct xs"
  using mset_srt by (metis distinct_count_atmost_1 set_mset_mset)

lemma srt_empty_iff: "srt lt xs = [] \<longleftrightarrow> xs = []"
  using length_srt [of lt xs] by auto

text \<open>The last element of a sorted slice is beaten by no element of it.\<close>

lemma srt_last_max:
  assumes wo: "weak_order lt" and x: "x \<in> set xs"
  shows "\<not> lt (last (srt lt xs)) x"
proof -
  from x have "srt lt xs \<noteq> []" by (auto simp: srt_empty_iff)
  then obtain zs z where ys: "srt lt xs = zs @ [z]" by (metis rev_exhaust)
  have "sorted_wrt (\<lambda>x y. \<not> lt y x) (zs @ [z])"
    using sorted_srt [OF wo, of xs] by (simp add: sorted_by_def ys)
  moreover have "x = z \<or> x \<in> set zs"
    using x set_srt [of lt xs] by (auto simp: ys)
  ultimately show ?thesis
    using weak_order.irrefl [OF wo] by (auto simp: sorted_wrt_append ys)
qed

end

lemma mset_insert_back: "mset (insert_back lt x rp) = add_mset x (mset rp)"
  by (induction rp) auto

lemma mset_sort_step: "mset (sort_step lt rp xs) = mset rp + mset xs"
  by (induction xs arbitrary: rp) (auto simp: mset_insert_back)

lemma mset_sort_slice: "mset (sort_slice lt xs) = mset xs"
  by (simp add: sort_slice_def mset_sort_step)

lemma set_insert_back: "set (insert_back lt x rp) = insert x (set rp)"
  using mset_insert_back by (metis set_mset_add_mset_insert set_mset_mset)

lemma insert_back_sorted:
  assumes wo: "weak_order lt" and s: "sorted_wrt (\<lambda>a b. \<not> lt a b) rp"
  shows "sorted_wrt (\<lambda>a b. \<not> lt a b) (insert_back lt x rp)"
  using s
proof (induction rp)
  case Nil
  then show ?case by simp
next
  case (Cons y rp)
  show ?case
  proof (cases "lt x y")
    case True
    with Cons wo show ?thesis by (auto simp: set_insert_back dest: weak_order.asym)
  next
    case False
    with Cons.prems wo show ?thesis by (auto dest: weak_order.ntrans)
  qed
qed

lemma sort_step_sorted:
  assumes wo: "weak_order lt"
  shows "sorted_wrt (\<lambda>a b. \<not> lt a b) rp \<Longrightarrow> sorted_by lt (sort_step lt rp xs)"
proof (induction xs arbitrary: rp)
  case Nil
  then show ?case by (simp add: sorted_by_def sorted_wrt_rev)
next
  case (Cons x xs)
  then show ?case using insert_back_sorted [OF wo] by simp
qed

interpretation slice: sorting sort_slice
  by unfold_locales (simp_all add: mset_sort_step sort_step_sorted sort_slice_def)

lemmas sort_slice_facts [sort_facts] =
  slice.mset_srt slice.set_srt slice.length_srt slice.distinct_srt slice.srt_empty_iff

text \<open>A sorted permutation is unique when the comparator ties no two of its elements.\<close>

lemma sorted_by_unique:
  assumes wo: "weak_order lt" and eq: "mset xs = mset ys"
    and sx: "sorted_by lt xs" and sy: "sorted_by lt ys"
    and tot: "\<And>x y. x \<in> set xs \<Longrightarrow> y \<in> set xs \<Longrightarrow> \<not> lt x y \<Longrightarrow> \<not> lt y x \<Longrightarrow> x = y"
  shows "xs = ys"
  using eq sx sy tot
proof (induction xs arbitrary: ys)
  case Nil
  then show ?case by simp
next
  case (Cons x xs)
  from Cons.prems(1) obtain y ys' where ys: "ys = y # ys'"
    by (cases ys) auto
  have sets: "set (x # xs) = set (y # ys')"
    using Cons.prems(1) ys by (metis set_mset_mset)
  have "\<not> lt y x \<and> \<not> lt x y"
  proof (cases "x = y")
    case True
    then show ?thesis using wo by (simp add: weak_order.irrefl)
  next
    case False
    with sets have "x \<in> set ys'" "y \<in> set xs" by auto
    then show ?thesis using Cons.prems(2,3) ys by (simp add: sorted_by_def)
  qed
  then have xy: "x = y" using Cons.prems(4) [of x y] sets by auto
  have "xs = ys'"
  proof (rule Cons.IH)
    show "mset xs = mset ys'" using Cons.prems(1) ys xy by simp
    show "sorted_by lt xs" using Cons.prems(2) by (simp add: sorted_by_def)
    show "sorted_by lt ys'" using Cons.prems(3) ys by (simp add: sorted_by_def)
    show "\<And>u v. u \<in> set xs \<Longrightarrow> v \<in> set xs \<Longrightarrow> \<not> lt u v \<Longrightarrow> \<not> lt v u \<Longrightarrow> u = v"
      using Cons.prems(4) by simp
  qed
  with ys xy show ?case by simp
qed

lemma sort_slice_unique:
  assumes "weak_order lt" and "mset xs = mset ys"
    and "\<And>x y. x \<in> set xs \<Longrightarrow> y \<in> set xs \<Longrightarrow> \<not> lt x y \<Longrightarrow> \<not> lt y x \<Longrightarrow> x = y"
  shows "sort_slice lt xs = sort_slice lt ys"
  by (rule sorted_by_unique [OF assms(1)])
    (use assms in \<open>auto simp: sort_facts intro: slice.sorted_srt\<close>)

text \<open>Byte-string order, the comparator of \<open>sort.Strings\<close>.\<close>

interpretation str_order: weak_order "(<) :: string \<Rightarrow> string \<Rightarrow> bool"
  by unfold_locales auto

text \<open>Comparing by a key keeps the laws.\<close>

lemma weak_order_key: "weak_order lt \<Longrightarrow> weak_order (\<lambda>x y. lt (f x) (f y))"
  unfolding weak_order_def by blast

lemma weak_order_str_key: "weak_order (\<lambda>x y. f x < (f y :: string))"
  by (rule weak_order_key) (rule str_order.weak_order_axioms)

text \<open>Lexicographic combination, and the order on options that puts \<open>None\<close> first.\<close>

definition lex_less :: "('a \<Rightarrow> 'a \<Rightarrow> bool) \<Rightarrow> ('a \<Rightarrow> 'a \<Rightarrow> bool) \<Rightarrow> 'a \<Rightarrow> 'a \<Rightarrow> bool" where
  "lex_less p q x y \<longleftrightarrow> p x y \<or> \<not> p y x \<and> q x y"

definition opt_less :: "('a \<Rightarrow> 'a \<Rightarrow> bool) \<Rightarrow> 'a option \<Rightarrow> 'a option \<Rightarrow> bool" where
  "opt_less lt x y =
     (case (x, y) of (Some a, Some b) \<Rightarrow> lt a b | (None, Some b) \<Rightarrow> True | _ \<Rightarrow> False)"

lemma weak_order_lex:
  assumes "weak_order p" and "weak_order q"
  shows "weak_order (lex_less p q)"
proof unfold_locales
  fix x y z
  show "\<not> lex_less p q x x"
    using assms by (simp add: lex_less_def weak_order.irrefl)
  assume "lex_less p q x y" and "lex_less p q y z"
  then show "lex_less p q x z"
    using weak_order.trans [OF assms(1)] weak_order.ntrans [OF assms(1)]
      weak_order.trans [OF assms(2)] weak_order.asym [OF assms(1)]
    unfolding lex_less_def by (metis (full_types))
next
  fix x y z
  assume "\<not> lex_less p q x y" and "\<not> lex_less p q y z"
  then show "\<not> lex_less p q x z"
    using weak_order.trans [OF assms(1)] weak_order.ntrans [OF assms(1)]
      weak_order.ntrans [OF assms(2)] weak_order.asym [OF assms(1)]
    unfolding lex_less_def by (metis (full_types))
qed

lemma weak_order_opt:
  assumes "weak_order lt"
  shows "weak_order (opt_less lt)"
  by unfold_locales
    (auto simp: opt_less_def weak_order.irrefl [OF assms] split: option.splits
      dest: weak_order.trans [OF assms] weak_order.ntrans [OF assms])

text \<open>
  Only the comparisons among the elements matter, and a comparator that puts every \<open>P\<close>
  element before every other one sorts the two groups separately.
\<close>

lemma insert_back_cong:
  "(\<And>y. y \<in> set rp \<Longrightarrow> lt x y = lt' x y) \<Longrightarrow> insert_back lt x rp = insert_back lt' x rp"
  by (induction rp) auto

lemma sort_step_cong:
  "(\<And>x y. x \<in> set rp \<union> set xs \<Longrightarrow> y \<in> set rp \<union> set xs \<Longrightarrow> lt x y = lt' x y) \<Longrightarrow>
     sort_step lt rp xs = sort_step lt' rp xs"
proof (induction xs arbitrary: rp)
  case (Cons x xs)
  have "insert_back lt x rp = insert_back lt' x rp"
    by (rule insert_back_cong) (use Cons.prems in auto)
  moreover have "sort_step lt (insert_back lt x rp) xs = sort_step lt' (insert_back lt x rp) xs"
    by (rule Cons.IH) (use Cons.prems in \<open>auto simp: set_insert_back\<close>)
  ultimately show ?case by simp
qed simp

lemma sort_slice_cong:
  "(\<And>x y. x \<in> set xs \<Longrightarrow> y \<in> set xs \<Longrightarrow> lt x y = lt' x y) \<Longrightarrow> sort_slice lt xs = sort_slice lt' xs"
  unfolding sort_slice_def by (rule sort_step_cong) simp

lemma insert_back_past:
  "\<forall>y \<in> set rn. lt x y \<Longrightarrow> insert_back lt x (rn @ rp) = rn @ insert_back lt x rp"
  by (induction rn) auto

lemma insert_back_stop:
  "\<forall>y \<in> set rp. \<not> lt x y \<Longrightarrow> insert_back lt x (rn @ rp) = insert_back lt x rn @ rp"
  by (induction rn) (auto intro: list.exhaust [of rp])

lemma sort_step_groups:
  assumes "\<And>x y. P x \<Longrightarrow> \<not> P y \<Longrightarrow> lt x y \<and> \<not> lt y x"
  shows "\<forall>y \<in> set rn. \<not> P y \<Longrightarrow> \<forall>y \<in> set rp. P y \<Longrightarrow>
     sort_step lt (rn @ rp) xs
       = sort_step lt rp (filter P xs) @ sort_step lt rn (filter (\<lambda>x. \<not> P x) xs)"
proof (induction xs arbitrary: rn rp)
  case (Cons x xs)
  show ?case
  proof (cases "P x")
    case True
    then have "insert_back lt x (rn @ rp) = rn @ insert_back lt x rp"
      using Cons.prems assms by (intro insert_back_past) auto
    then show ?thesis using True Cons by (auto simp: set_insert_back)
  next
    case False
    then have "insert_back lt x (rn @ rp) = insert_back lt x rn @ rp"
      using Cons.prems assms by (intro insert_back_stop) auto
    then show ?thesis using False Cons by (auto simp: set_insert_back)
  qed
qed simp

lemma sort_slice_groups:
  assumes "\<And>x y. P x \<Longrightarrow> \<not> P y \<Longrightarrow> lt x y \<and> \<not> lt y x"
  shows "sort_slice lt xs = sort_slice lt (filter P xs) @ sort_slice lt (filter (\<lambda>x. \<not> P x) xs)"
  using sort_step_groups [of P lt "[]" "[]" xs] assms by (simp add: sort_slice_def)

end
