(* ===== verification/Semver_Interface.thy ===== *)
theory Semver_Interface
  imports Go_Base "HOL-Library.Product_Lexorder"
begin

text \<open>
  The version library \<open>github.com/Masterminds/semver/v3\<close> is a dependency of the program,
  not a part of it: every function that uses it takes its operations as the argument
  \<open>sv\<close>. What the program relies on, that \<open>LessThan\<close> is the strict part of the
  precedence order and \<open>Equal\<close> its ties, is the locale \<open>semver_laws\<close>. The components
  open the locale again to show that the comparators they build are orders.

  \<open>std_semver\<close> instantiates the interface with the strict grammar and the precedence rules
  of the SemVer 2.0.0 specification (and with conjunctions of comparators as constraints).
  It shows that the laws can be met and is what the witnesses compute with; no definition of
  the model refers to it.
\<close>

section \<open>The operations and their laws\<close>

record 'v semver =
  sv_parse :: "string \<Rightarrow> 'v option"           \<comment> \<open>StrictNewVersion; None is an error\<close>
  sv_less :: "'v \<Rightarrow> 'v \<Rightarrow> bool"              \<comment> \<open>Version.LessThan\<close>
  sv_equal :: "'v \<Rightarrow> 'v \<Rightarrow> bool"             \<comment> \<open>Version.Equal\<close>
  sv_prerelease :: "'v \<Rightarrow> string"           \<comment> \<open>Version.Prerelease\<close>
  sv_constraint :: "string \<Rightarrow> ('v \<Rightarrow> bool) option"
    \<comment> \<open>NewConstraint with IncludePrerelease set, then Check; None is an error\<close>

locale semver_laws =
  fixes sv :: "'v semver"
  assumes less_order: "weak_order (sv_less sv)"
    and equal_iff: "sv_equal sv a b \<longleftrightarrow> \<not> sv_less sv a b \<and> \<not> sv_less sv b a"

sublocale semver_laws \<subseteq> less: weak_order "sv_less sv"
  by (rule less_order)

section \<open>The SemVer 2.0.0 instance\<close>

datatype prid = Num nat | Alnum string

instantiation prid :: linorder
begin

fun less_prid :: "prid \<Rightarrow> prid \<Rightarrow> bool" where
  "less_prid (Num m) (Num n) = (m < n)"
| "less_prid (Num m) (Alnum t) = True"
| "less_prid (Alnum s) (Num n) = False"
| "less_prid (Alnum s) (Alnum t) = (s < t)"

definition less_eq_prid :: "prid \<Rightarrow> prid \<Rightarrow> bool" where
  "less_eq_prid x y = (x < y \<or> x = y)"

instance
proof
  fix x y z :: prid
  show "(x < y) = (x \<le> y \<and> \<not> y \<le> x)"
    by (cases x; cases y) (auto simp: less_eq_prid_def)
  show "x \<le> x" by (simp add: less_eq_prid_def)
  show "x \<le> y \<Longrightarrow> y \<le> z \<Longrightarrow> x \<le> z"
    by (cases x; cases y; cases z) (auto simp: less_eq_prid_def)
  show "x \<le> y \<Longrightarrow> y \<le> x \<Longrightarrow> x = y"
    by (cases x; cases y) (auto simp: less_eq_prid_def)
  show "x \<le> y \<or> y \<le> x"
    by (cases x; cases y) (auto simp: less_eq_prid_def)
qed

end

datatype version =
  Version (major: nat) (minor: nat) (patch: nat) (prerelease: string)

definition digit_value :: "char \<Rightarrow> nat" where
  "digit_value c = of_char c - 48"

definition decimal :: "string \<Rightarrow> nat" where
  "decimal s = foldl (\<lambda>n c. 10 * n + digit_value c) 0 s"

definition numeric_id :: "string \<Rightarrow> bool" where
  "numeric_id s \<longleftrightarrow> s \<noteq> [] \<and> list_all is_digit s \<and> (hd s = CHR ''0'' \<longrightarrow> length s = 1)"

definition id_char :: "char \<Rightarrow> bool" where
  "id_char c \<longleftrightarrow> is_digit c \<or> (CHR ''a'' \<le> c \<and> c \<le> CHR ''z'') \<or> (CHR ''A'' \<le> c \<and> c \<le> CHR ''Z'') \<or> c = CHR ''-''"

definition pre_id :: "string \<Rightarrow> bool" where
  "pre_id s \<longleftrightarrow> s \<noteq> [] \<and> list_all id_char s \<and> (list_all is_digit s \<longrightarrow> numeric_id s)"

definition meta_id :: "string \<Rightarrow> bool" where
  "meta_id s \<longleftrightarrow> s \<noteq> [] \<and> list_all id_char s"

definition std_parse :: "string \<Rightarrow> version option" where
  "std_parse s =
     (case cut_byte (CHR ''+'') s of (body, build) \<Rightarrow>
      (case cut_byte (CHR ''-'') body of (core, pre) \<Rightarrow>
       (case split_on (CHR ''.'') core of
          [a, b, c] \<Rightarrow>
            if numeric_id a \<and> numeric_id b \<and> numeric_id c
               \<and> (case pre of None \<Rightarrow> True | Some p \<Rightarrow> list_all pre_id (split_on (CHR ''.'') p))
               \<and> (case build of None \<Rightarrow> True | Some m \<Rightarrow> list_all meta_id (split_on (CHR ''.'') m))
            then Some (Version (decimal a) (decimal b) (decimal c) (case pre of None \<Rightarrow> [] | Some p \<Rightarrow> p))
            else None
        | _ \<Rightarrow> None)))"

definition pre_key :: "string \<Rightarrow> prid list" where
  "pre_key p = (if p = [] then []
     else map (\<lambda>i. if list_all is_digit i then Num (decimal i) else Alnum i) (split_on (CHR ''.'') p))"

definition version_key :: "version \<Rightarrow> nat \<times> nat \<times> nat \<times> bool \<times> prid list" where
  "version_key v = (major v, minor v, patch v, prerelease v = [], pre_key (prerelease v))"

definition std_less :: "version \<Rightarrow> version \<Rightarrow> bool" where
  "std_less v w \<longleftrightarrow> version_key v < version_key w"

definition std_term :: "string \<Rightarrow> (version \<Rightarrow> bool) option" where
  "std_term t =
     (let on = (\<lambda>n f. map_option f (std_parse (drop n t)))
      in if has_prefix t ''>='' then on 2 (\<lambda>w v. \<not> std_less v w)
         else if has_prefix t ''<='' then on 2 (\<lambda>w v. \<not> std_less w v)
         else if has_prefix t ''>'' then on 1 (\<lambda>w v. std_less w v)
         else if has_prefix t ''<'' then on 1 (\<lambda>w v. std_less v w)
         else if has_prefix t ''='' then on 1 (\<lambda>w v. \<not> std_less v w \<and> \<not> std_less w v)
         else map_option (\<lambda>w v. \<not> std_less v w \<and> \<not> std_less w v) (std_parse t))"

definition std_constraint :: "string \<Rightarrow> (version \<Rightarrow> bool) option" where
  "std_constraint e =
     (let ts = map std_term (filter (\<lambda>t. t \<noteq> []) (split_on (CHR '' '') e))
      in if List.null ts \<or> list_ex Option.is_none ts then None
         else Some (\<lambda>v. list_all (\<lambda>t. case t of None \<Rightarrow> False | Some f \<Rightarrow> f v) ts))"

definition std_semver :: "version semver" where
  "std_semver = \<lparr>sv_parse = std_parse, sv_less = std_less,
     sv_equal = (\<lambda>v w. \<not> std_less v w \<and> \<not> std_less w v),
     sv_prerelease = prerelease, sv_constraint = std_constraint\<rparr>"

lemma std_less_weak: "weak_order std_less"
  by unfold_locales (auto simp: std_less_def)

interpretation std: semver_laws std_semver
  by (rule semver_laws.intro) (simp_all add: std_semver_def std_less_weak)

text \<open>The bundle of equations that evaluates the instance on closed terms.\<close>

lemmas std_eval =
  std_semver_def std_parse_def std_less_def std_constraint_def std_term_def
  version_key_def pre_key_def numeric_id_def pre_id_def meta_id_def id_char_def
  decimal_def digit_value_def

end
