(* ===== verification/Catalog_Model.thy ===== *)
theory Catalog_Model
  imports Semver_Interface
begin

text \<open>
  The data of \<^verbatim>\<open>pkg/catalog/catalog.go\<close> and the edge functions of
  \<^verbatim>\<open>pkg/catalog/resolve.go\<close>: sources, snapshots, packages, channels, entries and bundles,
  the three kinds of declared update edges, and the resolution of the installed bundle.

  Strings are byte strings; a missing pointer is \<open>None\<close>; an \<open>error\<close> return is the left
  summand. The interface \<open>bundle_graph\<close> states what the two graph searches
  (\<open>VersionUpdates\<close>, \<open>channelUpgradeHeads\<close>) rely on.
\<close>

section \<open>Data\<close>

text \<open>An instant is the number of nanoseconds since Go's zero time, which is 0.\<close>

type_synonym time = int

record source =
  src_id :: string
  src_image :: string
  src_platform :: string

record entry =
  e_name :: string
  e_replaces :: string
  e_skips :: "string list"
  e_skip_range :: string

record channel =
  ch_name :: string
  ch_entries :: "entry list"
  ch_deprecated :: bool

record olm_bundle =
  b_name :: string
  b_version :: string
  b_image :: string
  b_deprecated :: bool

record package =
  p_name :: string
  p_default_channel :: string
  p_channels :: "(string, channel) gomap"
  p_bundles :: "(string, olm_bundle) gomap"

record snapshot =
  sn_source :: source
  sn_generated_at :: time
  sn_packages :: "(string, package) gomap"

record update_request =
  ur_current_version :: string
  ur_current_bundle :: string
  ur_channel :: string
  ur_mode :: string

record channel_update_request =
  cr_current_channel :: string
  cr_current_version :: string
  cr_current_bundle :: string
  cr_selection :: string

record channel_release =
  cl_channel :: string
  cl_bundle :: string

text \<open>
  The errors of the resolver, one constructor per \<open>fmt.Errorf\<close> or \<open>errors.New\<close>. The two
  that wrap \<open>ErrNoUpdatePath\<close> are recognised by \<open>no_update_path\<close>, as \<open>errors.Is\<close> does.
\<close>

datatype resolve_error =
    UnknownChannel string
  | UnknownCurrentChannel string
  | CurrentStateRequired
  | UnknownCurrentBundle string
  | BundleNotInChannel string string
  | AmbiguousVersion string
  | VersionNotInChannel string string

fun no_update_path :: "resolve_error \<Rightarrow> bool" where
  "no_update_path (BundleNotInChannel b c) = True"
| "no_update_path (VersionNotInChannel v c) = True"
| "no_update_path _ = False"

section \<open>Edges\<close>

fun contains :: "string list \<Rightarrow> string \<Rightarrow> bool" where
  "contains [] want = False"
| "contains (x # xs) want = (if x = want then True else contains xs want)"

lemma contains_iff [simp]: "contains xs want \<longleftrightarrow> want \<in> set xs"
  by (induction xs) auto

definition range_matches :: "'v semver \<Rightarrow> string \<Rightarrow> string \<Rightarrow> bool" where
  "range_matches sv expr version =
     (if expr = [] \<or> version = [] then False
      else (case sv_parse sv version of
              None \<Rightarrow> False
            | Some v \<Rightarrow> (case sv_constraint sv expr of None \<Rightarrow> False | Some r \<Rightarrow> r v)))"

definition bundle_version :: "olm_bundle option \<Rightarrow> string" where
  "bundle_version b = (case b of None \<Rightarrow> [] | Some b \<Rightarrow> b_version b)"

text \<open>The condition of \<open>successors\<close>: an entry that accepts the named bundle.\<close>

definition entry_matches :: "'v semver \<Rightarrow> entry \<Rightarrow> string \<Rightarrow> string \<Rightarrow> bool" where
  "entry_matches sv e name version \<longleftrightarrow>
     e_replaces e = name \<or> contains (e_skips e) name \<or> range_matches sv (e_skip_range e) version"

fun successors_from :: "'v semver \<Rightarrow> package \<Rightarrow> entry list \<Rightarrow> string \<Rightarrow> string \<Rightarrow> olm_bundle list" where
  "successors_from sv p [] name version = []"
| "successors_from sv p (e # es) name version =
     (if \<not> entry_matches sv e name version then successors_from sv p es name version
      else (case map_of (p_bundles p) (e_name e) of
              None \<Rightarrow> successors_from sv p es name version
            | Some b \<Rightarrow> b # successors_from sv p es name version))"

definition successors :: "'v semver \<Rightarrow> package \<Rightarrow> channel \<Rightarrow> string \<Rightarrow> string \<Rightarrow> olm_bundle list" where
  "successors sv p ch name version = successors_from sv p (ch_entries ch) name version"

text \<open>The call both searches make: the successors of a name under its own bundle's version.\<close>

definition succs :: "'v semver \<Rightarrow> package \<Rightarrow> channel \<Rightarrow> string \<Rightarrow> olm_bundle list" where
  "succs sv p ch name = successors sv p ch name (bundle_version (map_of (p_bundles p) name))"

lemma set_successors:
  "set (successors sv p ch name version) =
     {b. \<exists>e \<in> set (ch_entries ch). entry_matches sv e name version
          \<and> map_of (p_bundles p) (e_name e) = Some b}"
proof -
  have "set (successors_from sv p es name version) =
     {b. \<exists>e \<in> set es. entry_matches sv e name version \<and> map_of (p_bundles p) (e_name e) = Some b}" for es
    by (induction es) (auto split: option.splits)
  then show ?thesis by (simp add: successors_def)
qed

text \<open>One declared update edge between bundle names.\<close>

definition update_edge :: "'v semver \<Rightarrow> package \<Rightarrow> channel \<Rightarrow> string \<Rightarrow> string \<Rightarrow> bool" where
  "update_edge sv p ch a b \<longleftrightarrow> b \<in> b_name ` set (succs sv p ch a)"

section \<open>The installed bundle\<close>

fun channel_contains_from :: "entry list \<Rightarrow> string \<Rightarrow> bool" where
  "channel_contains_from [] bundle = False"
| "channel_contains_from (e # es) bundle =
     (if e_name e = bundle then True else channel_contains_from es bundle)"

definition channel_contains :: "channel \<Rightarrow> string \<Rightarrow> bool" where
  "channel_contains ch bundle = channel_contains_from (ch_entries ch) bundle"

lemma channel_contains_iff [simp]:
  "channel_contains ch b \<longleftrightarrow> (\<exists>e \<in> set (ch_entries ch). e_name e = b)"
proof -
  have "channel_contains_from es b \<longleftrightarrow> (\<exists>e \<in> set es. e_name e = b)" for es
    by (induction es) auto
  then show ?thesis by (simp add: channel_contains_def)
qed

text \<open>The loop over the entries, with the candidate found so far.\<close>

fun find_version ::
  "package \<Rightarrow> string \<Rightarrow> entry list \<Rightarrow> olm_bundle option \<Rightarrow> resolve_error + olm_bundle option" where
  "find_version p version [] found = Inr found"
| "find_version p version (e # es) found =
     (case map_of (p_bundles p) (e_name e) of
        None \<Rightarrow> find_version p version es found
      | Some b \<Rightarrow>
          if b_version b = version then
            (case found of
               Some f \<Rightarrow> Inl (AmbiguousVersion version)
             | None \<Rightarrow> find_version p version es (Some b))
          else find_version p version es found)"

definition current_bundle ::
  "package \<Rightarrow> channel \<Rightarrow> string \<Rightarrow> string \<Rightarrow> resolve_error + olm_bundle" where
  "current_bundle p ch name version =
     (if name = [] \<and> version = [] then Inl CurrentStateRequired
      else if name \<noteq> [] then
        (case map_of (p_bundles p) name of
           None \<Rightarrow> Inl (UnknownCurrentBundle name)
         | Some b \<Rightarrow>
             if \<not> channel_contains ch name then Inl (BundleNotInChannel name (ch_name ch))
             else Inr b)
      else
        (case find_version p version (ch_entries ch) None of
           Inl e \<Rightarrow> Inl e
         | Inr None \<Rightarrow> Inl (VersionNotInChannel version (ch_name ch))
         | Inr (Some b) \<Rightarrow> Inr b))"

section \<open>Well-formed packages\<close>

text \<open>
  What \<open>addMeta\<close> establishes (\<open>Catalog_Reader\<close>): the maps have distinct keys, and a bundle
  and a channel are stored under their own names, which are not empty.
\<close>

definition wf_package :: "package \<Rightarrow> bool" where
  "wf_package p \<longleftrightarrow>
     map_ok (p_channels p) \<and> map_ok (p_bundles p)
     \<and> (\<forall>(k, b) \<in> set (p_bundles p). b_name b = k \<and> k \<noteq> [])
     \<and> (\<forall>(k, c) \<in> set (p_channels p). ch_name c = k \<and> k \<noteq> [])"

lemma wf_bundle_name: "wf_package p \<Longrightarrow> map_of (p_bundles p) k = Some b \<Longrightarrow> b_name b = k"
  by (auto simp: wf_package_def dest: map_of_SomeD)

lemma wf_bundle_nonempty: "wf_package p \<Longrightarrow> map_of (p_bundles p) k = Some b \<Longrightarrow> k \<noteq> []"
  by (auto simp: wf_package_def dest: map_of_SomeD)

lemma wf_channel_name: "wf_package p \<Longrightarrow> map_of (p_channels p) k = Some c \<Longrightarrow> ch_name c = k"
  by (auto simp: wf_package_def dest: map_of_SomeD)

lemma update_edge_iff:
  assumes "wf_package p"
  shows "update_edge sv p ch a b \<longleftrightarrow>
     (\<exists>e \<in> set (ch_entries ch). e_name e = b \<and> b \<in> dom (map_of (p_bundles p))
        \<and> (e_replaces e = a \<or> a \<in> set (e_skips e)
            \<or> range_matches sv (e_skip_range e) (bundle_version (map_of (p_bundles p) a))))"
  using wf_bundle_name [OF assms]
  by (fastforce simp: update_edge_def succs_def set_successors entry_matches_def image_iff)

lemma current_bundle_name:
  assumes "name \<noteq> []"
  shows "current_bundle p ch name version = Inr b \<longleftrightarrow>
     map_of (p_bundles p) name = Some b \<and> channel_contains ch name"
  using assms by (auto simp: current_bundle_def split: option.splits)

lemma find_version_found:
  "find_version p version es found = Inr r \<Longrightarrow>
     r = found \<or> (found = None \<and> (\<exists>e \<in> set es. \<exists>b. r = Some b
        \<and> map_of (p_bundles p) (e_name e) = Some b \<and> b_version b = version))"
  by (induction es arbitrary: found) (fastforce split: option.splits if_splits)+

text \<open>The bundle the resolver starts from is a bundle of the channel, under its own name.\<close>

lemma current_bundle_known:
  assumes wf: "wf_package p" and cb: "current_bundle p ch name version = Inr b"
  shows "map_of (p_bundles p) (b_name b) = Some b \<and> channel_contains ch (b_name b)"
proof (cases "name = []")
  case True
  with cb obtain f where "find_version p version (ch_entries ch) None = Inr (Some b)"
    by (auto simp: current_bundle_def split: if_splits sum.splits option.splits)
  from find_version_found [OF this] show ?thesis
    using wf_bundle_name [OF wf] by fastforce
next
  case False
  then show ?thesis using cb current_bundle_name wf_bundle_name [OF wf] by auto
qed

section \<open>The interface of the catalog reader\<close>

text \<open>
  What the service needs of the reader: a snapshot read for a source carries that source.
\<close>

locale snapshot_provider =
  fixes reads :: "source \<Rightarrow> snapshot \<Rightarrow> bool"
  assumes own_source: "reads src snap \<Longrightarrow> sn_source snap = src"

section \<open>The interface of the graph searches\<close>

text \<open>
  A search over a package sees a successor function and a lookup. It relies on one law: a
  successor is a bundle of the package, stored under its own name.
\<close>

locale bundle_graph =
  fixes graph_ok :: "'g \<Rightarrow> bool"
    and next_bundles :: "'g \<Rightarrow> string \<Rightarrow> olm_bundle list"
    and stored :: "'g \<Rightarrow> string \<Rightarrow> olm_bundle option"
  assumes next_stored: "graph_ok g \<Longrightarrow> b \<in> set (next_bundles g a) \<Longrightarrow> stored g (b_name b) = Some b"
    and finite_stored: "finite (dom (stored g))"
begin

lemma next_unique:
  "graph_ok g \<Longrightarrow> b \<in> set (next_bundles g a) \<Longrightarrow> c \<in> set (next_bundles g a') \<Longrightarrow> b_name b = b_name c \<Longrightarrow> b = c"
  by (metis next_stored option.inject)

lemma reach_stored:
  assumes "graph_ok g" and "(\<lambda>a b. b \<in> b_name ` set (next_bundles g a))\<^sup>*\<^sup>* a b"
  shows "b = a \<or> b \<in> dom (stored g)"
  using assms(2) next_stored [OF assms(1)] by (induction) auto

lemma finite_reach:
  assumes "graph_ok g"
  shows "finite {b. (\<lambda>a b. b \<in> b_name ` set (next_bundles g a))\<^sup>*\<^sup>* a b}"
proof (rule finite_subset)
  show "{b. (\<lambda>a b. b \<in> b_name ` set (next_bundles g a))\<^sup>*\<^sup>* a b} \<subseteq> insert a (dom (stored g))"
    using reach_stored [OF assms] by blast
  show "finite (insert a (dom (stored g)))" using finite_stored by simp
qed

text \<open>A set that holds the start and every successor of its members holds all that is reached.\<close>

lemma closed_reach:
  assumes "a \<in> S" and "\<And>x b. x \<in> S \<Longrightarrow> b \<in> set (next_bundles g x) \<Longrightarrow> b_name b \<in> S"
    and "(\<lambda>a b. b \<in> b_name ` set (next_bundles g a))\<^sup>*\<^sup>* a b"
  shows "b \<in> S"
  using assms(3,1) by (induction) (use assms(2) in auto)

end

interpretation pkg_graph: bundle_graph "\<lambda>(p, ch). wf_package p"
  "\<lambda>(p, ch). succs sv p ch" "\<lambda>(p, ch). map_of (p_bundles p)" for sv
proof unfold_locales
  fix g :: "package \<times> channel" and b a
  assume "(case g of (p, ch) \<Rightarrow> wf_package p)" and "b \<in> set ((case g of (p, ch) \<Rightarrow> succs sv p ch) a)"
  then show "(case g of (p, ch) \<Rightarrow> map_of (p_bundles p)) (b_name b) = Some b"
    by (cases g) (auto simp: succs_def set_successors dest: wf_bundle_name)
next
  fix g :: "package \<times> channel"
  show "finite (dom (case g of (p, ch) \<Rightarrow> map_of (p_bundles p)))"
    by (cases g) (simp add: finite_dom_map_of)
qed

text \<open>The installed bundle by version: exactly one entry of the channel must carry it.\<close>

definition version_matches :: "package \<Rightarrow> string \<Rightarrow> entry list \<Rightarrow> olm_bundle list" where
  "version_matches p version es =
     filter (\<lambda>b. b_version b = version) (List.map_filter (\<lambda>e. map_of (p_bundles p) (e_name e)) es)"

lemma version_matches_simps [simp]:
  "version_matches p v [] = []"
  "version_matches p v (e # es) =
     (case map_of (p_bundles p) (e_name e) of
        Some b \<Rightarrow> if b_version b = v then b # version_matches p v es else version_matches p v es
      | None \<Rightarrow> version_matches p v es)"
  by (auto simp: version_matches_def List.map_filter_def split: option.splits)

lemma find_version_spec:
  "find_version p v es found =
     (case (found, version_matches p v es) of
        (None, []) \<Rightarrow> Inr None
      | (None, [b]) \<Rightarrow> Inr (Some b)
      | (Some f, []) \<Rightarrow> Inr (Some f)
      | _ \<Rightarrow> Inl (AmbiguousVersion v))"
  by (induction es arbitrary: found) (auto split: option.splits list.splits)

text \<open>
  C1: \<open>currentBundle\<close> decides by a fixed precedence: no input is an error; a bundle name must
  be a bundle of the package and an entry of the channel; otherwise the version must be
  carried by exactly one entry of the channel, none meaning no update path and several
  meaning an ambiguity error. Nothing else decides the result.
\<close>

theorem current_bundle_spec:
  "current_bundle p ch name version =
     (if name \<noteq> [] then
        (case map_of (p_bundles p) name of
           None \<Rightarrow> Inl (UnknownCurrentBundle name)
         | Some b \<Rightarrow> if name \<in> e_name ` set (ch_entries ch) then Inr b
                     else Inl (BundleNotInChannel name (ch_name ch)))
      else if version = [] then Inl CurrentStateRequired
      else (case version_matches p version (ch_entries ch) of
              [] \<Rightarrow> Inl (VersionNotInChannel version (ch_name ch))
            | [b] \<Rightarrow> Inr b
            | _ \<Rightarrow> Inl (AmbiguousVersion version)))"
  by (auto simp: current_bundle_def find_version_spec image_iff split: option.splits list.splits)

section \<open>A sample package\<close>

text \<open>
  The package the witnesses compute with: a channel with a replaces edge, a skips edge over
  a deprecated bundle, a skip range and a bundle that no edge leads to; and a second family
  channel that accepts its newest bundle.
\<close>

definition ex_entry :: "string \<Rightarrow> string \<Rightarrow> string list \<Rightarrow> string \<Rightarrow> entry" where
  "ex_entry n r ss rg = \<lparr>e_name = n, e_replaces = r, e_skips = ss, e_skip_range = rg\<rparr>"

definition ex_bundle :: "string \<Rightarrow> string \<Rightarrow> bool \<Rightarrow> string \<times> olm_bundle" where
  "ex_bundle n v d = (n, \<lparr>b_name = n, b_version = v, b_image = ''img'', b_deprecated = d\<rparr>)"

definition ex_channel :: "string \<Rightarrow> entry list \<Rightarrow> string \<times> channel" where
  "ex_channel n es = (n, \<lparr>ch_name = n, ch_entries = es, ch_deprecated = False\<rparr>)"

definition ex_stable :: channel where
  "ex_stable = snd (ex_channel ''gitops-1.2''
     [ex_entry ''v1'' [] [] [], ex_entry ''v2'' ''v1'' [] [], ex_entry ''v3'' [] [''v2''] [],
      ex_entry ''v4'' [] [] ''>=1.2.0 <1.3.0'', ex_entry ''v9'' [] [] []])"

definition ex_package :: package where
  "ex_package = \<lparr>p_name = ''gitops'', p_default_channel = ''gitops-1.2'',
     p_channels = [(''gitops-1.2'', ex_stable),
       ex_channel ''gitops-1.3'' [ex_entry ''v5'' ''v4'' [] []],
       ex_channel ''latest'' [ex_entry ''v9'' [] [''v4''] []]],
     p_bundles = [ex_bundle ''v1'' ''1.0.0'' False, ex_bundle ''v2'' ''1.1.0'' True,
       ex_bundle ''v3'' ''1.2.0'' False, ex_bundle ''v4'' ''1.10.0'' False,
       ex_bundle ''v5'' ''1.11.0'' False, ex_bundle ''v9'' ''9.0.0'' False]\<rparr>"

lemmas ex_defs = ex_package_def ex_stable_def ex_channel_def ex_bundle_def ex_entry_def

lemma wf_ex_package: "wf_package ex_package"
  by (simp add: wf_package_def ex_defs)

end
