(* ===== verification/Catalog_Versions.thy ===== *)
theory Catalog_Versions
  imports Catalog_Model
begin

text \<open>
  \<open>VersionUpdates\<close> of \<^verbatim>\<open>pkg/catalog/resolve.go\<close>: the breadth-first search over declared
  update edges that marks a bundle as seen when it is queued, the set of versions it
  collects, and \<open>sortVersions\<close>. The lemmas relate the loop to reachability over
  \<open>update_edge\<close>; the properties state what a client receives.
\<close>

section \<open>sortVersions\<close>

definition version_less :: "'v semver \<Rightarrow> string \<Rightarrow> string \<Rightarrow> bool" where
  "version_less sv x y =
     (case (sv_parse sv x, sv_parse sv y) of
        (Some a, Some b) \<Rightarrow> sv_less sv a b
      | (Some a, None) \<Rightarrow> True
      | (None, Some b) \<Rightarrow> False
      | (None, None) \<Rightarrow> x < y)"

definition sort_versions :: "'v semver \<Rightarrow> string list \<Rightarrow> string list" where
  "sort_versions sv xs = sort_slice (version_less sv) xs"

context semver_laws
begin

lemma version_less_weak: "weak_order (version_less sv)"
  by unfold_locales
    (auto simp: version_less_def less.irrefl split: option.splits dest: less.trans less.ntrans)

lemma sort_versions_sorted: "sorted_by (version_less sv) (sort_versions sv xs)"
  unfolding sort_versions_def by (rule slice.sorted_srt) (rule version_less_weak)

end

section \<open>The search\<close>

text \<open>Writing \<open>true\<close> at a key of a \<open>map[string]bool\<close> that only ever holds true.\<close>

definition add_key :: "string \<Rightarrow> string list \<Rightarrow> string list" where
  "add_key k ks = (if k \<in> set ks then ks else ks @ [k])"

lemma set_add_key [simp]: "set (add_key k ks) = insert k (set ks)"
  by (auto simp: add_key_def)

lemma distinct_add_key [simp]: "distinct (add_key k ks) = distinct ks"
  by (auto simp: add_key_def)

text \<open>The inner loop over the successors: the state is \<open>seen\<close>, \<open>queue\<close> and \<open>versions\<close>.\<close>

fun visit_successors ::
  "bool \<Rightarrow> olm_bundle list \<Rightarrow> string list \<Rightarrow> string list \<Rightarrow> string list
     \<Rightarrow> string list \<times> string list \<times> string list" where
  "visit_successors reachable [] seen queue versions = (seen, queue, versions)"
| "visit_successors reachable (b # bs) seen queue versions =
     (if b_name b \<in> set seen then visit_successors reachable bs seen queue versions
      else visit_successors reachable bs (add_key (b_name b) seen)
        (if reachable then queue @ [b_name b] else queue)
        (if \<not> b_deprecated b \<and> b_version b \<noteq> [] then add_key (b_version b) versions else versions))"

definition bundle_names :: "package \<Rightarrow> string set" where
  "bundle_names p = b_name ` snd ` set (p_bundles p)"

lemma finite_bundle_names [simp]: "finite (bundle_names p)"
  by (simp add: bundle_names_def)

lemma succs_names: "b_name ` set (succs sv p ch a) \<subseteq> bundle_names p"
  by (force simp: succs_def set_successors bundle_names_def dest: map_of_SomeD)

lemma visit_seen:
  "visit_successors r bs seen queue versions = (seen', queue', versions') \<Longrightarrow>
     set seen' = set seen \<union> b_name ` set bs"
  by (induction r bs seen queue versions rule: visit_successors.induct) (auto split: if_splits)

lemma visit_queue_same:
  "visit_successors r bs seen queue versions = (seen', queue', versions') \<Longrightarrow>
     set seen' = set seen \<Longrightarrow> queue' = queue"
proof (induction r bs seen queue versions rule: visit_successors.induct)
  case (2 r b bs seen queue versions)
  show ?case
  proof (cases "b_name b \<in> set seen")
    case True
    with 2 show ?thesis by simp
  next
    case False
    with 2 have "b_name b \<in> set seen'" using visit_seen by fastforce
    with False 2 show ?thesis by simp
  qed
qed simp

lemma visit_decreases:
  assumes v: "visit_successors r (succs sv p ch name) seen queue versions = (seen', queue', versions')"
  shows "card (bundle_names p - set seen') < card (bundle_names p - set seen)
    \<or> card (bundle_names p - set seen') = card (bundle_names p - set seen) \<and> queue' = queue"
proof (cases "set seen' = set seen")
  case True
  then show ?thesis using visit_queue_same [OF v] by simp
next
  case False
  have "set seen' = set seen \<union> b_name ` set (succs sv p ch name)"
    by (rule visit_seen [OF v])
  then have "bundle_names p - set seen' \<subset> bundle_names p - set seen"
    using False succs_names [of sv p ch name] by blast
  then show ?thesis by (simp add: psubset_card_mono)
qed

text \<open>
  The outer loop. It ends because every iteration either marks a new bundle of the package,
  or leaves the queue one shorter.
\<close>

function updates_loop ::
  "'v semver \<Rightarrow> package \<Rightarrow> channel \<Rightarrow> bool \<Rightarrow> string list \<Rightarrow> string list \<Rightarrow> string list \<Rightarrow> string list" where
  "updates_loop sv p ch reachable seen [] versions = versions"
| "updates_loop sv p ch reachable seen (name # queue) versions =
     (case visit_successors reachable (succs sv p ch name) seen queue versions of
        (seen', queue', versions') \<Rightarrow>
          if reachable then updates_loop sv p ch reachable seen' queue' versions' else versions')"
  by pat_completeness auto
termination
proof (relation "measures [\<lambda>(sv, p, ch, r, seen, queue, vs). card (bundle_names p - set seen),
        \<lambda>(sv, p, ch, r, seen, queue, vs). length queue]", goal_cases)
  case (2 sv p ch r seen name queue versions seen' rest queue' versions')
  then have "visit_successors r (succs sv p ch name) seen queue versions = (seen', queue', versions')"
    by simp
  from visit_decreases [OF this] show ?case by auto
qed simp

definition version_updates ::
  "'v semver \<Rightarrow> (string list \<Rightarrow> string list) \<Rightarrow> package \<Rightarrow> update_request
     \<Rightarrow> resolve_error + string list" where
  "version_updates sv iter p req =
     (let channel = (if ur_channel req = [] then p_default_channel p else ur_channel req)
      in case map_of (p_channels p) channel of
           None \<Rightarrow> Inl (UnknownChannel channel)
         | Some ch \<Rightarrow>
             (case current_bundle p ch (ur_current_bundle req) (ur_current_version req) of
                Inl e \<Rightarrow> if no_update_path e then Inr [] else Inl e
              | Inr current \<Rightarrow>
                  Inr (sort_versions sv (iter
                    (updates_loop sv p ch (ur_mode req = ''reachable'') [b_name current] [b_name current]
                      (if b_version current \<noteq> [] then [b_version current] else []))))))"

section \<open>What the search collects\<close>

text \<open>The non-empty versions of the non-deprecated bundles among a set of names.\<close>

definition offered :: "package \<Rightarrow> string set \<Rightarrow> string set" where
  "offered p names =
     {b_version b |b. \<exists>k \<in> names. map_of (p_bundles p) k = Some b \<and> \<not> b_deprecated b \<and> b_version b \<noteq> []}"

lemma offered_Un: "offered p (A \<union> B) = offered p A \<union> offered p B"
  by (auto simp: offered_def)

lemma offered_insert:
  "map_of (p_bundles p) k = Some b \<Longrightarrow>
     offered p (insert k A) = (if \<not> b_deprecated b \<and> b_version b \<noteq> [] then {b_version b} else {}) \<union> offered p A"
  by (auto simp: offered_def)

lemma offered_empty [simp]: "offered p {} = {}"
  by (simp add: offered_def)

lemma visit_versions:
  assumes "visit_successors r bs seen queue versions = (seen', queue', versions')"
    and "\<forall>b \<in> set bs. map_of (p_bundles p) (b_name b) = Some b"
  shows "set versions' = set versions \<union> offered p (b_name ` set bs - set seen)"
  using assms
proof (induction r bs seen queue versions rule: visit_successors.induct)
  case (2 r b bs seen queue versions)
  show ?case
  proof (cases "b_name b \<in> set seen")
    case True
    then have "b_name ` set (b # bs) - set seen = b_name ` set bs - set seen" by auto
    with True 2 show ?thesis by simp
  next
    case False
    then have "b_name ` set (b # bs) - set seen
        = insert (b_name b) (b_name ` set bs - set (add_key (b_name b) seen))" by auto
    with False 2 show ?thesis by (auto simp: offered_insert split: if_splits)
  qed
qed simp

lemma visit_queue:
  "visit_successors True bs seen queue versions = (seen', queue', versions') \<Longrightarrow>
     set queue' = set queue \<union> (b_name ` set bs - set seen)"
  by (induction True bs seen queue versions rule: visit_successors.induct) (auto split: if_splits)

lemma visit_distinct:
  "visit_successors r bs seen queue versions = (seen', queue', versions') \<Longrightarrow>
     distinct versions \<Longrightarrow> distinct versions'"
  by (induction r bs seen queue versions rule: visit_successors.induct) (auto split: if_splits)

lemma updates_loop_distinct:
  "distinct versions \<Longrightarrow> distinct (updates_loop sv p ch r seen queue versions)"
proof (induction sv p ch r seen queue versions rule: updates_loop.induct)
  case (2 sv p ch r seen name queue versions)
  obtain seen' queue' versions' where
    v: "visit_successors r (succs sv p ch name) seen queue versions = (seen', queue', versions')"
    by (metis prod_cases3)
  show ?case using v "2.prems" "2.IH" [OF v [symmetric] refl] visit_distinct [OF v] by simp
qed simp

lemma succs_stored:
  "wf_package p \<Longrightarrow> \<forall>b \<in> set (succs sv p ch a). map_of (p_bundles p) (b_name b) = Some b"
  using pkg_graph.next_stored [of "(p, ch)"] by auto

text \<open>
  The invariant of the loop: what is seen is reached, what is seen and no longer queued has
  all its successors seen, and the versions are those of the seen bundles but the first.
\<close>

definition search_inv ::
  "'v semver \<Rightarrow> package \<Rightarrow> channel \<Rightarrow> string \<Rightarrow> string set \<Rightarrow> string list \<Rightarrow> string list \<Rightarrow> string list \<Rightarrow> bool" where
  "search_inv sv p ch cur own seen queue versions \<longleftrightarrow>
     cur \<in> set seen \<and> set queue \<subseteq> set seen
     \<and> (\<forall>x \<in> set seen. (update_edge sv p ch)\<^sup>*\<^sup>* cur x)
     \<and> (\<forall>x \<in> set seen - set queue. \<forall>b. update_edge sv p ch x b \<longrightarrow> b \<in> set seen)
     \<and> set versions = own \<union> offered p (set seen - {cur})"

lemma search_inv_step:
  assumes wf: "wf_package p" and inv: "search_inv sv p ch cur own seen (name # queue) versions"
    and v: "visit_successors True (succs sv p ch name) seen queue versions = (seen', queue', versions')"
  shows "search_inv sv p ch cur own seen' queue' versions'"
proof -
  let ?new = "b_name ` set (succs sv p ch name)"
  have s: "set seen' = set seen \<union> ?new" by (rule visit_seen [OF v])
  have q: "set queue' = set queue \<union> (?new - set seen)" by (rule visit_queue [OF v])
  have vs: "set versions' = set versions \<union> offered p (?new - set seen)"
    by (rule visit_versions [OF v succs_stored [OF wf]])
  have cur: "cur \<in> set seen" and sub: "set (name # queue) \<subseteq> set seen"
    and reach: "\<forall>x \<in> set seen. (update_edge sv p ch)\<^sup>*\<^sup>* cur x"
    and closed: "\<forall>x \<in> set seen - set (name # queue). \<forall>b. update_edge sv p ch x b \<longrightarrow> b \<in> set seen"
    and old: "set versions = own \<union> offered p (set seen - {cur})"
    using inv unfolding search_inv_def by blast+
  have name: "(update_edge sv p ch)\<^sup>*\<^sup>* cur name" using reach sub by simp
  have "(update_edge sv p ch)\<^sup>*\<^sup>* cur x" if "x \<in> ?new" for x
    using that name by (auto simp: update_edge_def intro: rtranclp.rtrancl_into_rtrancl)
  then have reach': "\<forall>x \<in> set seen'. (update_edge sv p ch)\<^sup>*\<^sup>* cur x"
    using s reach by blast
  have closed': "\<forall>x \<in> set seen' - set queue'. \<forall>b. update_edge sv p ch x b \<longrightarrow> b \<in> set seen'"
  proof (intro ballI allI impI)
    fix x b assume x: "x \<in> set seen' - set queue'" and e: "update_edge sv p ch x b"
    show "b \<in> set seen'"
    proof (cases "x = name")
      case True
      with e s show ?thesis by (simp add: update_edge_def)
    next
      case False
      with x s q have "x \<in> set seen - set (name # queue)" by auto
      with closed e s show ?thesis by blast
    qed
  qed
  have "set seen' - {cur} = (set seen - {cur}) \<union> (?new - set seen)"
    using cur s by blast
  then have "set versions' = own \<union> offered p (set seen' - {cur})"
    using vs old by (simp add: offered_Un Un_assoc)
  with reach' closed' show ?thesis
    unfolding search_inv_def using cur sub s q by auto
qed

text \<open>When the queue is empty, the seen names are exactly the reached ones.\<close>

lemma search_inv_done:
  assumes "search_inv sv p ch cur own seen [] versions"
  shows "set versions = own \<union> offered p ({x. (update_edge sv p ch)\<^sup>*\<^sup>* cur x} - {cur})"
proof -
  have closed: "x \<in> set seen \<Longrightarrow> b \<in> set (succs sv p ch x) \<Longrightarrow> b_name b \<in> set seen" for x b
    using assms by (auto simp: search_inv_def update_edge_def)
  have "x \<in> set seen" if "(update_edge sv p ch)\<^sup>*\<^sup>* cur x" for x
  proof (rule pkg_graph.closed_reach [of cur "set seen" sv "(p, ch)"])
    show "cur \<in> set seen" using assms by (simp add: search_inv_def)
    show "(\<lambda>a b. b \<in> b_name ` set ((case (p, ch) of (p, ch) \<Rightarrow> succs sv p ch) a))\<^sup>*\<^sup>* cur x"
      using that by (simp add: update_edge_def [abs_def])
  qed (use closed in auto)
  moreover have "(update_edge sv p ch)\<^sup>*\<^sup>* cur x" if "x \<in> set seen" for x
    using assms that unfolding search_inv_def by blast
  ultimately have "{x. (update_edge sv p ch)\<^sup>*\<^sup>* cur x} = set seen" by blast
  then show ?thesis using assms by (simp add: search_inv_def)
qed

lemma updates_loop_reachable:
  assumes wf: "wf_package p"
  shows "search_inv sv p ch cur own seen queue versions \<Longrightarrow>
     set (updates_loop sv p ch True seen queue versions)
       = own \<union> offered p ({x. (update_edge sv p ch)\<^sup>*\<^sup>* cur x} - {cur})"
  using wf
proof (induction sv p ch True seen queue versions rule: updates_loop.induct)
  case (1 sv p ch seen versions)
  then show ?case using search_inv_done by simp
next
  case (2 sv p ch seen name queue versions)
  obtain seen' queue' versions' where
    v: "visit_successors True (succs sv p ch name) seen queue versions = (seen', queue', versions')"
    by (metis prod_cases3)
  show ?case
    using "2.hyps" [OF v [symmetric] refl TrueI] search_inv_step [OF "2.prems"(2,1) v] "2.prems"(2) v
    by simp
qed

section \<open>Properties\<close>

abbreviation own_version :: "olm_bundle \<Rightarrow> string set" where
  "own_version b \<equiv> (if b_version b = [] then {} else {b_version b})"

text \<open>Mode \<open>reachable\<close>.\<close>

lemma version_updates_reachable:
  assumes wf: "wf_package p" and it: "is_iter iter"
    and ch: "map_of (p_channels p) (if ur_channel req = [] then p_default_channel p else ur_channel req) = Some ch"
    and cur: "current_bundle p ch (ur_current_bundle req) (ur_current_version req) = Inr cur"
    and mode: "ur_mode req = ''reachable''"
  shows "\<exists>vs. version_updates sv iter p req = Inr vs \<and> distinct vs
    \<and> set vs = own_version cur
        \<union> offered p ({x. (update_edge sv p ch)\<^sup>*\<^sup>* (b_name cur) x} - {b_name cur})"
proof -
  let ?own = "if b_version cur \<noteq> [] then [b_version cur] else []"
  let ?vs = "updates_loop sv p ch True [b_name cur] [b_name cur] ?own"
  have "search_inv sv p ch (b_name cur) (own_version cur) [b_name cur] [b_name cur] ?own"
    by (simp add: search_inv_def)
  from updates_loop_reachable [OF wf this]
  have "set ?vs = own_version cur
      \<union> offered p ({x. (update_edge sv p ch)\<^sup>*\<^sup>* (b_name cur) x} - {b_name cur})" .
  moreover have "distinct ?vs" by (rule updates_loop_distinct) simp
  moreover have "version_updates sv iter p req = Inr (sort_versions sv (iter ?vs))"
    using ch cur mode by (simp add: version_updates_def)
  ultimately show ?thesis
    using it by (simp add: sort_versions_def sort_facts is_iter_set is_iter_distinct)
qed

definition ex_request :: update_request where
  "ex_request = \<lparr>ur_current_version = ''1.0.0'', ur_current_bundle = [], ur_channel = [],
     ur_mode = ''reachable''\<rparr>"

lemma ex_current: "current_bundle ex_package ex_stable [] ''1.0.0'' = Inr (snd (ex_bundle ''v1'' ''1.0.0'' False))"
  by (simp add: current_bundle_def ex_defs)

lemma ex_version_updates:
  "version_updates std_semver rev ex_package ex_request = Inr [''1.0.0'', ''1.2.0'', ''1.10.0'']"
  by code_simp

text \<open>Every other mode.\<close>

lemma version_updates_direct:
  assumes wf: "wf_package p" and it: "is_iter iter"
    and ch: "map_of (p_channels p) (if ur_channel req = [] then p_default_channel p else ur_channel req) = Some ch"
    and cur: "current_bundle p ch (ur_current_bundle req) (ur_current_version req) = Inr cur"
    and mode: "ur_mode req \<noteq> ''reachable''"
  shows "\<exists>vs. version_updates sv iter p req = Inr vs \<and> distinct vs
    \<and> set vs = own_version cur
        \<union> offered p ({x. update_edge sv p ch (b_name cur) x} - {b_name cur})"
proof -
  let ?own = "if b_version cur \<noteq> [] then [b_version cur] else []"
  let ?vs = "updates_loop sv p ch False [b_name cur] [b_name cur] ?own"
  obtain seen' queue' versions' where
    v: "visit_successors False (succs sv p ch (b_name cur)) [b_name cur] [] ?own = (seen', queue', versions')"
    by (metis prod_cases3)
  have "set versions' = own_version cur
      \<union> offered p ({x. update_edge sv p ch (b_name cur) x} - {b_name cur})"
    using visit_versions [OF v succs_stored [OF wf]] by (simp add: update_edge_def)
  moreover have "?vs = versions'" using v by simp
  moreover have "distinct ?vs" by (rule updates_loop_distinct) simp
  moreover have "version_updates sv iter p req = Inr (sort_versions sv (iter ?vs))"
    using ch cur mode by (simp add: version_updates_def)
  ultimately show ?thesis
    using it by (simp add: sort_versions_def sort_facts is_iter_set is_iter_distinct)
qed

text \<open>
  C2: What \<open>VersionUpdates\<close> offers. For an installed bundle of the channel it ends and returns, without
  duplicates, exactly the installed version together with the non-empty versions of the
  non-deprecated bundles that declared edges (replaces, skips, skipRange) of the requested channel
  lead to from it: over any path in mode \<open>reachable\<close>, over one edge in every other mode. Nothing that
  is not connected, and nothing missing, whatever order the runtime ranges over the version map.
\<close>

theorem version_updates_offers:
  assumes "wf_package p" and "is_iter iter"
    and "map_of (p_channels p) (if ur_channel req = [] then p_default_channel p else ur_channel req) = Some ch"
    and "current_bundle p ch (ur_current_bundle req) (ur_current_version req) = Inr cur"
  shows "\<exists>vs. version_updates sv iter p req = Inr vs \<and> distinct vs
    \<and> set vs = own_version cur
        \<union> offered p ((if ur_mode req = ''reachable'' then {x. (update_edge sv p ch)\<^sup>*\<^sup>* (b_name cur) x}
                      else {x. update_edge sv p ch (b_name cur) x}) - {b_name cur})"
proof (cases "ur_mode req = ''reachable''")
  case True
  then show ?thesis unfolding if_P [OF True] by (rule version_updates_reachable [OF assms])
next
  case False
  then show ?thesis unfolding if_not_P [OF False] by (rule version_updates_direct [OF assms])
qed

theorem version_updates_offers_witness:
  "(\<exists>vs. version_updates std_semver rev ex_package ex_request = Inr vs \<and> distinct vs
      \<and> set vs = {''1.0.0''} \<union> offered ex_package
          ({x. (update_edge std_semver ex_package ex_stable)\<^sup>*\<^sup>* ''v1'' x} - {''v1''}))
   \<and> (\<exists>vs. version_updates std_semver rev ex_package (ex_request\<lparr>ur_mode := ''direct''\<rparr>) = Inr vs \<and> distinct vs
      \<and> set vs = {''1.0.0''} \<union> offered ex_package
          ({x. update_edge std_semver ex_package ex_stable ''v1'' x} - {''v1''}))"
proof -
  let ?cur = "snd (ex_bundle ''v1'' ''1.0.0'' False)" and ?direct = "ex_request\<lparr>ur_mode := ''direct''\<rparr>"
  have m: "map_of (p_channels ex_package) (if ur_channel r = [] then p_default_channel ex_package else ur_channel r) = Some ex_stable"
    if "r \<in> {ex_request, ?direct}" for r
    using that by (auto simp: ex_request_def ex_defs)
  have c: "current_bundle ex_package ex_stable (ur_current_bundle r) (ur_current_version r) = Inr ?cur"
    if "r \<in> {ex_request, ?direct}" for r
    using that ex_current by (auto simp: ex_request_def)
  have e: "own_version ?cur = {''1.0.0''}" "b_name ?cur = ''v1''" "ur_mode ex_request = ''reachable''" "ur_mode ?direct \<noteq> ''reachable''"
    by (simp_all add: ex_request_def ex_bundle_def)
  show ?thesis
    using version_updates_offers [OF wf_ex_package is_iter_rev m c, of ex_request std_semver]
      version_updates_offers [OF wf_ex_package is_iter_rev m c, of ?direct std_semver] e by simp
qed

text \<open>Every answer is sorted.\<close>

lemma version_updates_sorted:
  assumes "semver_laws sv" and res: "version_updates sv iter p req = Inr vs"
  shows "sorted_by (version_less sv) vs"
proof -
  have nil: "sorted_by (version_less sv) []" by (simp add: sorted_by_def)
  show ?thesis
    using res semver_laws.sort_versions_sorted [OF assms(1)] nil
    by (auto simp: version_updates_def Let_def split: option.splits sum.splits if_splits)
qed

text \<open>
  C4: The answer does not depend on the order in which the runtime ranges over the version
  map, as long as no two of the versions found are different strings of equal precedence.
\<close>

theorem version_updates_deterministic:
  assumes sv: "semver_laws sv" and i: "is_iter i" and j: "is_iter j"
    and res: "version_updates sv i p req = Inr vs"
    and ties: "\<And>x y. x \<in> set vs \<Longrightarrow> y \<in> set vs \<Longrightarrow> \<not> version_less sv x y \<Longrightarrow> \<not> version_less sv y x \<Longrightarrow> x = y"
  shows "version_updates sv j p req = Inr vs"
proof -
  have same: "sort_versions sv (j xs) = sort_versions sv (i xs)" if "vs = sort_versions sv (i xs)" for xs
    unfolding sort_versions_def
  proof (rule sort_slice_unique [OF semver_laws.version_less_weak [OF sv]])
    show "mset (j xs) = mset (i xs)" using i j by (simp add: is_iter_def)
    fix x y
    assume "x \<in> set (j xs)" "y \<in> set (j xs)" "\<not> version_less sv x y" "\<not> version_less sv y x"
    then show "x = y"
      using ties that i j by (simp add: sort_versions_def sort_facts is_iter_set)
  qed
  then show ?thesis
    using res by (auto simp: version_updates_def Let_def split: option.splits sum.splits if_splits)
qed

theorem version_updates_deterministic_witness:
  "version_updates std_semver (\<lambda>ks. ks) ex_package ex_request = Inr [''1.0.0'', ''1.2.0'', ''1.10.0'']"
proof (rule version_updates_deterministic [OF std.semver_laws_axioms is_iter_rev is_iter_id ex_version_updates])
  fix x y
  assume "x \<in> set [''1.0.0'', ''1.2.0'', ''1.10.0'']" "y \<in> set [''1.0.0'', ''1.2.0'', ''1.10.0'']"
    and n: "\<not> version_less std_semver x y" "\<not> version_less std_semver y x"
  moreover have "version_less std_semver ''1.0.0'' ''1.2.0''" "version_less std_semver ''1.0.0'' ''1.10.0''"
    "version_less std_semver ''1.2.0'' ''1.10.0''" by code_simp+
  ultimately show "x = y" by auto
qed

text \<open>
  The side condition is needed: two versions that differ only in build metadata tie, and the
  answer then follows the order in which the map is ranged over.
\<close>

definition ex_tie_package :: package where
  "ex_tie_package = \<lparr>p_name = ''t'', p_default_channel = ''s'',
     p_channels = [ex_channel ''s'' [ex_entry ''a'' [] [] [], ex_entry ''b'' ''a'' [] [], ex_entry ''c'' ''a'' [] []]],
     p_bundles = [ex_bundle ''a'' ''1.0.0'' False, ex_bundle ''b'' ''1.1.0+x'' False,
       ex_bundle ''c'' ''1.1.0+y'' False]\<rparr>"

lemma version_updates_tie_order:
  "version_updates std_semver (\<lambda>ks. ks) ex_tie_package ex_request = Inr [''1.0.0'', ''1.1.0+x'', ''1.1.0+y'']
   \<and> version_updates std_semver rev ex_tie_package ex_request = Inr [''1.0.0'', ''1.1.0+y'', ''1.1.0+x'']"
  by code_simp

lemma version_updates_errors:
  "version_updates sv iter p req = Inl e \<longleftrightarrow>
     (let channel = (if ur_channel req = [] then p_default_channel p else ur_channel req) in
      (map_of (p_channels p) channel = None \<and> e = UnknownChannel channel)
      \<or> (\<exists>ch. map_of (p_channels p) channel = Some ch \<and> \<not> no_update_path e
            \<and> current_bundle p ch (ur_current_bundle req) (ur_current_version req) = Inl e))"
  by (auto simp: version_updates_def Let_def split: option.splits sum.splits if_splits)

lemma version_updates_no_path:
  "map_of (p_channels p) (if ur_channel req = [] then p_default_channel p else ur_channel req) = Some ch \<Longrightarrow>
     current_bundle p ch (ur_current_bundle req) (ur_current_version req) = Inl e \<Longrightarrow>
     no_update_path e \<Longrightarrow> version_updates sv iter p req = Inr []"
  by (auto simp: version_updates_def Let_def split: option.splits sum.splits if_splits)

text \<open>
  C3: The outcome of every query. \<open>VersionUpdates\<close> fails exactly when the channel is unknown or
  \<open>currentBundle\<close> fails with an error other than \<open>ErrNoUpdatePath\<close>, and then returns that error; an
  installed release that is not in the channel gives an empty list. Every list is in ascending
  precedence order, valid semantic versions before invalid ones and the invalid ones in byte order:
  no element comes before one that \<open>sortVersions\<close> puts first.
\<close>

theorem version_updates_outcome:
  assumes sv: "semver_laws sv"
  shows "let channel = (if ur_channel req = [] then p_default_channel p else ur_channel req);
            failure = (case map_of (p_channels p) channel of
                None \<Rightarrow> Some (UnknownChannel channel)
              | Some ch \<Rightarrow>
                  (case current_bundle p ch (ur_current_bundle req) (ur_current_version req) of
                     Inl e \<Rightarrow> Some e | Inr cur \<Rightarrow> None))
     in case version_updates sv iter p req of
          Inl e \<Rightarrow> failure = Some e \<and> \<not> no_update_path e
        | Inr vs \<Rightarrow> sorted_by (version_less sv) vs \<and> (failure = None \<or> vs = [] \<and> no_update_path (the failure))"
proof -
  define channel where "channel = (if ur_channel req = [] then p_default_channel p else ur_channel req)"
  show ?thesis
    unfolding channel_def [symmetric] Let_def
    using version_updates_errors [of sv iter p req, unfolded channel_def [symmetric] Let_def]
      version_updates_sorted [OF sv, of iter p req]
    by (auto simp: version_updates_def Let_def channel_def [symmetric] split: option.splits sum.splits)
qed

theorem version_updates_outcome_witness:
  "(case version_updates std_semver rev ex_package ex_request of Inl e \<Rightarrow> False
     | Inr vs \<Rightarrow> vs = [''1.0.0'', ''1.2.0'', ''1.10.0''] \<and> sorted_by (version_less std_semver) vs)"
  using version_updates_outcome [OF std.semver_laws_axioms, of ex_request ex_package rev] ex_version_updates
  by (simp add: Let_def)

end
