(* ===== verification/Catalog_Channels.thy ===== *)
theory Catalog_Channels
  imports Catalog_Versions
begin

text \<open>
  The channel half of \<^verbatim>\<open>pkg/catalog/resolve.go\<close>: the order of channel names by a version
  suffix, the search for the upgrade heads of a target channel (which marks a name as seen
  when it is taken from the queue), \<open>ChannelReleases\<close>, \<open>ChannelUpdates\<close>,
  \<open>ChannelHeads\<close> and the selection \<open>next\<close>.
\<close>

section \<open>Channel names\<close>

definition wildcard_part :: "string \<Rightarrow> string" where
  "wildcard_part part = (if part = ''x'' \<or> part = ''*'' then ''0'' else part)"

definition parse_channel_version :: "'v semver \<Rightarrow> string \<Rightarrow> 'v option" where
  "parse_channel_version sv value =
     (case sv_parse sv value of
        Some v \<Rightarrow> Some v
      | None \<Rightarrow>
          (let parts = split_on (CHR ''.'') (to_lower value) in
           if length parts = 0 \<or> length parts > 3 then None
           else let parts = map wildcard_part parts;
                    parts = parts @ replicate (3 - length parts) ''0''
                in sv_parse sv (join ''.'' parts)))"

text \<open>
  The loop of \<open>channelSuffix\<close> runs from the end to the last hyphen and leaves there, with
  the suffix when it parses and without when it does not.
\<close>

definition channel_suffix :: "'v semver \<Rightarrow> string \<Rightarrow> (string \<times> 'v) option" where
  "channel_suffix sv s =
     (case cut_last (CHR ''-'') s of
        None \<Rightarrow> None
      | Some (prefix, suffix) \<Rightarrow>
          (case parse_channel_version sv suffix of None \<Rightarrow> None | Some v \<Rightarrow> Some (prefix, v)))"

definition channel_less :: "'v semver \<Rightarrow> string \<Rightarrow> string \<Rightarrow> bool" where
  "channel_less sv a b =
     (case (channel_suffix sv a, channel_suffix sv b) of
        (Some (pa, va), Some (pb, vb)) \<Rightarrow> if pa = pb then sv_less sv va vb else a < b
      | _ \<Rightarrow> a < b)"

definition same_family :: "'v semver \<Rightarrow> string \<Rightarrow> string \<Rightarrow> bool" where
  "same_family sv prefix a = (case channel_suffix sv a of None \<Rightarrow> False | Some (pa, va) \<Rightarrow> pa = prefix)"

definition channel_candidate_less :: "'v semver \<Rightarrow> string \<Rightarrow> string \<Rightarrow> string \<Rightarrow> bool" where
  "channel_candidate_less sv current a b =
     (case channel_suffix sv current of
        None \<Rightarrow> channel_less sv a b
      | Some (prefix, _) \<Rightarrow>
          if same_family sv prefix a \<noteq> same_family sv prefix b then same_family sv prefix a
          else channel_less sv a b)"

section \<open>Upgrade heads\<close>

definition bundle_less :: "'v semver \<Rightarrow> olm_bundle \<Rightarrow> olm_bundle \<Rightarrow> bool" where
  "bundle_less sv a b =
     (case (sv_parse sv (b_version a), sv_parse sv (b_version b)) of
        (Some av, Some bv) \<Rightarrow> if \<not> sv_equal sv av bv then sv_less sv av bv else b_name a < b_name b
      | (Some av, None) \<Rightarrow> False
      | (None, Some bv) \<Rightarrow> True
      | (None, None) \<Rightarrow> b_name a < b_name b)"

context semver_laws
begin

lemma bundle_less_lex:
  "bundle_less sv =
     lex_less (\<lambda>x y. opt_less (sv_less sv) (sv_parse sv (b_version x)) (sv_parse sv (b_version y)))
       (\<lambda>x y. b_name x < b_name y)"
  by (auto simp: fun_eq_iff bundle_less_def lex_less_def opt_less_def equal_iff
      split: option.splits dest: less.asym)

lemma bundle_less_weak: "weak_order (bundle_less sv)"
  unfolding bundle_less_lex
  by (intro weak_order_lex weak_order_str_key
      weak_order_key [where f = "\<lambda>x. sv_parse sv (b_version x)"] weak_order_opt less_order)

lemma bundle_less_total:
  "\<not> bundle_less sv x y \<Longrightarrow> \<not> bundle_less sv y x \<Longrightarrow> b_name x = b_name y"
  by (auto simp: bundle_less_def equal_iff split: option.splits if_splits)

text \<open>Within one channel family the comparator is the version order.\<close>

lemma channel_less_family:
  "channel_suffix sv a = Some (f, va) \<Longrightarrow> channel_suffix sv b = Some (f, vb) \<Longrightarrow>
     channel_less sv a b = sv_less sv va vb"
  by (simp add: channel_less_def)

end

text \<open>The condition under which an entry of the target channel accepts the installed bundle.\<close>

definition accepts_installed :: "'v semver \<Rightarrow> olm_bundle \<Rightarrow> entry \<Rightarrow> bool" where
  "accepts_installed sv installed e \<longleftrightarrow>
     e_name e = b_name installed \<or> e_replaces e = b_name installed
     \<or> contains (e_skips e) (b_name installed)
     \<or> range_matches sv (e_skip_range e) (b_version installed)"

text \<open>
  The loop of \<open>channelUpgradeHeads\<close>. It ends although the queue may grow by names seen
  before: a name taken from the queue for the first time leaves the set of unseen names.
\<close>

definition pending_names :: "package \<Rightarrow> string list \<Rightarrow> string list \<Rightarrow> string set" where
  "pending_names p seen queue = (bundle_names p \<union> set queue) - set seen"

function heads_loop ::
  "'v semver \<Rightarrow> package \<Rightarrow> channel \<Rightarrow> string list \<Rightarrow> string list \<Rightarrow> olm_bundle list \<Rightarrow> olm_bundle list" where
  "heads_loop sv p target seen [] heads = heads"
| "heads_loop sv p target seen (name # queue) heads =
     (if name \<in> set seen then heads_loop sv p target seen queue heads
      else
        let nxt = succs sv p target name in
        if nxt = [] then
          heads_loop sv p target (add_key name seen) queue
            (case map_of (p_bundles p) name of
               Some b \<Rightarrow> if \<not> b_deprecated b then heads @ [b] else heads
             | None \<Rightarrow> heads)
        else heads_loop sv p target (add_key name seen) (queue @ map b_name nxt) heads)"
  by pat_completeness auto

lemma pending_less:
  assumes "name \<notin> set seen" and "set added \<subseteq> bundle_names p"
  shows "card (pending_names p (add_key name seen) (queue @ added)) < card (pending_names p seen (name # queue))"
  by (rule psubset_card_mono) (use assms in \<open>auto simp: pending_names_def\<close>)

lemma pending_le:
  assumes "name \<in> set seen"
  shows "card (pending_names p seen queue) = card (pending_names p seen (name # queue))"
  by (rule arg_cong [where f = card]) (use assms in \<open>auto simp: pending_names_def\<close>)

termination heads_loop
proof (relation "measures [\<lambda>(sv, p, t, seen, queue, hs). card (pending_names p seen queue),
        \<lambda>(sv, p, t, seen, queue, hs). length queue]", goal_cases)
  case 1
  show ?case by simp
next
  case (2 sv p target seen name queue heads)
  then show ?case using pending_le [of name seen p queue] by simp
next
  case (3 sv p target seen name queue heads)
  then show ?case using pending_less [of name seen "[]" p queue] by simp
next
  case (4 sv p target seen name queue heads nxt)
  then have "set (map b_name nxt) \<subseteq> bundle_names p"
    using succs_names [of sv p target name] by simp
  then show ?case using 4 pending_less [of name seen "map b_name nxt" p queue] by simp
qed

definition channel_upgrade_heads :: "'v semver \<Rightarrow> package \<Rightarrow> channel \<Rightarrow> olm_bundle \<Rightarrow> olm_bundle list" where
  "channel_upgrade_heads sv p target installed =
     (let queue = map e_name (filter (accepts_installed sv installed) (ch_entries target))
      in sort_slice (bundle_less sv) (heads_loop sv p target [] queue []))"

section \<open>Channel releases\<close>

text \<open>\<open>nextChannelRelease\<close> returns a slice of at most one element.\<close>

fun find_next_in_family :: "'v semver \<Rightarrow> string \<Rightarrow> 'v \<Rightarrow> channel_release list \<Rightarrow> channel_release option" where
  "find_next_in_family sv prefix cv [] = None"
| "find_next_in_family sv prefix cv (c # cs) =
     (case channel_suffix sv (cl_channel c) of
        Some (cp, v) \<Rightarrow> if cp = prefix \<and> sv_less sv cv v then Some c else find_next_in_family sv prefix cv cs
      | None \<Rightarrow> find_next_in_family sv prefix cv cs)"

fun first_different :: "string \<Rightarrow> channel_release list \<Rightarrow> channel_release list" where
  "first_different current [] = []"
| "first_different current (c # cs) = (if cl_channel c \<noteq> current then [c] else first_different current cs)"

definition next_channel_release :: "'v semver \<Rightarrow> string \<Rightarrow> channel_release list \<Rightarrow> channel_release list" where
  "next_channel_release sv current candidates =
     (case channel_suffix sv current of
        Some (prefix, cv) \<Rightarrow>
          (case find_next_in_family sv prefix cv candidates of
             Some c \<Rightarrow> [c]
           | None \<Rightarrow> first_different current candidates)
      | None \<Rightarrow> first_different current candidates)"

text \<open>The body of the range over the channels, in the order \<open>iter\<close> gives their names.\<close>

fun channel_candidates ::
  "'v semver \<Rightarrow> package \<Rightarrow> string \<Rightarrow> olm_bundle \<Rightarrow> string list \<Rightarrow> channel_release list" where
  "channel_candidates sv p current installed [] = []"
| "channel_candidates sv p current installed (name # names) =
     (case map_of (p_channels p) name of
        None \<Rightarrow> channel_candidates sv p current installed names
      | Some target \<Rightarrow>
          if name = current \<or> ch_deprecated target then channel_candidates sv p current installed names
          else
            (let heads = channel_upgrade_heads sv p target installed in
             if length heads = 0 then channel_candidates sv p current installed names
             else \<lparr>cl_channel = name, cl_bundle = b_name (last heads)\<rparr>
                    # channel_candidates sv p current installed names))"

definition channel_releases ::
  "'v semver \<Rightarrow> (string list \<Rightarrow> string list) \<Rightarrow> package \<Rightarrow> channel_update_request
     \<Rightarrow> resolve_error + channel_release list" where
  "channel_releases sv iter p req =
     (let current = cr_current_channel req in
      case map_of (p_channels p) current of
        None \<Rightarrow> Inl (UnknownCurrentChannel current)
      | Some cc \<Rightarrow>
          (case current_bundle p cc (cr_current_bundle req) (cr_current_version req) of
             Inl e \<Rightarrow> if no_update_path e then Inr [] else Inl e
           | Inr installed \<Rightarrow>
               (let first = \<lparr>cl_channel = current, cl_bundle = b_name installed\<rparr>;
                    rest = sort_slice (\<lambda>x y. channel_candidate_less sv current (cl_channel x) (cl_channel y))
                             (channel_candidates sv p current installed (iter (map_keys (p_channels p))))
                in Inr (first # (if cr_selection req = ''next'' \<and> length (first # rest) > 1
                                 then next_channel_release sv current rest else rest)))))"

definition channel_updates ::
  "'v semver \<Rightarrow> (string list \<Rightarrow> string list) \<Rightarrow> package \<Rightarrow> channel_update_request
     \<Rightarrow> resolve_error + string list" where
  "channel_updates sv iter p req =
     (case channel_releases sv iter p req of Inl e \<Rightarrow> Inl e | Inr releases \<Rightarrow> Inr (map cl_channel releases))"

text \<open>\<open>ChannelHeads\<close>: the terminal bundles of a channel; nil for an unknown channel.\<close>

fun terminal_bundles :: "'v semver \<Rightarrow> package \<Rightarrow> channel \<Rightarrow> entry list \<Rightarrow> olm_bundle list" where
  "terminal_bundles sv p ch [] = []"
| "terminal_bundles sv p ch (e # es) =
     (case map_of (p_bundles p) (e_name e) of
        Some b \<Rightarrow> if length (successors sv p ch (e_name e) (b_version b)) = 0
                 then b # terminal_bundles sv p ch es else terminal_bundles sv p ch es
      | None \<Rightarrow> terminal_bundles sv p ch es)"

definition channel_heads :: "'v semver \<Rightarrow> package \<Rightarrow> string \<Rightarrow> olm_bundle list" where
  "channel_heads sv p name =
     (case map_of (p_channels p) name of
        None \<Rightarrow> []
      | Some ch \<Rightarrow> sort_slice (\<lambda>x y. b_name x < b_name y) (terminal_bundles sv p ch (ch_entries ch)))"

section \<open>What the search for heads finds\<close>

text \<open>The stored, non-deprecated bundles of a set of names that no edge leaves.\<close>

definition terminals :: "'v semver \<Rightarrow> package \<Rightarrow> channel \<Rightarrow> string set \<Rightarrow> olm_bundle set" where
  "terminals sv p t names =
     {b. \<exists>x \<in> names. succs sv p t x = [] \<and> map_of (p_bundles p) x = Some b \<and> \<not> b_deprecated b}"

lemma terminals_insert:
  "terminals sv p t (insert x S) =
     (if succs sv p t x = [] then
        (case map_of (p_bundles p) x of Some b \<Rightarrow> if b_deprecated b then {} else {b} | None \<Rightarrow> {})
      else {}) \<union> terminals sv p t S"
  by (auto simp: terminals_def split: option.splits)

definition heads_inv ::
  "'v semver \<Rightarrow> package \<Rightarrow> channel \<Rightarrow> string set \<Rightarrow> string list \<Rightarrow> string list \<Rightarrow> olm_bundle list \<Rightarrow> bool" where
  "heads_inv sv p t roots seen queue heads \<longleftrightarrow>
     roots \<subseteq> set seen \<union> set queue
     \<and> (\<forall>x \<in> set seen \<union> set queue. \<exists>r \<in> roots. (update_edge sv p t)\<^sup>*\<^sup>* r x)
     \<and> (\<forall>x \<in> set seen. \<forall>b. update_edge sv p t x b \<longrightarrow> b \<in> set seen \<union> set queue)
     \<and> set heads = terminals sv p t (set seen) \<and> distinct heads"

lemma heads_inv_skip:
  "heads_inv sv p t roots seen (name # queue) heads \<Longrightarrow> name \<in> set seen \<Longrightarrow>
     heads_inv sv p t roots seen queue heads"
  unfolding heads_inv_def by (simp add: insert_absorb)

lemma heads_inv_leaf:
  assumes inv: "heads_inv sv p t roots seen (name # queue) heads" and wf: "wf_package p"
    and new: "name \<notin> set seen" and leaf: "succs sv p t name = []"
  shows "heads_inv sv p t roots (add_key name seen) queue
     (case map_of (p_bundles p) name of
        Some b \<Rightarrow> if \<not> b_deprecated b then heads @ [b] else heads | None \<Rightarrow> heads)"
proof -
  have fresh: "b \<notin> set heads" if "map_of (p_bundles p) name = Some b" for b
    using inv new wf_bundle_name [OF wf that] wf_bundle_name [OF wf]
    by (auto simp: heads_inv_def terminals_def)
  show ?thesis
    using inv leaf fresh
    by (auto simp: heads_inv_def terminals_insert update_edge_def split: option.splits)
qed

lemma heads_inv_node:
  assumes inv: "heads_inv sv p t roots seen (name # queue) heads"
    and node: "succs sv p t name \<noteq> []"
  shows "heads_inv sv p t roots (add_key name seen) (queue @ map b_name (succs sv p t name)) heads"
proof -
  obtain r where r: "r \<in> roots" "(update_edge sv p t)\<^sup>*\<^sup>* r name"
    using inv by (auto simp: heads_inv_def)
  have "\<exists>r \<in> roots. (update_edge sv p t)\<^sup>*\<^sup>* r x" if "x \<in> b_name ` set (succs sv p t name)" for x
    using that r by (blast intro: rtranclp.rtrancl_into_rtrancl [of _ _ name] update_edge_def [THEN iffD2])
  then have reach: "\<forall>x \<in> set (add_key name seen) \<union> set (queue @ map b_name (succs sv p t name)).
      \<exists>r \<in> roots. (update_edge sv p t)\<^sup>*\<^sup>* r x"
    using inv unfolding heads_inv_def by auto
  have closed: "\<forall>x \<in> set (add_key name seen). \<forall>b. update_edge sv p t x b \<longrightarrow>
      b \<in> set (add_key name seen) \<union> set (queue @ map b_name (succs sv p t name))"
  proof (intro ballI allI impI)
    fix x b assume x: "x \<in> set (add_key name seen)" and e: "update_edge sv p t x b"
    show "b \<in> set (add_key name seen) \<union> set (queue @ map b_name (succs sv p t name))"
    proof (cases "x = name")
      case True
      then show ?thesis using e by (simp add: update_edge_def)
    next
      case False
      then have "b \<in> set seen \<union> set (name # queue)"
        using inv x e unfolding heads_inv_def by simp
      then show ?thesis by auto
    qed
  qed
  show ?thesis
    using inv node reach closed unfolding heads_inv_def
    by (intro conjI) (auto simp: terminals_insert)
qed

lemma heads_inv_done:
  assumes "heads_inv sv p t roots seen [] heads"
  shows "set heads = terminals sv p t {x. \<exists>r \<in> roots. (update_edge sv p t)\<^sup>*\<^sup>* r x} \<and> distinct heads"
proof -
  have "x \<in> set seen" if r: "r \<in> roots" and x: "(update_edge sv p t)\<^sup>*\<^sup>* r x" for r x
  proof (rule pkg_graph.closed_reach [of r "set seen" sv "(p, t)"])
    show "r \<in> set seen" using assms r by (auto simp: heads_inv_def)
    show "(\<lambda>a b. b \<in> b_name ` set ((case (p, t) of (p, ch) \<Rightarrow> succs sv p ch) a))\<^sup>*\<^sup>* r x"
      using x by (simp add: update_edge_def [abs_def])
    fix y b assume "y \<in> set seen" "b \<in> set ((case (p, t) of (p, ch) \<Rightarrow> succs sv p ch) y)"
    then show "b_name b \<in> set seen"
      using assms unfolding heads_inv_def by (auto simp: update_edge_def)
  qed
  moreover have "\<exists>r \<in> roots. (update_edge sv p t)\<^sup>*\<^sup>* r x" if "x \<in> set seen" for x
    using assms that unfolding heads_inv_def by auto
  ultimately have "{x. \<exists>r \<in> roots. (update_edge sv p t)\<^sup>*\<^sup>* r x} = set seen" by blast
  then show ?thesis using assms by (simp add: heads_inv_def)
qed

lemma heads_loop_spec:
  assumes wf: "wf_package p"
  shows "heads_inv sv p t roots seen queue heads \<Longrightarrow>
     set (heads_loop sv p t seen queue heads)
       = terminals sv p t {x. \<exists>r \<in> roots. (update_edge sv p t)\<^sup>*\<^sup>* r x}
     \<and> distinct (heads_loop sv p t seen queue heads)"
  using wf
proof (induction sv p t seen queue heads rule: heads_loop.induct)
  case (1 sv p t seen heads)
  then show ?case using heads_inv_done by simp
next
  case (2 sv p t seen name queue heads)
  show ?case
  proof (cases "name \<in> set seen")
    case True
    then show ?thesis
      using "2.IH"(1) [OF True heads_inv_skip [OF "2.prems"(1) True] "2.prems"(2)] by simp
  next
    case new: False
    show ?thesis
    proof (cases "succs sv p t name = []")
      case True
      from "2.IH"(2) [OF new refl True heads_inv_leaf [OF "2.prems" new True] "2.prems"(2)]
      show ?thesis using new True by (simp del: add_key_def)
    next
      case False
      from "2.IH"(3) [OF new refl False heads_inv_node [OF "2.prems"(1) False] "2.prems"(2)]
      show ?thesis using new False by simp
    qed
  qed
qed

text \<open>
  The specification: the non-deprecated terminal bundles that are reached, in the graph of the
  target channel, from an entry that accepts the installed bundle.
\<close>

definition upgrade_bundles :: "'v semver \<Rightarrow> package \<Rightarrow> channel \<Rightarrow> olm_bundle \<Rightarrow> olm_bundle set" where
  "upgrade_bundles sv p t installed =
     terminals sv p t {x. \<exists>e \<in> set (ch_entries t). accepts_installed sv installed e
                           \<and> (update_edge sv p t)\<^sup>*\<^sup>* (e_name e) x}"

lemma channel_upgrade_heads_set:
  assumes "wf_package p"
  shows "set (channel_upgrade_heads sv p t installed) = upgrade_bundles sv p t installed
     \<and> distinct (channel_upgrade_heads sv p t installed)"
proof -
  let ?queue = "map e_name (filter (accepts_installed sv installed) (ch_entries t))"
  have inv: "heads_inv sv p t (set ?queue) [] ?queue []"
    by (auto simp: heads_inv_def terminals_def)
  have start: "{x. \<exists>r \<in> set ?queue. (update_edge sv p t)\<^sup>*\<^sup>* r x}
      = {x. \<exists>e \<in> set (ch_entries t). accepts_installed sv installed e
                           \<and> (update_edge sv p t)\<^sup>*\<^sup>* (e_name e) x}" by auto
  have "set (heads_loop sv p t [] ?queue []) = upgrade_bundles sv p t installed
      \<and> distinct (heads_loop sv p t [] ?queue [])"
    using heads_loop_spec [OF assms inv] unfolding upgrade_bundles_def start .
  then show ?thesis by (simp add: channel_upgrade_heads_def sort_facts)
qed

lemma upgrade_bundles_stored:
  assumes wf: "wf_package p" and b: "b \<in> upgrade_bundles sv p t installed"
  shows "map_of (p_bundles p) (b_name b) = Some b" and "succs sv p t (b_name b) = []"
    and "\<exists>e \<in> set (ch_entries t). e_name e = b_name b"
proof -
  from b obtain e x where e: "e \<in> set (ch_entries t)" "(update_edge sv p t)\<^sup>*\<^sup>* (e_name e) x"
    and x: "succs sv p t x = []" "map_of (p_bundles p) x = Some b"
    by (auto simp: upgrade_bundles_def terminals_def)
  have n: "b_name b = x" using wf_bundle_name [OF wf x(2)] .
  show "map_of (p_bundles p) (b_name b) = Some b" and "succs sv p t (b_name b) = []"
    using x n by auto
  from e(2) have "\<exists>e \<in> set (ch_entries t). e_name e = x"
  proof (cases rule: rtranclp.cases)
    case rtrancl_refl
    then show ?thesis using e(1) by blast
  next
    case (rtrancl_into_rtrancl y)
    then show ?thesis using update_edge_iff [OF wf, of sv t y x] by blast
  qed
  then show "\<exists>e \<in> set (ch_entries t). e_name e = b_name b" using n by simp
qed

section \<open>The candidates\<close>

text \<open>
  What the range over the channels collects: one release for every other channel that is not
  deprecated and has an upgrade head, with the greatest head under \<open>bundleLess\<close>.
\<close>

definition channel_candidate ::
  "'v semver \<Rightarrow> package \<Rightarrow> string \<Rightarrow> olm_bundle \<Rightarrow> channel_release \<Rightarrow> bool" where
  "channel_candidate sv p current installed r \<longleftrightarrow>
     cl_channel r \<noteq> current \<and>
     (\<exists>t b. map_of (p_channels p) (cl_channel r) = Some t \<and> \<not> ch_deprecated t
        \<and> b \<in> upgrade_bundles sv p t installed \<and> cl_bundle r = b_name b
        \<and> (\<forall>b' \<in> upgrade_bundles sv p t installed. \<not> bundle_less sv b b'))"

lemma set_channel_candidates:
  "set (channel_candidates sv p current installed names) =
     {\<lparr>cl_channel = n, cl_bundle = b_name (last (channel_upgrade_heads sv p t installed))\<rparr> |n t.
        n \<in> set names \<and> map_of (p_channels p) n = Some t \<and> n \<noteq> current \<and> \<not> ch_deprecated t
        \<and> channel_upgrade_heads sv p t installed \<noteq> []}"
  by (induction names) (auto simp: Let_def split: option.splits)

lemma channels_of_candidates:
  "cl_channel ` set (channel_candidates sv p current installed names) \<subseteq> set names"
  by (auto simp: set_channel_candidates)

lemma distinct_channel_candidates:
  "distinct names \<Longrightarrow> distinct (map cl_channel (channel_candidates sv p current installed names))"
proof (induction names)
  case (Cons n names)
  then show ?case
    using channels_of_candidates [of sv p current installed names]
    by (auto simp: Let_def split: option.splits)
qed simp

lemma upgrade_head_iff:
  assumes wf: "wf_package p" and sv: "semver_laws sv"
  shows "channel_upgrade_heads sv p t installed \<noteq> [] \<and> x = b_name (last (channel_upgrade_heads sv p t installed))
    \<longleftrightarrow> (\<exists>b. b \<in> upgrade_bundles sv p t installed \<and> x = b_name b
        \<and> (\<forall>b' \<in> upgrade_bundles sv p t installed. \<not> bundle_less sv b b'))"
    (is "?L \<longleftrightarrow> ?R")
proof -
  let ?hs = "channel_upgrade_heads sv p t installed"
  let ?U = "upgrade_bundles sv p t installed"
  have set: "set ?hs = ?U" using channel_upgrade_heads_set [OF wf] by blast
  have max: "\<not> bundle_less sv (last ?hs) b'" if "b' \<in> ?U" for b'
    using that set slice.srt_last_max [OF semver_laws.bundle_less_weak [OF sv]]
    unfolding channel_upgrade_heads_def Let_def by (simp add: sort_facts)
  show ?thesis
  proof
    assume ?L
    then show ?R using max set last_in_set [of ?hs] by blast
  next
    assume ?R
    then obtain b where b: "b \<in> ?U" "x = b_name b" "\<forall>b' \<in> ?U. \<not> bundle_less sv b b'" by blast
    then have ne: "?hs \<noteq> []" using set by auto
    then have "last ?hs \<in> ?U" using set by auto
    then have "b_name b = b_name (last ?hs)"
      using b max semver_laws.bundle_less_total [OF sv] by blast
    then show ?L using ne b(2) by simp
  qed
qed

lemma channel_candidates_iff:
  assumes wf: "wf_package p" and sv: "semver_laws sv" and it: "is_iter iter"
  shows "r \<in> set (channel_candidates sv p current installed (iter (map_keys (p_channels p))))
    \<longleftrightarrow> channel_candidate sv p current installed r"
proof -
  have known: "map_of (p_channels p) n = Some t \<Longrightarrow> n \<in> set (iter (map_keys (p_channels p)))" for n t
    using it by (auto simp: is_iter_set dest: map_of_SomeD intro: image_eqI [where x = "(n, t)"])
  have "r \<in> set (channel_candidates sv p current installed (iter (map_keys (p_channels p)))) \<longleftrightarrow>
    (\<exists>t. map_of (p_channels p) (cl_channel r) = Some t \<and> cl_channel r \<noteq> current \<and> \<not> ch_deprecated t
       \<and> (channel_upgrade_heads sv p t installed \<noteq> []
          \<and> cl_bundle r = b_name (last (channel_upgrade_heads sv p t installed))))"
    unfolding set_channel_candidates using known by (cases r) auto
  then show ?thesis
    unfolding upgrade_head_iff [OF wf sv] channel_candidate_def by blast
qed

section \<open>Properties of the channel queries\<close>

text \<open>
  C5: The search for the upgrade heads of a target channel ends, cycles included, and finds
  exactly the non-deprecated bundles with no outgoing edge that are reached from an entry of
  the target that accepts the installed bundle; the result has no duplicates and is ordered
  by \<open>bundleLess\<close>.
\<close>

theorem channel_upgrade_heads_spec:
  assumes "wf_package p" and "semver_laws sv"
  shows "set (channel_upgrade_heads sv p t installed) = upgrade_bundles sv p t installed
    \<and> distinct (channel_upgrade_heads sv p t installed)
    \<and> sorted_by (bundle_less sv) (channel_upgrade_heads sv p t installed)"
  using channel_upgrade_heads_set [OF assms(1)] semver_laws.bundle_less_weak [OF assms(2)]
  by (simp add: channel_upgrade_heads_def Let_def slice.sorted_srt)

theorem channel_upgrade_heads_spec_witness:
  "set (channel_upgrade_heads std_semver ex_package ex_stable (snd (ex_bundle ''v1'' ''1.0.0'' False)))
     = upgrade_bundles std_semver ex_package ex_stable (snd (ex_bundle ''v1'' ''1.0.0'' False))
   \<and> map b_name (channel_upgrade_heads std_semver ex_package ex_stable
        (snd (ex_bundle ''v1'' ''1.0.0'' False))) = [''v4'']"
proof -
  have "map b_name (channel_upgrade_heads std_semver ex_package ex_stable
        (snd (ex_bundle ''v1'' ''1.0.0'' False))) = [''v4'']" by code_simp
  then show ?thesis
    using channel_upgrade_heads_spec [OF wf_ex_package std.semver_laws_axioms] by blast
qed

text \<open>
  C6: A channel query whose selection is not \<open>next\<close> returns the current channel with the
  installed bundle first, and after it exactly one release for every other, non-deprecated
  channel with an upgrade head: its bundle is the greatest such head. No channel appears
  twice, and no channel without a declared path appears.
\<close>

theorem channel_releases_complete:
  assumes wf: "wf_package p" and sv: "semver_laws sv" and it: "is_iter iter"
    and ch: "map_of (p_channels p) (cr_current_channel req) = Some cc"
    and cur: "current_bundle p cc (cr_current_bundle req) (cr_current_version req) = Inr installed"
    and sel: "cr_selection req \<noteq> ''next''"
  shows "\<exists>rest. channel_releases sv iter p req
      = Inr (\<lparr>cl_channel = cr_current_channel req, cl_bundle = b_name installed\<rparr> # rest)
    \<and> distinct (map cl_channel rest)
    \<and> set rest = {r. channel_candidate sv p (cr_current_channel req) installed r}"
proof -
  let ?cs = "channel_candidates sv p (cr_current_channel req) installed (iter (map_keys (p_channels p)))"
  let ?lt = "\<lambda>x y. channel_candidate_less sv (cr_current_channel req) (cl_channel x) (cl_channel y)"
  have "distinct (map cl_channel ?cs)"
    using wf it by (intro distinct_channel_candidates) (simp add: is_iter_distinct wf_package_def)
  then have "distinct (map cl_channel (sort_slice ?lt ?cs))"
    by (metis mset_map mset_eq_imp_distinct_iff slice.mset_srt)
  moreover have "set (sort_slice ?lt ?cs) = {r. channel_candidate sv p (cr_current_channel req) installed r}"
    using channel_candidates_iff [OF wf sv it] by (auto simp: sort_facts)
  ultimately show ?thesis
    using ch cur sel by (simp add: channel_releases_def Let_def)
qed

definition ex_channel_request :: channel_update_request where
  "ex_channel_request = \<lparr>cr_current_channel = ''gitops-1.2'', cr_current_version = [],
     cr_current_bundle = ''v4'', cr_selection = ''reachable''\<rparr>"

definition ex_v4 :: olm_bundle where
  "ex_v4 = snd (ex_bundle ''v4'' ''1.10.0'' False)"

lemma ex_current_v4: "current_bundle ex_package ex_stable ''v4'' [] = Inr ex_v4"
  by (simp add: current_bundle_def ex_v4_def ex_defs)

theorem channel_releases_complete_witness:
  "(\<exists>rest. channel_releases std_semver rev ex_package ex_channel_request
      = Inr (\<lparr>cl_channel = ''gitops-1.2'', cl_bundle = ''v4''\<rparr> # rest)
    \<and> distinct (map cl_channel rest)
    \<and> set rest = {r. channel_candidate std_semver ex_package ''gitops-1.2'' ex_v4 r})
   \<and> channel_updates std_semver rev ex_package ex_channel_request = Inr [''gitops-1.2'', ''gitops-1.3'', ''latest'']"
proof
  show "\<exists>rest. channel_releases std_semver rev ex_package ex_channel_request
      = Inr (\<lparr>cl_channel = ''gitops-1.2'', cl_bundle = ''v4''\<rparr> # rest)
    \<and> distinct (map cl_channel rest)
    \<and> set rest = {r. channel_candidate std_semver ex_package ''gitops-1.2'' ex_v4 r}"
    using channel_releases_complete [OF wf_ex_package std.semver_laws_axioms is_iter_rev _ _ _,
        of ex_channel_request ex_stable ex_v4] ex_current_v4
    by (simp add: ex_channel_request_def ex_v4_def ex_defs)
  show "channel_updates std_semver rev ex_package ex_channel_request = Inr [''gitops-1.2'', ''gitops-1.3'', ''latest'']"
    by code_simp
qed

end
