(* ===== verification/Catalog_Selection.thy ===== *)
theory Catalog_Selection
  imports Catalog_Channels
begin

text \<open>
  Properties of the channel queries of \<^verbatim>\<open>pkg/catalog/resolve.go\<close> that rest on the order of
  the candidates: what the selection \<open>next\<close> picks, that a returned state token is accepted
  by the next request, what \<open>ChannelHeads\<close> lists, and where the order of channel names is
  not an order.
\<close>

section \<open>The order of the candidates\<close>

lemma find_append:
  "find P (xs @ ys) = (case find P xs of Some c \<Rightarrow> Some c | None \<Rightarrow> find P ys)"
  by (induction xs) (auto split: option.splits)

text \<open>The channels of a family above a version.\<close>

definition family_above :: "'v semver \<Rightarrow> string \<Rightarrow> 'v \<Rightarrow> channel_release \<Rightarrow> bool" where
  "family_above sv f cv c \<longleftrightarrow>
     (case channel_suffix sv (cl_channel c) of None \<Rightarrow> False | Some (cp, v) \<Rightarrow> cp = f \<and> sv_less sv cv v)"

lemma find_next_find: "find_next_in_family sv f cv cs = find (family_above sv f cv) cs"
  by (induction cs) (auto simp: family_above_def split: option.splits)

lemma find_split:
  "find P xs = Some x \<Longrightarrow> \<exists>ys zs. xs = ys @ x # zs \<and> P x \<and> (\<forall>y \<in> set ys. \<not> P y)"
proof (induction xs)
  case (Cons a xs)
  show ?case
  proof (cases "P a")
    case True
    then have "a # xs = [] @ x # xs \<and> P x" using Cons.prems by simp
    then show ?thesis by fastforce
  next
    case False
    then obtain ys zs where "xs = ys @ x # zs" "P x" "\<forall>y \<in> set ys. \<not> P y"
      using Cons by auto
    then have "a # xs = (a # ys) @ x # zs \<and> P x \<and> (\<forall>y \<in> set (a # ys). \<not> P y)"
      using False by simp
    then show ?thesis by blast
  qed
qed simp

lemma next_release_subset: "set (next_channel_release sv current xs) \<subseteq> set xs"
proof -
  have diff: "set (first_different current xs) \<subseteq> set xs"
    by (induction xs) auto
  have "c \<in> set xs" if "find_next_in_family sv f cv xs = Some c" for f cv c
    using that by (auto simp: find_next_find dest!: find_split)
  with diff show ?thesis
    by (auto simp: next_channel_release_def split: option.splits)
qed

definition family_order :: "'v semver \<Rightarrow> channel_release \<Rightarrow> channel_release \<Rightarrow> bool" where
  "family_order sv x y =
     opt_less (sv_less sv) (map_option snd (channel_suffix sv (cl_channel x)))
       (map_option snd (channel_suffix sv (cl_channel y)))"

context semver_laws
begin

lemma family_order_weak: "weak_order (family_order sv)"
  unfolding family_order_def
  by (rule weak_order_key [where f = "\<lambda>x. map_option snd (channel_suffix sv (cl_channel x))"])
    (rule weak_order_opt [OF less_order])

text \<open>
  Sorting the candidates puts the current family first, by version; the order among the other
  channels does not matter for it.
\<close>

lemma sort_candidates_family:
  assumes cur: "channel_suffix sv current = Some (f, cv)"
  shows "sort_slice (\<lambda>x y. channel_candidate_less sv current (cl_channel x) (cl_channel y)) cs =
     sort_slice (family_order sv) (filter (\<lambda>c. same_family sv f (cl_channel c)) cs)
     @ sort_slice (\<lambda>x y. channel_candidate_less sv current (cl_channel x) (cl_channel y))
         (filter (\<lambda>c. \<not> same_family sv f (cl_channel c)) cs)"
    (is "sort_slice ?lt cs = ?fam @ ?rest")
proof -
  have "sort_slice ?lt cs = sort_slice ?lt (filter (\<lambda>c. same_family sv f (cl_channel c)) cs) @ ?rest"
    by (rule sort_slice_groups) (simp add: channel_candidate_less_def cur)
  moreover have "sort_slice ?lt (filter (\<lambda>c. same_family sv f (cl_channel c)) cs) = ?fam"
    by (rule sort_slice_cong)
      (auto simp: channel_candidate_less_def cur channel_less_def same_family_def
        family_order_def opt_less_def split: option.splits)
  ultimately show ?thesis by simp
qed

text \<open>The first element above the current version is a least one.\<close>

lemma find_next_least:
  assumes cur: "channel_suffix sv current = Some (f, cv)"
    and c: "c \<in> set cs" "family_above sv f cv c"
  shows "\<exists>r. find_next_in_family sv f cv
       (sort_slice (\<lambda>x y. channel_candidate_less sv current (cl_channel x) (cl_channel y)) cs) = Some r
     \<and> r \<in> set cs \<and> family_above sv f cv r
     \<and> (\<forall>c \<in> set cs. family_above sv f cv c \<longrightarrow> \<not> family_order sv c r)"
proof -
  let ?fam = "sort_slice (family_order sv) (filter (\<lambda>c. same_family sv f (cl_channel c)) cs)"
  have fam: "family_above sv f cv x \<Longrightarrow> same_family sv f (cl_channel x)" for x
    by (auto simp: family_above_def same_family_def split: option.splits)
  then have cf: "c \<in> set ?fam" using c by (simp add: sort_facts)
  then obtain r where r: "find (family_above sv f cv) ?fam = Some r"
    using c(2) by (metis find_None_iff option.exhaust)
  from find_split [OF this] obtain ys zs where s: "?fam = ys @ r # zs" "family_above sv f cv r"
      "\<forall>y \<in> set ys. \<not> family_above sv f cv y" by blast
  have elems: "x \<in> set (ys @ r # zs) \<longleftrightarrow> x \<in> set cs \<and> same_family sv f (cl_channel x)" for x
    unfolding s(1) [symmetric] by (simp add: sort_facts)
  have sorted: "sorted_by (family_order sv) (ys @ r # zs)"
    unfolding s(1) [symmetric] by (rule slice.sorted_srt [OF family_order_weak])
  have least: "\<not> family_order sv x r" if "x \<in> set cs" "family_above sv f cv x" for x
  proof -
    have "x = r \<or> x \<in> set zs" using that fam elems [of x] s(3) by auto
    then show ?thesis
      using sorted weak_order.irrefl [OF family_order_weak]
      by (auto simp: sorted_by_def sorted_wrt_append)
  qed
  have "r \<in> set cs" using elems [of r] by simp
  moreover have "find_next_in_family sv f cv
       (sort_slice (\<lambda>x y. channel_candidate_less sv current (cl_channel x) (cl_channel y)) cs) = Some r"
    using r by (simp add: sort_candidates_family [OF cur, of cs] find_append find_next_find)
  ultimately show ?thesis using s(2) least by blast
qed

end

section \<open>Properties\<close>

text \<open>
  C7: With selection \<open>next\<close>, when some candidate channel belongs to the family of the current
  channel (same name before the last hyphen) and has a higher version suffix, the answer has
  exactly one release after the current one: a candidate of that family above the current
  version, and no candidate of the family lies between the two. This holds for every order in
  which the channels are ranged over.
\<close>

theorem channel_releases_next:
  assumes wf: "wf_package p" and sv: "semver_laws sv" and it: "is_iter iter"
    and ch: "map_of (p_channels p) (cr_current_channel req) = Some cc"
    and cur: "current_bundle p cc (cr_current_bundle req) (cr_current_version req) = Inr installed"
    and sel: "cr_selection req = ''next''"
    and fam: "channel_suffix sv (cr_current_channel req) = Some (f, cv)"
    and cand: "channel_candidate sv p (cr_current_channel req) installed c" "family_above sv f cv c"
  shows "\<exists>r. channel_releases sv iter p req
        = Inr [\<lparr>cl_channel = cr_current_channel req, cl_bundle = b_name installed\<rparr>, r]
    \<and> channel_candidate sv p (cr_current_channel req) installed r \<and> family_above sv f cv r
    \<and> (\<forall>c'. channel_candidate sv p (cr_current_channel req) installed c' \<and> family_above sv f cv c'
          \<longrightarrow> \<not> family_order sv c' r)"
proof -
  let ?cs = "channel_candidates sv p (cr_current_channel req) installed (iter (map_keys (p_channels p)))"
  let ?lt = "\<lambda>x y. channel_candidate_less sv (cr_current_channel req) (cl_channel x) (cl_channel y)"
  have mem: "x \<in> set ?cs \<longleftrightarrow> channel_candidate sv p (cr_current_channel req) installed x" for x
    by (rule channel_candidates_iff [OF wf sv it])
  obtain r where r: "find_next_in_family sv f cv (sort_slice ?lt ?cs) = Some r" "r \<in> set ?cs"
      "family_above sv f cv r" "\<forall>c \<in> set ?cs. family_above sv f cv c \<longrightarrow> \<not> family_order sv c r"
    using semver_laws.find_next_least [OF sv fam, of c ?cs] cand mem by blast
  have "sort_slice ?lt ?cs \<noteq> []" using r(2) by (auto simp: sort_facts)
  then have "channel_releases sv iter p req
      = Inr [\<lparr>cl_channel = cr_current_channel req, cl_bundle = b_name installed\<rparr>, r]"
    using ch cur sel fam r(1) by (simp add: channel_releases_def Let_def next_channel_release_def)
  then show ?thesis using r mem by blast
qed

theorem channel_releases_next_witness:
  "\<exists>r. channel_releases std_semver rev ex_package (ex_channel_request\<lparr>cr_selection := ''next''\<rparr>)
        = Inr [\<lparr>cl_channel = ''gitops-1.2'', cl_bundle = ''v4''\<rparr>, r]
    \<and> channel_candidate std_semver ex_package ''gitops-1.2'' ex_v4 r
    \<and> family_above std_semver ''gitops'' (Version 1 2 0 []) r
    \<and> (\<forall>c'. channel_candidate std_semver ex_package ''gitops-1.2'' ex_v4 c'
          \<and> family_above std_semver ''gitops'' (Version 1 2 0 []) c' \<longrightarrow> \<not> family_order std_semver c' r)"
proof -
  have mem: "channel_candidate std_semver ex_package ''gitops-1.2'' ex_v4 \<lparr>cl_channel = ''gitops-1.3'', cl_bundle = ''v5''\<rparr>"
    unfolding channel_candidates_iff [OF wf_ex_package std.semver_laws_axioms is_iter_id, symmetric]
    by code_simp
  have above: "family_above std_semver ''gitops'' (Version 1 2 0 []) \<lparr>cl_channel = ''gitops-1.3'', cl_bundle = ''v5''\<rparr>"
    by code_simp
  have fam: "channel_suffix std_semver ''gitops-1.2'' = Some (''gitops'', Version 1 2 0 [])" by code_simp
  show ?thesis
    using channel_releases_next [OF wf_ex_package std.semver_laws_axioms is_iter_rev _ _ _ _ _ above,
        of "ex_channel_request\<lparr>cr_selection := ''next''\<rparr>" ex_stable ex_v4] ex_current_v4 mem fam
    by (simp add: ex_channel_request_def ex_v4_def ex_defs)
qed

text \<open>
  C8: The bundle returned with a channel is a usable state token: for every release after the
  first of any successful channel query, a later query that names that channel and that bundle
  as its current state succeeds and starts from exactly that state.
\<close>

theorem channel_release_token:
  assumes wf: "wf_package p" and sv: "semver_laws sv" and it: "is_iter iter"
    and res: "channel_releases sv iter p req = Inr (first # rest)" and r: "r \<in> set rest"
    and req': "cr_current_channel req' = cl_channel r" "cr_current_bundle req' = cl_bundle r"
  shows "\<exists>rest'. channel_releases sv iter' p req' = Inr (r # rest')"
proof -
  obtain cc installed where cc: "map_of (p_channels p) (cr_current_channel req) = Some cc"
      "current_bundle p cc (cr_current_bundle req) (cr_current_version req) = Inr installed"
    using res by (auto simp: channel_releases_def Let_def split: option.splits sum.splits if_splits)
  let ?cs = "channel_candidates sv p (cr_current_channel req) installed (iter (map_keys (p_channels p)))"
  let ?sorted = "sort_slice (\<lambda>x y. channel_candidate_less sv (cr_current_channel req) (cl_channel x) (cl_channel y)) ?cs"
  have "rest = next_channel_release sv (cr_current_channel req) ?sorted \<or> rest = ?sorted"
    using res cc by (auto simp: channel_releases_def Let_def split: if_splits)
  then have "set rest \<subseteq> set ?sorted" by (elim disjE) (simp_all add: next_release_subset)
  then have "set rest \<subseteq> set ?cs" by (simp add: sort_facts)
  then have "channel_candidate sv p (cr_current_channel req) installed r"
    using r channel_candidates_iff [OF wf sv it] by blast
  then obtain t b where t: "map_of (p_channels p) (cl_channel r) = Some t"
      and b: "b \<in> upgrade_bundles sv p t installed" "cl_bundle r = b_name b"
    by (auto simp: channel_candidate_def)
  note stored = upgrade_bundles_stored [OF wf b(1)]
  have "current_bundle p t (b_name b) (cr_current_version req') = Inr b"
    using stored wf_bundle_nonempty [OF wf stored(1)] by (auto simp: current_bundle_name)
  then show ?thesis using t b(2) req' by (simp add: channel_releases_def Let_def)
qed

text \<open>
  \<open>ChannelHeads\<close> lists exactly the stored bundles of the channel's entries that no
  declared edge of the channel leaves, in byte order of their names.
\<close>

lemma channel_heads_spec:
  assumes wf: "wf_package p" and ch: "map_of (p_channels p) name = Some ch"
  shows "set (channel_heads sv p name) =
      {b. \<exists>e \<in> set (ch_entries ch). map_of (p_bundles p) (e_name e) = Some b
            \<and> (\<nexists>x. update_edge sv p ch (e_name e) x)}
    \<and> sorted_by (\<lambda>x y. b_name x < b_name y) (channel_heads sv p name)"
proof -
  have "set (terminal_bundles sv p ch es) =
      {b. \<exists>e \<in> set es. map_of (p_bundles p) (e_name e) = Some b
            \<and> (\<nexists>x. update_edge sv p ch (e_name e) x)}" for es
    by (induction es) (auto simp: update_edge_def succs_def bundle_version_def split: option.splits)
  then show ?thesis
    using ch by (simp add: channel_heads_def sort_facts slice.sorted_srt weak_order_str_key)
qed

lemma ex_channel_heads:
  "set (channel_heads std_semver ex_package ''gitops-1.2'') =
      {b. \<exists>e \<in> set (ch_entries ex_stable). map_of (p_bundles ex_package) (e_name e) = Some b
            \<and> (\<nexists>x. update_edge std_semver ex_package ex_stable (e_name e) x)}
   \<and> map b_name (channel_heads std_semver ex_package ''gitops-1.2'') = [''v4'', ''v9'']"
proof -
  have "map_of (p_channels ex_package) ''gitops-1.2'' = Some ex_stable"
    by (simp add: ex_package_def)
  moreover have "map b_name (channel_heads std_semver ex_package ''gitops-1.2'') = [''v4'', ''v9'']"
    by code_simp
  ultimately show ?thesis
    using channel_heads_spec [OF wf_ex_package] by blast
qed

theorem channel_release_token_witness:
  "\<exists>rest'. channel_releases std_semver rev ex_package
      \<lparr>cr_current_channel = ''latest'', cr_current_version = [], cr_current_bundle = ''v9'', cr_selection = []\<rparr>
    = Inr (\<lparr>cl_channel = ''latest'', cl_bundle = ''v9''\<rparr> # rest')"
proof -
  have "channel_releases std_semver rev ex_package ex_channel_request
    = Inr (\<lparr>cl_channel = ''gitops-1.2'', cl_bundle = ''v4''\<rparr>
        # [\<lparr>cl_channel = ''gitops-1.3'', cl_bundle = ''v5''\<rparr>, \<lparr>cl_channel = ''latest'', cl_bundle = ''v9''\<rparr>])"
    by code_simp
  from channel_release_token [OF wf_ex_package std.semver_laws_axioms is_iter_rev this,
      where r = "\<lparr>cl_channel = ''latest'', cl_bundle = ''v9''\<rparr>"]
  show ?thesis by simp
qed

section \<open>Where the order is not an order\<close>

text \<open>
  \<open>channelLess\<close> compares versions inside a family and bytes across families; the two do not
  agree, and three names of two families form a cycle. \<open>sort.Slice\<close> then promises nothing.
\<close>

lemma channel_less_cycle:
  "channel_less std_semver ''a-10.0'' ''a-5zz'' \<and> channel_less std_semver ''a-5zz'' ''a-9.0''
   \<and> channel_less std_semver ''a-9.0'' ''a-10.0''"
  by code_simp

lemma channel_less_not_weak: "\<not> weak_order (channel_less std_semver)"
proof
  assume w: "weak_order (channel_less std_semver)"
  note trans = weak_order.trans [OF w] and irrefl = weak_order.irrefl [OF w]
  show False
    using channel_less_cycle by (blast dest: trans intro: irrefl [THEN notE])
qed

text \<open>
  With no higher channel of the family among the candidates, the fallback of the selection
  \<open>next\<close> takes the first different channel, which can be an older one of the same family.
\<close>

definition ex_older_package :: package where
  "ex_older_package = \<lparr>p_name = ''strimzi'', p_default_channel = ''strimzi-0.45.x'',
     p_channels = [ex_channel ''strimzi-0.44.x'' [ex_entry ''v44'' ''v43'' [] []],
       ex_channel ''strimzi-0.45.x'' [ex_entry ''v43'' [] [] []]],
     p_bundles = [ex_bundle ''v43'' ''0.43.0'' False, ex_bundle ''v44'' ''0.44.0'' False]\<rparr>"

lemma next_falls_back_to_older:
  "channel_updates std_semver (\<lambda>ks. ks) ex_older_package
     \<lparr>cr_current_channel = ''strimzi-0.45.x'', cr_current_version = [],
       cr_current_bundle = ''v43'', cr_selection = ''next''\<rparr>
   = Inr [''strimzi-0.45.x'', ''strimzi-0.44.x'']
   \<and> channel_less std_semver ''strimzi-0.44.x'' ''strimzi-0.45.x''"
  by code_simp

end
