(* ===== verification/Go_Paths.thy ===== *)
theory Go_Paths
  imports Go_Base
begin

text \<open>
  \<open>path.Clean\<close> and \<open>filepath.IsLocal\<close> of the Go library on Unix, the two path functions
  the catalog reader and the HTTP routes rely on, with the fact that a clean local path has
  no parent component.
\<close>

section \<open>path.Clean\<close>

text \<open>One element against the stack of the elements kept so far, most recent first.\<close>

fun clean_elem :: "bool \<Rightarrow> string \<Rightarrow> string list \<Rightarrow> string list" where
  "clean_elem rooted e stack =
     (if e = [] \<or> e = ''.'' then stack
      else if e = ''..'' then
        (case stack of
           [] \<Rightarrow> if rooted then [] else [''..'']
         | prev # below \<Rightarrow> if prev = ''..'' then ''..'' # stack else below)
      else e # stack)"

definition clean_elems :: "bool \<Rightarrow> string list \<Rightarrow> string list" where
  "clean_elems rooted es = rev (fold (clean_elem rooted) es [])"

definition is_rooted :: "string \<Rightarrow> bool" where
  "is_rooted p = (case p of [] \<Rightarrow> False | c # _ \<Rightarrow> c = CHR ''/'')"

definition path_clean :: "string \<Rightarrow> string" where
  "path_clean p =
     (if p = [] then ''.''
      else let body = join ''/'' (clean_elems (is_rooted p) (split_on (CHR ''/'') p))
           in if is_rooted p then CHR ''/'' # body else if body = [] then ''.'' else body)"

section \<open>filepath.IsLocal\<close>

definition is_local :: "string \<Rightarrow> bool" where
  "is_local p \<longleftrightarrow>
     \<not> is_rooted p \<and> p \<noteq> []
     \<and> (let parts = split_on (CHR ''/'') p;
            q = (if ''.'' \<in> set parts \<or> ''..'' \<in> set parts then path_clean p else p)
        in q \<noteq> ''..'' \<and> \<not> has_prefix q ''../'')"

section \<open>Clean paths\<close>

text \<open>The elements of a clean relative path: parent elements first, then plain ones.\<close>

definition plain_elem :: "string \<Rightarrow> bool" where
  "plain_elem e \<longleftrightarrow> e \<noteq> [] \<and> e \<noteq> ''.'' \<and> e \<noteq> ''..'' \<and> CHR ''/'' \<notin> set e"

definition clean_stack :: "string list \<Rightarrow> bool" where
  "clean_stack stack \<longleftrightarrow>
     (\<exists>plain n. stack = plain @ replicate n ''..'' \<and> list_all plain_elem plain)"

lemma clean_elem_stack:
  assumes "clean_stack stack" and "CHR ''/'' \<notin> set e"
  shows "clean_stack (clean_elem rooted e stack)"
proof -
  obtain ps n where s: "stack = ps @ replicate n ''..''" "list_all plain_elem ps"
    using assms(1) by (auto simp: clean_stack_def)
  consider "e = [] \<or> e = ''.''" | "e = ''..''" | "plain_elem e"
    using assms(2) by (auto simp: plain_elem_def)
  then show ?thesis
  proof cases
    case 1
    then show ?thesis using assms(1) by auto
  next
    case 2
    show ?thesis
    proof (cases ps)
      case Nil
      then have "clean_elem rooted e stack = [] \<or> clean_elem rooted e stack = replicate (Suc n) ''..''"
        using 2 s(1) by (cases n) auto
      moreover have "clean_stack (replicate k ''..'')" for k
        unfolding clean_stack_def by (rule exI [of _ "[]"]) simp
      ultimately show ?thesis by (metis replicate_0)
    next
      case (Cons q qs)
      then have "clean_elem rooted e stack = qs @ replicate n ''..''"
        using 2 s by (auto simp: plain_elem_def)
      then show ?thesis using s(2) Cons by (auto simp: clean_stack_def)
    qed
  next
    case 3
    then have "clean_elem rooted e stack = (e # ps) @ replicate n ''..''"
      using s(1) by (auto simp: plain_elem_def)
    moreover have "list_all plain_elem (e # ps)" using 3 s(2) by simp
    ultimately show ?thesis unfolding clean_stack_def by blast
  qed
qed

lemma fold_clean_stack:
  "clean_stack stack \<Longrightarrow> \<forall>e \<in> set es. CHR ''/'' \<notin> set e \<Longrightarrow> clean_stack (fold (clean_elem rooted) es stack)"
  by (induction es arbitrary: stack) (auto simp: clean_elem_stack simp del: clean_elem.simps)

lemma clean_elems_shape:
  assumes "\<forall>e \<in> set es. CHR ''/'' \<notin> set e"
  shows "\<exists>n plain. clean_elems rooted es = replicate n ''..'' @ plain \<and> list_all plain_elem plain"
proof -
  have "clean_stack (fold (clean_elem rooted) es [])"
    by (rule fold_clean_stack) (use assms in \<open>auto simp: clean_stack_def\<close>)
  then obtain ps n where "fold (clean_elem rooted) es [] = ps @ replicate n ''..''" "list_all plain_elem ps"
    by (auto simp: clean_stack_def)
  then show ?thesis
    by (intro exI [of _ n] exI [of _ "rev ps"]) (simp add: clean_elems_def list_all_rev)
qed

lemma fold_clean_dots:
  "fold (clean_elem False) (replicate k ''..'') (replicate j ''..'') = replicate (k + j) ''..''"
proof (induction k arbitrary: j)
  case (Suc k)
  have "clean_elem False ''..'' (replicate j ''..'') = replicate (Suc j) ''..''"
    by (cases j) auto
  then show ?case using Suc [of "Suc j"] by (simp del: clean_elem.simps)
qed simp

lemma fold_clean_plain:
  "list_all plain_elem es \<Longrightarrow> fold (clean_elem rooted) es stack = rev es @ stack"
  by (induction es arbitrary: stack) (auto simp: plain_elem_def)

lemma clean_elems_clean:
  "list_all plain_elem plain \<Longrightarrow>
     clean_elems False (replicate n ''..'' @ plain) = replicate n ''..'' @ plain"
  using fold_clean_dots [of n 0] by (simp add: clean_elems_def fold_clean_plain)

lemma join_head_dots: "join ''/'' (''..'' # es) = ''..'' \<or> has_prefix (join ''/'' (''..'' # es)) ''../''"
  by (cases es) (auto simp: has_prefix_def)

lemma rooted_clean: "p \<noteq> [] \<Longrightarrow> is_rooted p \<Longrightarrow> is_rooted (path_clean p)"
  by (simp add: path_clean_def Let_def) (simp add: is_rooted_def)

text \<open>
  A clean path that is local is the join of plain elements: it names something below the
  directory it is resolved in.
\<close>

lemma clean_local_plain:
  assumes local: "is_local (path_clean p)" and nodot: "path_clean p \<noteq> ''.''"
  shows "\<exists>es. path_clean p = join ''/'' es \<and> es \<noteq> [] \<and> list_all plain_elem es"
proof -
  have unrooted: "\<not> is_rooted (path_clean p)" using local by (simp add: is_local_def)
  have "\<forall>e \<in> set (split_on (CHR ''/'') p). CHR ''/'' \<notin> set e"
    using split_on_parts by blast
  then obtain n plain where shape:
    "clean_elems (is_rooted p) (split_on (CHR ''/'') p) = replicate n ''..'' @ plain" "list_all plain_elem plain"
    using clean_elems_shape by blast
  let ?es = "replicate n ''..'' @ plain"
  have "p \<noteq> []" using nodot by (auto simp: path_clean_def)
  moreover from this have "\<not> is_rooted p"
    using unrooted rooted_clean by blast
  ultimately have "p \<noteq> []" and "\<not> is_rooted p" by auto
  then have clean: "path_clean p = (if join ''/'' ?es = [] then ''.'' else join ''/'' ?es)"
    using shape(1) by (simp add: path_clean_def Let_def)
  then have body: "path_clean p = join ''/'' ?es" using nodot by presburger
  have ne: "?es \<noteq> []"
  proof
    assume "?es = []"
    then have "join ''/'' ?es = []" by (simp only: join.simps)
    with clean nodot show False by simp
  qed
  have parts: "split_on (CHR ''/'') (path_clean p) = ?es"
    unfolding body
  proof (rule split_on_join [OF ne], rule ballI)
    fix e assume "e \<in> set ?es"
    then have "e = ''..'' \<or> plain_elem e" using shape(2) by (auto simp: list_all_iff)
    then show "CHR ''/'' \<notin> set e" by (auto simp: plain_elem_def)
  qed
  have "n = 0"
  proof (cases n)
    case (Suc m)
    then have "''..'' \<in> set ?es" by simp
    have np: "path_clean p \<noteq> []" using local by (simp add: is_local_def)
    have "join ''/'' (clean_elems (is_rooted (path_clean p)) (split_on (CHR ''/'') (path_clean p))) = path_clean p"
      using clean_elems_clean [OF shape(2), of n] unrooted parts body by simp
    then have "path_clean (path_clean p) = path_clean p"
      using np unrooted unfolding path_clean_def [of "path_clean p"] Let_def by simp
    then have "path_clean p \<noteq> ''..'' \<and> \<not> has_prefix (path_clean p) ''../''"
      using local parts \<open>''..'' \<in> set ?es\<close> by (simp add: is_local_def Let_def)
    moreover have "path_clean p = ''..'' \<or> has_prefix (path_clean p) ''../''"
      unfolding body Suc using join_head_dots by simp
    ultimately show ?thesis by blast
  qed
  then show ?thesis using body ne shape(2) by auto
qed

end
