(* ===== verification/Catalog_Reader.thy ===== *)
theory Catalog_Reader
  imports Catalog_Model Go_Paths
begin

text \<open>
  The reader of \<^verbatim>\<open>pkg/catalog/catalog.go\<close>: platforms, the resolution of the config path of
  an image, the guard that opens regular files only, the merge of one FBC record into the
  snapshot (\<open>addMeta\<close>) and the validation that ends \<open>readFS\<close>.

  Not under src/, and so arguments of the model: the JSON decoder of a blob (\<open>codec\<close>, with
  blobs of any type \<open>'b\<close>), the walk \<open>declcfg.WalkMetasFS\<close> (the list of the callback's
  invocations, in the order in which its mutex admits them), the container registry, and
  the operating system's files.
\<close>

section \<open>Platforms\<close>

datatype read_error =
    BadPlatform string
  | ContextError string
  | SourceIncomplete
  | PathTraversal
  | OSError string
  | RegistryError string
  | PullError string string
  | LabelError string string
  | NotAFileBasedCatalog string
  | UnpackError string string
  | WalkError string
  | JsonError string
  | PackageWithoutName
  | ChannelIncomplete
  | BundleIncomplete
  | BundleVersionError string read_error
  | PropertyDecodeError string
  | PropertyWithoutVersion
  | PropertyMissing
  | NoSchema
  | NoDefaultChannel string
  | MissingBundle string string string

definition parse_platform :: "string \<Rightarrow> read_error + string \<times> string \<times> string" where
  "parse_platform value =
     (let parts = split_on (CHR ''/'') value in
      if length parts < 2 \<or> length parts > 3 \<or> parts ! 0 = [] \<or> parts ! 1 = []
         \<or> (length parts = 3 \<and> parts ! 2 = [])
      then Inl (BadPlatform value)
      else Inr (parts ! 0, parts ! 1, join [] (drop 2 parts)))"

definition validate_platform :: "string \<Rightarrow> read_error option" where
  "validate_platform value = (case parse_platform value of Inl e \<Rightarrow> Some e | Inr _ \<Rightarrow> None)"

section \<open>Decoded records\<close>

record raw_package =
  rp_name :: string
  rp_default_channel :: string

record raw_channel =
  rc_package :: string
  rc_name :: string
  rc_entries :: "entry list"

record 'b raw_property =
  pr_type :: string
  pr_value :: 'b

record 'b raw_bundle =
  rb_name :: string
  rb_package :: string
  rb_image :: string
  rb_properties :: "'b raw_property list"

text \<open>\<open>json.Unmarshal\<close> into each of the four record types; a left value is its error.\<close>

record 'b codec =
  dec_package :: "'b \<Rightarrow> string + raw_package"
  dec_channel :: "'b \<Rightarrow> string + raw_channel"
  dec_bundle :: "'b \<Rightarrow> string + 'b raw_bundle"
  dec_version :: "'b \<Rightarrow> string + string"

fun package_version :: "'b codec \<Rightarrow> 'b raw_property list \<Rightarrow> read_error + string" where
  "package_version cd [] = Inl PropertyMissing"
| "package_version cd (p # ps) =
     (if pr_type p \<noteq> ''olm.package'' then package_version cd ps
      else (case dec_version cd (pr_value p) of
              Inl e \<Rightarrow> Inl (PropertyDecodeError e)
            | Inr v \<Rightarrow> if v \<noteq> [] then Inr v else Inl PropertyWithoutVersion))"

section \<open>Merging one record\<close>

definition new_package :: "string \<Rightarrow> package" where
  "new_package name = \<lparr>p_name = name, p_default_channel = [], p_channels = [], p_bundles = []\<rparr>"

text \<open>
  \<open>ensurePackage\<close> returns a pointer into the snapshot. The model returns the package value and
  leaves the write to the caller, which stores the changed package under the same name.
\<close>

definition ensure_package :: "snapshot \<Rightarrow> string \<Rightarrow> package" where
  "ensure_package s name =
     (case map_of (sn_packages s) name of Some p \<Rightarrow> p | None \<Rightarrow> new_package name)"

definition store_package :: "snapshot \<Rightarrow> string \<Rightarrow> package \<Rightarrow> snapshot" where
  "store_package s name p = s\<lparr>sn_packages := AList.update name p (sn_packages s)\<rparr>"

definition add_meta :: "'b codec \<Rightarrow> snapshot \<Rightarrow> string \<Rightarrow> 'b \<Rightarrow> read_error + snapshot" where
  "add_meta cd s schema blob =
     (if schema = ''olm.package'' then
        (case dec_package cd blob of
           Inl e \<Rightarrow> Inl (JsonError e)
         | Inr v \<Rightarrow>
             if rp_name v = [] then Inl PackageWithoutName
             else (let p = ensure_package s (rp_name v)
                   in Inr (store_package s (rp_name v) (p\<lparr>p_default_channel := rp_default_channel v\<rparr>))))
      else if schema = ''olm.channel'' then
        (case dec_channel cd blob of
           Inl e \<Rightarrow> Inl (JsonError e)
         | Inr v \<Rightarrow>
             if rc_package v = [] \<or> rc_name v = [] then Inl ChannelIncomplete
             else (let p = ensure_package s (rc_package v);
                       c = \<lparr>ch_name = rc_name v, ch_entries = rc_entries v, ch_deprecated = False\<rparr>
                   in Inr (store_package s (rc_package v)
                        (p\<lparr>p_channels := AList.update (rc_name v) c (p_channels p)\<rparr>))))
      else if schema = ''olm.bundle'' then
        (case dec_bundle cd blob of
           Inl e \<Rightarrow> Inl (JsonError e)
         | Inr v \<Rightarrow>
             if rb_package v = [] \<or> rb_name v = [] then Inl BundleIncomplete
             else (let p = ensure_package s (rb_package v) in
                   (case package_version cd (rb_properties v) of
                      Inl e \<Rightarrow> Inl (BundleVersionError (rb_name v) e)
                    | Inr version \<Rightarrow>
                        (let b = \<lparr>b_name = rb_name v, b_version = version, b_image = rb_image v,
                                  b_deprecated = False\<rparr>
                         in Inr (store_package s (rb_package v)
                              (p\<lparr>p_bundles := AList.update (rb_name v) b (p_bundles p)\<rparr>))))))
      else if schema = [] then Inl NoSchema
      else Inr s)"

section \<open>readFS\<close>

text \<open>
  The callback of the walk: a walk error is returned, a record is merged under the mutex; the
  first error ends the walk and is its result.
\<close>

fun walk_metas :: "'b codec \<Rightarrow> snapshot \<Rightarrow> (string + string \<times> 'b) list \<Rightarrow> read_error + snapshot" where
  "walk_metas cd s [] = Inr s"
| "walk_metas cd s (Inl e # evs) = Inl (WalkError e)"
| "walk_metas cd s (Inr (schema, blob) # evs) =
     (case add_meta cd s schema blob of Inl e \<Rightarrow> Inl e | Inr s' \<Rightarrow> walk_metas cd s' evs)"

fun missing_entry :: "package \<Rightarrow> channel \<Rightarrow> entry list \<Rightarrow> read_error option" where
  "missing_entry p ch [] = None"
| "missing_entry p ch (e # es) =
     (case map_of (p_bundles p) (e_name e) of
        None \<Rightarrow> Some (MissingBundle (ch_name ch) (p_name p) (e_name e))
      | Some _ \<Rightarrow> missing_entry p ch es)"

definition sort_entries :: "channel \<Rightarrow> channel" where
  "sort_entries ch = ch\<lparr>ch_entries := sort_slice (\<lambda>x y. e_name x < e_name y) (ch_entries ch)\<rparr>"

text \<open>The two nested ranges of the validation, over the given orders of the keys.\<close>

fun check_channels :: "package \<Rightarrow> string list \<Rightarrow> (string, channel) gomap \<Rightarrow> read_error + (string, channel) gomap" where
  "check_channels p [] chans = Inr chans"
| "check_channels p (n # ns) chans =
     (case map_of chans n of
        None \<Rightarrow> check_channels p ns chans
      | Some ch \<Rightarrow>
          (case missing_entry p ch (ch_entries ch) of
             Some e \<Rightarrow> Inl e
           | None \<Rightarrow> check_channels p ns (AList.update n (sort_entries ch) chans)))"

fun check_packages ::
  "(string list \<Rightarrow> string list) \<Rightarrow> string list \<Rightarrow> (string, package) gomap \<Rightarrow> read_error + (string, package) gomap" where
  "check_packages iter [] pkgs = Inr pkgs"
| "check_packages iter (n # ns) pkgs =
     (case map_of pkgs n of
        None \<Rightarrow> check_packages iter ns pkgs
      | Some p \<Rightarrow>
          if p_default_channel p = [] \<or> map_of (p_channels p) (p_default_channel p) = None
          then Inl (NoDefaultChannel (p_name p))
          else (case check_channels p (iter (map_keys (p_channels p))) (p_channels p) of
                  Inl e \<Rightarrow> Inl e
                | Inr chans \<Rightarrow> check_packages iter ns (AList.update n (p\<lparr>p_channels := chans\<rparr>) pkgs)))"

text \<open>\<open>ctx0\<close> and \<open>ctx1\<close> are what \<open>ctx.Err()\<close> returns before and after the walk.\<close>

definition read_fs ::
  "'b codec \<Rightarrow> (string list \<Rightarrow> string list) \<Rightarrow> string option \<Rightarrow> string option \<Rightarrow> time \<Rightarrow> source
     \<Rightarrow> (string + string \<times> 'b) list \<Rightarrow> read_error + snapshot" where
  "read_fs cd iter ctx0 ctx1 now source evs =
     (case ctx0 of
        Some e \<Rightarrow> Inl (ContextError e)
      | None \<Rightarrow>
          (case walk_metas cd \<lparr>sn_source = source, sn_generated_at = now, sn_packages = []\<rparr> evs of
             Inl e \<Rightarrow> Inl e
           | Inr s \<Rightarrow>
               (case ctx1 of
                  Some e \<Rightarrow> Inl (ContextError e)
                | None \<Rightarrow>
                    (case check_packages iter (iter (map_keys (sn_packages s))) (sn_packages s) of
                       Inl e \<Rightarrow> Inl e
                     | Inr pkgs \<Rightarrow> Inr (s\<lparr>sn_packages := pkgs\<rparr>)))))"

section \<open>Files\<close>

text \<open>
  A catalog file system: whether it implements \<open>fs.StatFS\<close>, its \<open>Stat\<close> and its \<open>Open\<close>.
  A mode is \<open>Dir\<close>, \<open>Regular\<close> or another type.
\<close>

datatype file_mode = Dir | Regular | Special string

datatype open_error = NeedsStatFS | FsError string | NotRegular string

record 'f catalog_fs =
  fs_has_stat :: bool
  fs_stat :: "string \<Rightarrow> string + file_mode"
  fs_open :: "string \<Rightarrow> string + 'f"

text \<open>\<open>regularCatalogFS.Open\<close>, with the list of the names it passed on to \<open>Open\<close>.\<close>

definition regular_open :: "'f catalog_fs \<Rightarrow> string \<Rightarrow> (open_error + 'f) \<times> string list" where
  "regular_open f name =
     (if \<not> fs_has_stat f then (Inl NeedsStatFS, [])
      else (case fs_stat f name of
              Inl e \<Rightarrow> (Inl (FsError e), [])
            | Inr (Special t) \<Rightarrow> (Inl (NotRegular t), [])
            | Inr _ \<Rightarrow> (case fs_open f name of Inl e \<Rightarrow> (Inl (FsError e), [name]) | Inr h \<Rightarrow> (Inr h, [name]))))"

text \<open>\<open>Reader\<close>, and the number of workers it walks with.\<close>

record reader =
  rd_signature_policy :: string
  rd_parse_concurrency :: int

definition parse_workers :: "reader \<Rightarrow> int" where
  "parse_workers r = (if rd_parse_concurrency r < 1 then 2 else rd_parse_concurrency r)"

text \<open>
  \<open>readExtracted\<close>: \<open>sub\<close> stands for \<open>os.OpenRoot\<close> and \<open>fs.Sub\<close> on the guarded root, whose
  walk with a number of workers yields the events.
\<close>

definition config_path :: "string \<Rightarrow> read_error + string" where
  "config_path configs =
     (let cp = path_clean (trim_left (CHR ''/'') configs)
      in if cp = ''.'' \<or> \<not> is_local cp then Inl PathTraversal else Inr cp)"

definition read_extracted ::
  "reader \<Rightarrow> 'b codec \<Rightarrow> (string list \<Rightarrow> string list) \<Rightarrow> string option \<Rightarrow> string option \<Rightarrow> time \<Rightarrow> source
     \<Rightarrow> (string \<Rightarrow> string + (int \<Rightarrow> (string + string \<times> 'b) list)) \<Rightarrow> string \<Rightarrow> read_error + snapshot" where
  "read_extracted r cd iter ctx0 ctx1 now source sub configs =
     (case config_path configs of
        Inl e \<Rightarrow> Inl e
      | Inr cp \<Rightarrow>
          (case sub cp of
             Inl e \<Rightarrow> Inl (OSError e)
           | Inr walk \<Rightarrow> read_fs cd iter ctx0 ctx1 now source (walk (parse_workers r))))"

text \<open>
  \<open>Reader.Read\<close>: the registry's operations are arguments; the list of effects records what was
  created and what the deferred calls released.
\<close>

datatype effect = CreateRegistry | Pull string | MakeTemp | Unpack string | RemoveTemp | DestroyRegistry

record registry =
  rg_new :: "(string \<times> string \<times> string) option \<Rightarrow> string option \<Rightarrow> string option"
    \<comment> \<open>containersimageregistry.New for a platform and a policy path; Some is its error\<close>
  rg_pull :: "string \<Rightarrow> string option"
  rg_labels :: "string \<Rightarrow> string + string option"
    \<comment> \<open>the configs label, if the labels hold it\<close>
  rg_mktemp :: "string option"
  rg_unpack :: "string \<Rightarrow> string option"

definition read_unpacked ::
  "registry \<Rightarrow> source \<Rightarrow> (string \<Rightarrow> read_error + snapshot) \<Rightarrow> (read_error + snapshot) \<times> effect list" where
  "read_unpacked rg source extracted =
     (case rg_pull rg (src_image source) of
        Some e \<Rightarrow> (Inl (PullError (src_image source) e), [Pull (src_image source)])
      | None \<Rightarrow>
          (case rg_labels rg (src_image source) of
             Inl e \<Rightarrow> (Inl (LabelError (src_image source) e), [Pull (src_image source)])
           | Inr None \<Rightarrow> (Inl (NotAFileBasedCatalog (src_image source)), [Pull (src_image source)])
           | Inr (Some configs) \<Rightarrow>
               (case rg_mktemp rg of
                  Some e \<Rightarrow> (Inl (OSError e), [Pull (src_image source)])
                | None \<Rightarrow>
                    (let res = (case rg_unpack rg (src_image source) of
                                  Some e \<Rightarrow> Inl (UnpackError (src_image source) e)
                                | None \<Rightarrow> extracted configs)
                     in (res, [Pull (src_image source), MakeTemp, Unpack (src_image source), RemoveTemp])))))"

definition reader_read ::
  "registry \<Rightarrow> reader \<Rightarrow> string option \<Rightarrow> source \<Rightarrow> (string \<Rightarrow> read_error + snapshot)
     \<Rightarrow> (read_error + snapshot) \<times> effect list" where
  "reader_read rg r ctx source extracted =
     (case ctx of
        Some e \<Rightarrow> (Inl (ContextError e), [])
      | None \<Rightarrow>
          if src_id source = [] \<or> src_image source = [] then (Inl SourceIncomplete, [])
          else (case (if src_platform source = [] then Inr None
                      else (case parse_platform (src_platform source) of
                              Inl e \<Rightarrow> Inl e | Inr q \<Rightarrow> Inr (Some q))) of
                  Inl e \<Rightarrow> (Inl e, [])
                | Inr plat \<Rightarrow>
                    (case rg_new rg plat (if rd_signature_policy r \<noteq> [] then Some (rd_signature_policy r) else None) of
                       Some e \<Rightarrow> (Inl (RegistryError e), [])
                     | None \<Rightarrow>
                         (case read_unpacked rg source extracted of
                            (res, effs) \<Rightarrow> (res, CreateRegistry # effs @ [DestroyRegistry])))))"

end
