(* ===== verification/Catalog_Merge.thy ===== *)
theory Catalog_Merge
  imports Catalog_Reader
begin

text \<open>
  What \<open>readFS\<close> establishes. A snapshot is read through its lookups (\<open>snapshot_view\<close>), a
  catalog record is one update of a view, and the walk is the fold of these updates. Updates
  of different records commute, so the order in which the concurrent walk delivers the
  records does not change the snapshot.
\<close>

section \<open>Views\<close>

type_synonym package_view =
  "string \<times> string \<times> (string \<Rightarrow> channel option) \<times> (string \<Rightarrow> olm_bundle option)"

definition package_view :: "package \<Rightarrow> package_view" where
  "package_view p = (p_name p, p_default_channel p, map_of (p_channels p), map_of (p_bundles p))"

definition snapshot_view :: "snapshot \<Rightarrow> string \<Rightarrow> package_view option" where
  "snapshot_view s n = map_option package_view (map_of (sn_packages s) n)"

section \<open>Records\<close>

datatype catalog_record =
    DefaultRecord string string
  | ChannelRecord string channel
  | BundleRecord string olm_bundle
  | OtherRecord

fun decode_record :: "'b codec \<Rightarrow> string + string \<times> 'b \<Rightarrow> read_error + catalog_record" where
  "decode_record cd (Inl e) = Inl (WalkError e)"
| "decode_record cd (Inr (schema, blob)) =
     (if schema = ''olm.package'' then
        (case dec_package cd blob of
           Inl e \<Rightarrow> Inl (JsonError e)
         | Inr v \<Rightarrow> if rp_name v = [] then Inl PackageWithoutName
                    else Inr (DefaultRecord (rp_name v) (rp_default_channel v)))
      else if schema = ''olm.channel'' then
        (case dec_channel cd blob of
           Inl e \<Rightarrow> Inl (JsonError e)
         | Inr v \<Rightarrow> if rc_package v = [] \<or> rc_name v = [] then Inl ChannelIncomplete
                    else Inr (ChannelRecord (rc_package v)
                           \<lparr>ch_name = rc_name v, ch_entries = rc_entries v, ch_deprecated = False\<rparr>))
      else if schema = ''olm.bundle'' then
        (case dec_bundle cd blob of
           Inl e \<Rightarrow> Inl (JsonError e)
         | Inr v \<Rightarrow>
             if rb_package v = [] \<or> rb_name v = [] then Inl BundleIncomplete
             else (case package_version cd (rb_properties v) of
                     Inl e \<Rightarrow> Inl (BundleVersionError (rb_name v) e)
                   | Inr version \<Rightarrow> Inr (BundleRecord (rb_package v)
                        \<lparr>b_name = rb_name v, b_version = version, b_image = rb_image v, b_deprecated = False\<rparr>)))
      else if schema = [] then Inl NoSchema
      else Inr OtherRecord)"

fun apply_record :: "catalog_record \<Rightarrow> snapshot \<Rightarrow> snapshot" where
  "apply_record (DefaultRecord n d) s = store_package s n ((ensure_package s n)\<lparr>p_default_channel := d\<rparr>)"
| "apply_record (ChannelRecord n c) s =
     (let p = ensure_package s n
      in store_package s n (p\<lparr>p_channels := AList.update (ch_name c) c (p_channels p)\<rparr>))"
| "apply_record (BundleRecord n b) s =
     (let p = ensure_package s n
      in store_package s n (p\<lparr>p_bundles := AList.update (b_name b) b (p_bundles p)\<rparr>))"
| "apply_record OtherRecord s = s"

text \<open>Whether a record is accepted does not depend on the snapshot.\<close>

lemma add_meta_record:
  "add_meta cd s schema blob =
     (case decode_record cd (Inr (schema, blob)) of Inl e \<Rightarrow> Inl e | Inr r \<Rightarrow> Inr (apply_record r s))"
  by (simp add: add_meta_def Let_def split: sum.splits)

definition records_of :: "'b codec \<Rightarrow> (string + string \<times> 'b) list \<Rightarrow> catalog_record list" where
  "records_of cd evs = map (\<lambda>ev. projr (decode_record cd ev)) evs"

lemma walk_metas_records:
  "walk_metas cd s evs = Inr s' \<longleftrightarrow>
     (\<forall>ev \<in> set evs. \<not> isl (decode_record cd ev)) \<and> s' = fold apply_record (records_of cd evs) s"
proof (induction cd s evs rule: walk_metas.induct)
  case (3 cd s schema blob evs)
  show ?case
  proof (cases "decode_record cd (Inr (schema, blob))")
    case (Inl e)
    then show ?thesis
      by (simp only: walk_metas.simps add_meta_record sum.case) (simp add: Inl del: decode_record.simps)
  next
    case (Inr r)
    then have "add_meta cd s schema blob = Inr (apply_record r s)"
      by (simp only: add_meta_record sum.case)
    then show ?thesis using 3 Inr
      by (simp add: records_of_def del: decode_record.simps)
  qed
qed (auto simp: records_of_def)

section \<open>A record as an update of the view\<close>

definition view_at :: "(string \<Rightarrow> package_view option) \<Rightarrow> string \<Rightarrow> package_view" where
  "view_at v n = (case v n of Some q \<Rightarrow> q | None \<Rightarrow> (n, [], (\<lambda>_. None), (\<lambda>_. None)))"

fun update_view :: "catalog_record \<Rightarrow> (string \<Rightarrow> package_view option) \<Rightarrow> string \<Rightarrow> package_view option" where
  "update_view (DefaultRecord n d) v = (case view_at v n of (nm, _, cs, bs) \<Rightarrow> v(n \<mapsto> (nm, d, cs, bs)))"
| "update_view (ChannelRecord n c) v =
     (case view_at v n of (nm, d, cs, bs) \<Rightarrow> v(n \<mapsto> (nm, d, cs(ch_name c \<mapsto> c), bs)))"
| "update_view (BundleRecord n b) v =
     (case view_at v n of (nm, d, cs, bs) \<Rightarrow> v(n \<mapsto> (nm, d, cs, bs(b_name b \<mapsto> b))))"
| "update_view OtherRecord v = v"

lemma view_store [simp]: "snapshot_view (store_package s n p) = (snapshot_view s)(n \<mapsto> package_view p)"
  by (auto simp: snapshot_view_def store_package_def fun_eq_iff)

lemma view_ensure: "view_at (snapshot_view s) n = package_view (ensure_package s n)"
  by (auto simp: view_at_def snapshot_view_def ensure_package_def new_package_def package_view_def
      split: option.splits)

lemma view_apply: "snapshot_view (apply_record r s) = update_view r (snapshot_view s)"
  by (cases r) (simp_all add: view_ensure Let_def package_view_def)

lemma view_fold: "snapshot_view (fold apply_record rs s) = fold update_view rs (snapshot_view s)"
  by (induction rs arbitrary: s) (simp_all add: view_apply)

text \<open>Two records address the same slot when a later one would overwrite the earlier one.\<close>

fun same_slot :: "catalog_record \<Rightarrow> catalog_record \<Rightarrow> bool" where
  "same_slot (DefaultRecord n d) (DefaultRecord n' d') = (n = n')"
| "same_slot (ChannelRecord n c) (ChannelRecord n' c') = (n = n' \<and> ch_name c = ch_name c')"
| "same_slot (BundleRecord n b) (BundleRecord n' b') = (n = n' \<and> b_name b = b_name b')"
| "same_slot _ _ = False"

definition no_conflict :: "'b codec \<Rightarrow> (string + string \<times> 'b) list \<Rightarrow> bool" where
  "no_conflict cd evs \<longleftrightarrow>
     (\<forall>r \<in> set (records_of cd evs). \<forall>r' \<in> set (records_of cd evs). same_slot r r' \<longrightarrow> r = r')"

lemma update_view_commute:
  assumes "\<not> same_slot r r'"
  shows "update_view r (update_view r' v) = update_view r' (update_view r v)"
proof (cases r; cases r')
qed (use assms in \<open>auto simp: view_at_def fun_upd_twist split: option.splits prod.splits\<close>)

lemma fold_views_perm:
  assumes nc: "no_conflict cd evs" and perm: "mset evs = mset evs'"
  shows "fold update_view (records_of cd evs) = fold update_view (records_of cd evs')"
proof (rule fold_multiset_equiv)
  show "mset (records_of cd evs) = mset (records_of cd evs')"
    using perm by (simp add: records_of_def)
  fix r r' assume "r \<in> set (records_of cd evs)" "r' \<in> set (records_of cd evs)"
  then have "r = r' \<or> \<not> same_slot r r'" using nc by (auto simp: no_conflict_def)
  then show "update_view r \<circ> update_view r' = update_view r' \<circ> update_view r"
    using update_view_commute by (auto simp: fun_eq_iff comp_def)
qed


section \<open>The validation\<close>

definition entries_stored :: "(string \<Rightarrow> olm_bundle option) \<Rightarrow> channel \<Rightarrow> bool" where
  "entries_stored bs ch \<longleftrightarrow> (\<forall>e \<in> set (ch_entries ch). bs (e_name e) \<noteq> None)"

definition complete_package :: "package_view \<Rightarrow> bool" where
  "complete_package q =
     (case q of (nm, d, cs, bs) \<Rightarrow> d \<noteq> [] \<and> cs d \<noteq> None \<and> (\<forall>n ch. cs n = Some ch \<longrightarrow> entries_stored bs ch))"

text \<open>A valid package as it is published: every channel with its entries in name order.\<close>

definition published :: "package_view \<Rightarrow> package_view" where
  "published q = (case q of (nm, d, cs, bs) \<Rightarrow> (nm, d, map_option sort_entries \<circ> cs, bs))"

lemma missing_entry_None:
  "missing_entry p ch es = None \<longleftrightarrow> (\<forall>e \<in> set es. map_of (p_bundles p) (e_name e) \<noteq> None)"
  by (induction es) (auto split: option.splits)

lemma missing_entry_stored:
  "missing_entry p ch (ch_entries ch) = None \<longleftrightarrow> entries_stored (map_of (p_bundles p)) ch"
  by (simp add: missing_entry_None entries_stored_def)

lemma map_keys_update_in [simp]:
  "map_of m k = Some v \<Longrightarrow> map fst (AList.update k w m) = map fst m"
  by (simp add: update_keys map_of_SomeD) (metis domI dom_map_of_conv_image_fst image_set)

lemma check_channels_outcome:
  "distinct ns \<Longrightarrow>
     (case check_channels p ns chans of
        Inl e \<Rightarrow> \<exists>n \<in> set ns. \<exists>ch. map_of chans n = Some ch \<and> \<not> entries_stored (map_of (p_bundles p)) ch
      | Inr chans' \<Rightarrow>
          (\<forall>n \<in> set ns. \<forall>ch. map_of chans n = Some ch \<longrightarrow> entries_stored (map_of (p_bundles p)) ch)
          \<and> map_keys chans' = map_keys chans
          \<and> (\<forall>n. map_of chans' n =
               (if n \<in> set ns then map_option sort_entries (map_of chans n) else map_of chans n)))"
proof (induction p ns chans rule: check_channels.induct)
  case (2 p n ns chans)
  show ?case
  proof (cases "map_of chans n")
    case None
    then show ?thesis using 2(1) [OF None] 2(3) by (auto split: sum.splits)
  next
    case (Some ch)
    show ?thesis
    proof (cases "missing_entry p ch (ch_entries ch)")
      case None
      then have "entries_stored (map_of (p_bundles p)) ch" by (simp add: missing_entry_stored)
      moreover have "check_channels p (n # ns) chans = check_channels p ns (AList.update n (sort_entries ch) chans)"
        using Some None by simp
      ultimately show ?thesis using 2(2) [OF Some None] 2(3) Some
        by (auto split: sum.splits if_splits)
    next
      case (Some e)
      then show ?thesis using \<open>map_of chans n = Some ch\<close> missing_entry_stored [of p ch] by auto
    qed
  qed
qed simp

lemma check_channels_complete:
  assumes "is_iter iter" and "map_ok (p_channels p)"
  shows "check_channels p (iter (map_keys (p_channels p))) (p_channels p) = Inr chans \<Longrightarrow>
      map_keys chans = map_keys (p_channels p)
      \<and> map_of chans = map_option sort_entries \<circ> map_of (p_channels p)
      \<and> (\<forall>n ch. map_of (p_channels p) n = Some ch \<longrightarrow> entries_stored (map_of (p_bundles p)) ch)"
    and "check_channels p (iter (map_keys (p_channels p))) (p_channels p) = Inl e \<Longrightarrow>
      \<exists>n ch. map_of (p_channels p) n = Some ch \<and> \<not> entries_stored (map_of (p_bundles p)) ch"
proof -
  let ?ns = "iter (map_keys (p_channels p))"
  have d: "distinct ?ns" using assms is_iter_distinct by blast
  have s: "n \<in> set ?ns \<longleftrightarrow> map_of (p_channels p) n \<noteq> None" for n
    using is_iter_set [OF assms(1), of "map_keys (p_channels p)"]
    by (simp add: map_of_eq_None_iff)
  note out = check_channels_outcome [OF d, where p = p and chans = "p_channels p"]
  {
    assume "check_channels p ?ns (p_channels p) = Inr chans"
    with out have o: "\<forall>n \<in> set ?ns. \<forall>ch. map_of (p_channels p) n = Some ch \<longrightarrow> entries_stored (map_of (p_bundles p)) ch"
      "map_keys chans = map_keys (p_channels p)"
      "\<And>n. map_of chans n = (if n \<in> set ?ns then map_option sort_entries (map_of (p_channels p) n) else map_of (p_channels p) n)"
      by auto
    have "map_of chans n = map_option sort_entries (map_of (p_channels p) n)" for n
      using o(3) [of n] s [of n] by (cases "map_of (p_channels p) n") auto
    moreover have "\<forall>n ch. map_of (p_channels p) n = Some ch \<longrightarrow> entries_stored (map_of (p_bundles p)) ch"
      using o(1) s by blast
    ultimately show "map_keys chans = map_keys (p_channels p)
      \<and> map_of chans = map_option sort_entries \<circ> map_of (p_channels p)
      \<and> (\<forall>n ch. map_of (p_channels p) n = Some ch \<longrightarrow> entries_stored (map_of (p_bundles p)) ch)"
      using o(2) by (simp add: fun_eq_iff)
  next
    assume "check_channels p ?ns (p_channels p) = Inl e"
    with out show "\<exists>n ch. map_of (p_channels p) n = Some ch \<and> \<not> entries_stored (map_of (p_bundles p)) ch"
      by auto
  }
qed

text \<open>The range over the packages, each of which has distinct channel names.\<close>

definition channels_ok :: "(string, package) gomap \<Rightarrow> bool" where
  "channels_ok pkgs \<longleftrightarrow> (\<forall>n p. map_of pkgs n = Some p \<longrightarrow> map_ok (p_channels p))"

definition finished_package :: "package \<Rightarrow> package \<Rightarrow> bool" where
  "finished_package p p' \<longleftrightarrow>
     complete_package (package_view p) \<and> package_view p' = published (package_view p)
     \<and> map_keys (p_channels p') = map_keys (p_channels p) \<and> p_bundles p' = p_bundles p"

lemma check_packages_step:
  assumes it: "is_iter iter" and ok: "channels_ok pkgs" and p: "map_of pkgs n = Some p"
  shows "(\<exists>e. check_packages iter (n # ns) pkgs = Inl e \<and> \<not> complete_package (package_view p))
     \<or> (\<exists>p'. finished_package p p'
          \<and> check_packages iter (n # ns) pkgs = check_packages iter ns (AList.update n p' pkgs))"
proof -
  have mok: "map_ok (p_channels p)" using ok p by (auto simp: channels_ok_def)
  show ?thesis
  proof (cases "p_default_channel p = [] \<or> map_of (p_channels p) (p_default_channel p) = None")
    case True
    then show ?thesis using p by (auto simp: complete_package_def package_view_def)
  next
    case nodef: False
    show ?thesis
    proof (cases "check_channels p (iter (map_keys (p_channels p))) (p_channels p)")
      case (Inl e)
      then have "\<not> complete_package (package_view p)"
        using check_channels_complete(2) [OF it mok Inl] by (auto simp: complete_package_def package_view_def)
      then show ?thesis using p nodef Inl by simp
    next
      case (Inr chans)
      note c = check_channels_complete(1) [OF it mok Inr]
      have "finished_package p (p\<lparr>p_channels := chans\<rparr>)"
        using c nodef by (auto simp: finished_package_def complete_package_def package_view_def published_def)
      moreover have "check_packages iter (n # ns) pkgs
          = check_packages iter ns (AList.update n (p\<lparr>p_channels := chans\<rparr>) pkgs)"
        using p nodef Inr by auto
      ultimately show ?thesis by blast
    qed
  qed
qed

lemma channels_ok_update:
  "channels_ok pkgs \<Longrightarrow> map_of pkgs n = Some p \<Longrightarrow> finished_package p p' \<Longrightarrow>
     channels_ok (AList.update n p' pkgs)"
  by (auto simp: channels_ok_def finished_package_def)

lemma check_packages_outcome:
  assumes "is_iter iter"
  shows "distinct ns \<Longrightarrow> channels_ok pkgs \<Longrightarrow>
     (case check_packages iter ns pkgs of
        Inl e \<Rightarrow> \<exists>n \<in> set ns. \<exists>p. map_of pkgs n = Some p \<and> \<not> complete_package (package_view p)
      | Inr pkgs' \<Rightarrow>
          map_keys pkgs' = map_keys pkgs
          \<and> (\<forall>n \<in> set ns. rel_option finished_package (map_of pkgs n) (map_of pkgs' n))
          \<and> (\<forall>n. n \<notin> set ns \<longrightarrow> map_of pkgs' n = map_of pkgs n))"
proof (induction ns arbitrary: pkgs)
  case (Cons n ns)
  show ?case
  proof (cases "map_of pkgs n")
    case None
    then have "check_packages iter (n # ns) pkgs = check_packages iter ns pkgs" by simp
    then show ?thesis using Cons.IH [of pkgs] Cons.prems None
      by (auto split: sum.splits)
  next
    case (Some p)
    consider e where "check_packages iter (n # ns) pkgs = Inl e" "\<not> complete_package (package_view p)"
      | p' where "finished_package p p'"
          "check_packages iter (n # ns) pkgs = check_packages iter ns (AList.update n p' pkgs)"
      using check_packages_step [OF assms Cons.prems(2) Some, of ns] by blast
    then show ?thesis
    proof cases
      case 1
      then show ?thesis using Some by auto
    next
      case 2
      have "channels_ok (AList.update n p' pkgs)"
        using channels_ok_update Cons.prems(2) Some 2(1) by blast
      note ih = Cons.IH [OF _ this]
      have nn: "n \<notin> set ns" "distinct ns" using Cons.prems(1) by auto
      have keys: "map_keys (AList.update n p' pkgs) = map_keys pkgs" using Some by simp
      show ?thesis
      proof (cases "check_packages iter ns (AList.update n p' pkgs)")
        case (Inl e)
        then obtain m q where "m \<in> set ns" "map_of (AList.update n p' pkgs) m = Some q"
          "\<not> complete_package (package_view q)" using ih [OF nn(2)] by auto
        moreover from this have "map_of pkgs m = Some q" using nn(1) by (auto split: if_splits)
        ultimately show ?thesis using 2(2) Inl by auto
      next
        case (Inr pkgs')
        then have o: "map_keys pkgs' = map_keys pkgs"
          "\<forall>m \<in> set ns. rel_option finished_package (map_of (AList.update n p' pkgs) m) (map_of pkgs' m)"
          "\<forall>m. m \<notin> set ns \<longrightarrow> map_of pkgs' m = map_of (AList.update n p' pkgs) m"
          using ih [OF nn(2)] keys by auto
        have "map_of pkgs' n = Some p'" using o(3) nn(1) by simp
        then have "\<forall>m \<in> set (n # ns). rel_option finished_package (map_of pkgs m) (map_of pkgs' m)"
          using o(2) nn(1) Some 2(1) by (auto split: if_splits)
        then show ?thesis using o 2(2) Inr by auto
      qed
    qed
  qed
qed simp

section \<open>Snapshots that readFS returns\<close>

text \<open>
  The invariant of the merge: packages are stored under their own names, which are not empty,
  each package is well-formed, and no record ever sets a deprecation flag.
\<close>

definition not_deprecated :: "package \<Rightarrow> bool" where
  "not_deprecated p \<longleftrightarrow>
     (\<forall>(k, c) \<in> set (p_channels p). \<not> ch_deprecated c) \<and> (\<forall>(k, b) \<in> set (p_bundles p). \<not> b_deprecated b)"

definition wf_snapshot :: "snapshot \<Rightarrow> bool" where
  "wf_snapshot s \<longleftrightarrow>
     map_ok (sn_packages s)
     \<and> (\<forall>(n, p) \<in> set (sn_packages s). p_name p = n \<and> n \<noteq> [] \<and> wf_package p \<and> not_deprecated p)"

lemma set_update_subset: "set (AList.update k v m) \<subseteq> insert (k, v) (set m)"
  by (induction m) auto

lemma wf_store:
  assumes "wf_snapshot s" "p_name p = n" "n \<noteq> []" "wf_package p" "not_deprecated p"
  shows "wf_snapshot (store_package s n p)"
  using assms set_update_subset [of n p "sn_packages s"] distinct_update [of "sn_packages s" n p]
  unfolding wf_snapshot_def store_package_def by fastforce

lemma wf_ensure:
  assumes "wf_snapshot s" "n \<noteq> []"
  shows "p_name (ensure_package s n) = n" "wf_package (ensure_package s n)" "not_deprecated (ensure_package s n)"
  using assms unfolding wf_snapshot_def ensure_package_def
  by (auto simp: new_package_def wf_package_def not_deprecated_def split: option.splits dest!: map_of_SomeD)

lemma wf_add_channel:
  assumes "wf_package p" "not_deprecated p" "ch_name c \<noteq> []" "\<not> ch_deprecated c"
  shows "wf_package (p\<lparr>p_channels := AList.update (ch_name c) c (p_channels p)\<rparr>)
       \<and> not_deprecated (p\<lparr>p_channels := AList.update (ch_name c) c (p_channels p)\<rparr>)"
  using assms set_update_subset [of "ch_name c" c "p_channels p"] distinct_update [of "p_channels p" "ch_name c" c]
  unfolding wf_package_def not_deprecated_def by fastforce

lemma wf_add_bundle:
  assumes "wf_package p" "not_deprecated p" "b_name b \<noteq> []" "\<not> b_deprecated b"
  shows "wf_package (p\<lparr>p_bundles := AList.update (b_name b) b (p_bundles p)\<rparr>)
       \<and> not_deprecated (p\<lparr>p_bundles := AList.update (b_name b) b (p_bundles p)\<rparr>)"
  using assms set_update_subset [of "b_name b" b "p_bundles p"] distinct_update [of "p_bundles p" "b_name b" b]
  unfolding wf_package_def not_deprecated_def by fastforce

fun good_record :: "catalog_record \<Rightarrow> bool" where
  "good_record (DefaultRecord n d) = (n \<noteq> [])"
| "good_record (ChannelRecord n c) = (n \<noteq> [] \<and> ch_name c \<noteq> [] \<and> \<not> ch_deprecated c)"
| "good_record (BundleRecord n b) = (n \<noteq> [] \<and> b_name b \<noteq> [] \<and> \<not> b_deprecated b)"
| "good_record OtherRecord = True"

lemma decode_record_good: "decode_record cd ev = Inr r \<Longrightarrow> good_record r"
proof (cases ev)
  case (Inr sb)
  obtain schema blob where sb: "sb = (schema, blob)" by (cases sb)
  assume "decode_record cd ev = Inr r"
  then show ?thesis unfolding Inr sb decode_record.simps
    by (auto split: if_splits sum.splits)
qed simp

lemma wf_apply: "wf_snapshot s \<Longrightarrow> good_record r \<Longrightarrow> wf_snapshot (apply_record r s)"
proof (cases r)
  case (DefaultRecord n d)
  assume wf: "wf_snapshot s" and g: "good_record r"
  then have n: "n \<noteq> []" using DefaultRecord by simp
  have "wf_package ((ensure_package s n)\<lparr>p_default_channel := d\<rparr>)
      \<and> not_deprecated ((ensure_package s n)\<lparr>p_default_channel := d\<rparr>)"
    using wf_ensure(2,3) [OF wf n] by (simp add: wf_package_def not_deprecated_def)
  then show ?thesis using wf_store [OF wf _ n] wf_ensure(1) [OF wf n] DefaultRecord by simp
next
  case (ChannelRecord n c)
  assume wf: "wf_snapshot s" and g: "good_record r"
  then have n: "n \<noteq> []" "ch_name c \<noteq> []" "\<not> ch_deprecated c" using ChannelRecord by auto
  show ?thesis
    using wf_add_channel [OF wf_ensure(2,3) [OF wf n(1)] n(2,3)] wf_store [OF wf _ n(1)]
      wf_ensure(1) [OF wf n(1)] ChannelRecord by (simp add: Let_def)
next
  case (BundleRecord n b)
  assume wf: "wf_snapshot s" and g: "good_record r"
  then have n: "n \<noteq> []" "b_name b \<noteq> []" "\<not> b_deprecated b" using BundleRecord by auto
  show ?thesis
    using wf_add_bundle [OF wf_ensure(2,3) [OF wf n(1)] n(2,3)] wf_store [OF wf _ n(1)]
      wf_ensure(1) [OF wf n(1)] BundleRecord by (simp add: Let_def)
qed simp

lemma wf_fold: "wf_snapshot s \<Longrightarrow> \<forall>r \<in> set rs. good_record r \<Longrightarrow> wf_snapshot (fold apply_record rs s)"
  by (induction rs arbitrary: s) (simp_all add: wf_apply)

lemma walk_metas_wf:
  assumes "wf_snapshot s" and w: "walk_metas cd s evs = Inr s'"
  shows "wf_snapshot s'"
proof -
  have *: "\<forall>ev \<in> set evs. \<not> isl (decode_record cd ev)" "s' = fold apply_record (records_of cd evs) s"
    using w walk_metas_records by blast+
  have "good_record r" if r: "r \<in> set (records_of cd evs)" for r
  proof -
    obtain ev where "ev \<in> set evs" "r = projr (decode_record cd ev)"
      using r unfolding records_of_def by auto
    then show ?thesis using *(1) decode_record_good sum.collapse(2) by metis
  qed
  then show ?thesis using wf_fold assms(1) *(2) by blast
qed


lemma read_fs_success:
  "read_fs cd iter ctx0 ctx1 now source evs = Inr s \<longleftrightarrow>
     ctx0 = None \<and> ctx1 = None
     \<and> (\<exists>s' pkgs. walk_metas cd \<lparr>sn_source = source, sn_generated_at = now, sn_packages = []\<rparr> evs = Inr s'
          \<and> check_packages iter (iter (map_keys (sn_packages s'))) (sn_packages s') = Inr pkgs
          \<and> s = s'\<lparr>sn_packages := pkgs\<rparr>)"
  by (auto simp: read_fs_def split: option.splits sum.splits)

lemma wf_empty_snapshot: "wf_snapshot \<lparr>sn_source = source, sn_generated_at = now, sn_packages = []\<rparr>"
  by (simp add: wf_snapshot_def)

lemma wf_channels_ok: "wf_snapshot s \<Longrightarrow> channels_ok (sn_packages s)"
  by (auto simp: wf_snapshot_def channels_ok_def wf_package_def dest!: map_of_SomeD)

text \<open>The merged view of a walk, and when \<open>readFS\<close> accepts it.\<close>

definition merged_view :: "'b codec \<Rightarrow> (string + string \<times> 'b) list \<Rightarrow> string \<Rightarrow> package_view option" where
  "merged_view cd evs = fold update_view (records_of cd evs) (\<lambda>_. None)"

definition accepted :: "'b codec \<Rightarrow> (string + string \<times> 'b) list \<Rightarrow> bool" where
  "accepted cd evs \<longleftrightarrow>
     (\<forall>ev \<in> set evs. \<not> isl (decode_record cd ev))
     \<and> (\<forall>n q. merged_view cd evs n = Some q \<longrightarrow> complete_package q)"

lemma walk_merged:
  assumes "walk_metas cd \<lparr>sn_source = source, sn_generated_at = now, sn_packages = []\<rparr> evs = Inr s"
  shows "snapshot_view s = merged_view cd evs" "sn_source s = source" "sn_generated_at s = now"
proof -
  let ?s0 = "\<lparr>sn_source = source, sn_generated_at = now, sn_packages = []\<rparr>"
  have s: "s = fold apply_record (records_of cd evs) ?s0"
    using assms walk_metas_records by blast
  have "snapshot_view ?s0 = (\<lambda>_. None)" by (simp add: snapshot_view_def fun_eq_iff)
  then show "snapshot_view s = merged_view cd evs"
    unfolding s view_fold merged_view_def by simp
  have "sn_source (apply_record r t) = sn_source t \<and> sn_generated_at (apply_record r t) = sn_generated_at t" for r t
    by (cases r) (simp_all add: store_package_def Let_def)
  then have "sn_source (fold apply_record rs t) = sn_source t
      \<and> sn_generated_at (fold apply_record rs t) = sn_generated_at t" for rs t
    by (induction rs arbitrary: t) simp_all
  then show "sn_source s = source" "sn_generated_at s = now" using s by simp_all
qed

lemma walk_check:
  assumes it: "is_iter iter" and wf: "wf_snapshot s"
  shows "(case check_packages iter (iter (map_keys (sn_packages s))) (sn_packages s) of
      Inl e \<Rightarrow> \<exists>n q. snapshot_view s n = Some q \<and> \<not> complete_package q
    | Inr pkgs \<Rightarrow> map_keys pkgs = map_keys (sn_packages s)
        \<and> (\<forall>n. rel_option finished_package (map_of (sn_packages s) n) (map_of pkgs n)))"
proof -
  let ?ns = "iter (map_keys (sn_packages s))"
  have "distinct ?ns" using wf it is_iter_distinct by (auto simp: wf_snapshot_def)
  moreover have mem: "n \<notin> set ?ns \<longleftrightarrow> map_of (sn_packages s) n = None" for n
    using is_iter_set [OF it, of "map_keys (sn_packages s)"] by (simp add: map_of_eq_None_iff)
  moreover note check_packages_outcome [OF it _ wf_channels_ok [OF wf], of ?ns]
  ultimately show ?thesis
  proof (cases "check_packages iter ?ns (sn_packages s)")
    case (Inl e)
    then obtain n p where "map_of (sn_packages s) n = Some p" "\<not> complete_package (package_view p)"
      using \<open>distinct ?ns\<close> check_packages_outcome [OF it _ wf_channels_ok [OF wf], of ?ns] by auto
    then have "snapshot_view s n = Some (package_view p) \<and> \<not> complete_package (package_view p)"
      by (simp add: snapshot_view_def)
    then show ?thesis unfolding Inl sum.case by blast
  next
    case (Inr pkgs)
    then have o: "map_keys pkgs = map_keys (sn_packages s)"
      "\<forall>n \<in> set ?ns. rel_option finished_package (map_of (sn_packages s) n) (map_of pkgs n)"
      "\<forall>n. n \<notin> set ?ns \<longrightarrow> map_of pkgs n = map_of (sn_packages s) n"
      using \<open>distinct ?ns\<close> check_packages_outcome [OF it _ wf_channels_ok [OF wf], of ?ns] by auto
    have "rel_option finished_package (map_of (sn_packages s) n) (map_of pkgs n)" for n
      using o(2,3) mem [of n] by (cases "n \<in> set ?ns") auto
    then show ?thesis using o(1) Inr by simp
  qed
qed


lemma walk_check_accepted:
  assumes it: "is_iter iter" and wf: "wf_snapshot s"
    and r: "check_packages iter (iter (map_keys (sn_packages s))) (sn_packages s) = Inr pkgs"
  shows "snapshot_view s n = Some q \<Longrightarrow> complete_package q"
    and "snapshot_view (s\<lparr>sn_packages := pkgs\<rparr>) = map_option published \<circ> snapshot_view s"
proof -
  have rel: "rel_option finished_package (map_of (sn_packages s) n) (map_of pkgs n)" for n
    using walk_check [OF it wf] r by simp
  show "snapshot_view s n = Some q \<Longrightarrow> complete_package q"
    using rel [of n] by (cases "map_of (sn_packages s) n"; cases "map_of pkgs n")
      (auto simp: snapshot_view_def finished_package_def)
  have "snapshot_view (s\<lparr>sn_packages := pkgs\<rparr>) n = map_option published (snapshot_view s n)" for n
    using rel [of n] by (cases "map_of (sn_packages s) n"; cases "map_of pkgs n")
      (auto simp: snapshot_view_def finished_package_def)
  then show "snapshot_view (s\<lparr>sn_packages := pkgs\<rparr>) = map_option published \<circ> snapshot_view s"
    by (simp add: fun_eq_iff)
qed

lemma wf_finished:
  assumes f: "finished_package p p'" and wf: "wf_package p" and nd: "not_deprecated p"
  shows "wf_package p' \<and> not_deprecated p' \<and> p_name p' = p_name p"
proof -
  have v: "p_name p' = p_name p" "map_of (p_channels p') = map_option sort_entries \<circ> map_of (p_channels p)"
    "p_bundles p' = p_bundles p" "map_keys (p_channels p') = map_keys (p_channels p)"
    using f by (auto simp: finished_package_def package_view_def published_def)
  have "ch_name c = k \<and> k \<noteq> [] \<and> \<not> ch_deprecated c" if "(k, c) \<in> set (p_channels p')" for k c
  proof -
    have "map_of (p_channels p') k = Some c"
      using that v(4) wf by (metis map_of_is_SomeI wf_package_def)
    then obtain c0 where "map_of (p_channels p) k = Some c0" "c = sort_entries c0" using v(2) by auto
    then show ?thesis using wf nd
      by (auto simp: wf_package_def not_deprecated_def sort_entries_def dest!: map_of_SomeD)
  qed
  then show ?thesis using v wf nd by (auto simp: wf_package_def not_deprecated_def)
qed

lemma read_fs_wf:
  assumes it: "is_iter iter" and r: "read_fs cd iter ctx0 ctx1 now source evs = Inr s"
  shows "wf_snapshot s"
proof -
  obtain s' pkgs where w: "walk_metas cd \<lparr>sn_source = source, sn_generated_at = now, sn_packages = []\<rparr> evs = Inr s'"
    and c: "check_packages iter (iter (map_keys (sn_packages s'))) (sn_packages s') = Inr pkgs"
    and s: "s = s'\<lparr>sn_packages := pkgs\<rparr>"
    using r read_fs_success by blast
  have wf: "wf_snapshot s'" by (rule walk_metas_wf [OF wf_empty_snapshot w])
  have o: "map_keys pkgs = map_keys (sn_packages s')"
    "\<And>n. rel_option finished_package (map_of (sn_packages s') n) (map_of pkgs n)"
    using walk_check [OF it wf] c by auto
  have ok: "map_ok pkgs" using o(1) wf by (simp add: wf_snapshot_def)
  have "p_name p = n \<and> n \<noteq> [] \<and> wf_package p \<and> not_deprecated p" if "(n, p) \<in> set pkgs" for n p
  proof -
    have "map_of pkgs n = Some p" using ok that by simp
    then obtain p0 where "map_of (sn_packages s') n = Some p0" "finished_package p0 p"
      using o(2) [of n] by (cases "map_of (sn_packages s') n") auto
    then show ?thesis using wf_finished wf by (auto simp: wf_snapshot_def dest!: map_of_SomeD)
  qed
  then show ?thesis using s ok by (auto simp: wf_snapshot_def)
qed

lemma sort_entries_sorted: "sorted (map e_name (ch_entries (sort_entries ch)))"
proof -
  have "sorted_by (\<lambda>x y. e_name x < e_name y) (ch_entries (sort_entries ch))"
    unfolding sort_entries_def using slice.sorted_srt weak_order_str_key by auto
  then have "sorted_wrt (\<lambda>x y. e_name x \<le> e_name y) (ch_entries (sort_entries ch))"
    by (simp add: sorted_by_def not_less)
  then show ?thesis by (simp add: sorted_wrt_map)
qed

lemma sort_entries_set: "set (ch_entries (sort_entries ch)) = set (ch_entries ch)"
  by (simp add: sort_entries_def slice.set_srt)

section \<open>Properties of readFS\<close>

text \<open>
  C10: A snapshot that \<open>readFS\<close> returns carries the requested source and the time of the read,
  every package, channel and bundle is stored once under its own non-empty name, the default
  channel of every package exists, every channel lists its entries in name order, and every entry
  names a stored bundle. No channel and no bundle is ever marked deprecated, whatever the records.
\<close>

theorem read_fs_sound:
  assumes it: "is_iter iter" and r: "read_fs cd iter ctx0 ctx1 now source evs = Inr s"
  shows "sn_source s = source \<and> sn_generated_at s = now \<and> wf_snapshot s
     \<and> (\<forall>n p. map_of (sn_packages s) n = Some p \<longrightarrow>
          p_default_channel p \<in> dom (map_of (p_channels p))
          \<and> (\<forall>c ch. map_of (p_channels p) c = Some ch \<longrightarrow>
               sorted (map e_name (ch_entries ch))
               \<and> (\<forall>e \<in> set (ch_entries ch). e_name e \<in> dom (map_of (p_bundles p)))))"
proof -
  obtain s' pkgs where w: "walk_metas cd \<lparr>sn_source = source, sn_generated_at = now, sn_packages = []\<rparr> evs = Inr s'"
    and c: "check_packages iter (iter (map_keys (sn_packages s'))) (sn_packages s') = Inr pkgs"
    and s: "s = s'\<lparr>sn_packages := pkgs\<rparr>"
    using r read_fs_success by blast
  have wf: "wf_snapshot s'" by (rule walk_metas_wf [OF wf_empty_snapshot w])
  have "p_default_channel p \<in> dom (map_of (p_channels p))
      \<and> (\<forall>c ch. map_of (p_channels p) c = Some ch \<longrightarrow>
           sorted (map e_name (ch_entries ch))
           \<and> (\<forall>e \<in> set (ch_entries ch). e_name e \<in> dom (map_of (p_bundles p))))"
    if p: "map_of (sn_packages s) n = Some p" for n p
  proof -
    have "snapshot_view s n = Some (package_view p)" using p by (simp add: snapshot_view_def)
    then obtain q where q: "snapshot_view s' n = Some q" "package_view p = published q"
      using walk_check_accepted(2) [OF it wf c] s by auto
    then show ?thesis using walk_check_accepted(1) [OF it wf c q(1)] sort_entries_sorted sort_entries_set
      by (auto simp: package_view_def published_def complete_package_def entries_stored_def)
  qed
  then show ?thesis using read_fs_wf [OF it r] walk_merged(2,3) [OF w] s by auto
qed

lemma read_fs_result:
  assumes it: "is_iter iter"
  shows "(case read_fs cd iter ctx0 ctx1 now source evs of
      Inl e \<Rightarrow> ctx0 \<noteq> None \<or> ctx1 \<noteq> None \<or> \<not> accepted cd evs
    | Inr s \<Rightarrow> ctx0 = None \<and> ctx1 = None \<and> accepted cd evs
        \<and> snapshot_view s = map_option published \<circ> merged_view cd evs)"
proof (cases "read_fs cd iter ctx0 ctx1 now source evs")
  case (Inr s)
  obtain s' pkgs where w: "walk_metas cd \<lparr>sn_source = source, sn_generated_at = now, sn_packages = []\<rparr> evs = Inr s'"
    and c: "check_packages iter (iter (map_keys (sn_packages s'))) (sn_packages s') = Inr pkgs"
    and s: "s = s'\<lparr>sn_packages := pkgs\<rparr>"
    and ctx: "ctx0 = None" "ctx1 = None"
    using iffD1 [OF read_fs_success Inr] by blast
  have wf: "wf_snapshot s'" by (rule walk_metas_wf [OF wf_empty_snapshot w])
  have "accepted cd evs"
    unfolding accepted_def walk_merged(1) [OF w, symmetric]
    using iffD1 [OF walk_metas_records w] walk_check_accepted(1) [OF it wf c] by blast
  then show ?thesis using Inr ctx walk_check_accepted(2) [OF it wf c] walk_merged(1) [OF w] s by simp
next
  case (Inl e)
  let ?s0 = "\<lparr>sn_source = source, sn_generated_at = now, sn_packages = []\<rparr>"
  have False if ctx: "ctx0 = None" "ctx1 = None" and acc: "accepted cd evs"
  proof -
    let ?s' = "fold apply_record (records_of cd evs) ?s0"
    have w: "walk_metas cd ?s0 evs = Inr ?s'"
      using acc walk_metas_records unfolding accepted_def by blast
    have wf: "wf_snapshot ?s'" by (rule walk_metas_wf [OF wf_empty_snapshot w])
    obtain pkgs where c: "check_packages iter (iter (map_keys (sn_packages ?s'))) (sn_packages ?s') = Inr pkgs"
    proof (cases "check_packages iter (iter (map_keys (sn_packages ?s'))) (sn_packages ?s')")
      case (Inl e')
      then obtain n q where "merged_view cd evs n = Some q" "\<not> complete_package q"
        using walk_check [OF it wf] walk_merged(1) [OF w] by auto
      then show ?thesis using acc unfolding accepted_def by blast
    qed
    have "read_fs cd iter ctx0 ctx1 now source evs = Inr (?s'\<lparr>sn_packages := pkgs\<rparr>)"
      using ctx w c read_fs_success by blast
    then show False using Inl by simp
  qed
  then show ?thesis using Inl by auto
qed

text \<open>
  C11: \<open>readFS\<close> is all or nothing, and its result is determined: it succeeds exactly when the
  context stays alive, the walk reports no error, every record decodes, and every merged package
  has its default channel and the bundles of its entries; then the snapshot is the merge of the
  records with the entries of every channel sorted.
\<close>

theorem read_fs_outcome:
  assumes it: "is_iter iter"
  shows "(case read_fs cd iter ctx0 ctx1 now source evs of
      Inl e \<Rightarrow> ctx0 \<noteq> None \<or> ctx1 \<noteq> None \<or> \<not> accepted cd evs
    | Inr s \<Rightarrow> ctx0 = None \<and> ctx1 = None \<and> accepted cd evs
        \<and> snapshot_view s = map_option published \<circ> merged_view cd evs)"
  using assms by (rule read_fs_result)

text \<open>
  C12: The order in which the concurrent walk delivers the records, and the order in which the
  runtime ranges over the maps, do not matter: when no two different records write the same slot,
  every permutation of the records is accepted together, and gives the same packages, channels and
  bundles.
\<close>

theorem read_fs_order:
  assumes "is_iter iter" and "is_iter iter'" and "no_conflict cd evs" and "mset evs = mset evs'"
    and "read_fs cd iter ctx0 ctx1 now source evs = Inr s"
  shows "\<exists>s'. read_fs cd iter' ctx0 ctx1 now source evs' = Inr s' \<and> snapshot_view s' = snapshot_view s"
proof -
  have m: "merged_view cd evs' = merged_view cd evs"
    using fold_views_perm [OF assms(3,4)] by (simp add: merged_view_def)
  have "set evs = set evs'" by (rule mset_eq_setD [OF assms(4)])
  then have "accepted cd evs' = accepted cd evs" using m by (simp add: accepted_def)
  then show ?thesis
    using read_fs_result [OF assms(1), of ctx0 ctx1 cd evs now source]
      read_fs_result [OF assms(2), of ctx0 ctx1 cd evs' now source] assms(5) m
    by (auto split: sum.splits)
qed

section \<open>The reader as a provider of snapshots\<close>

definition reader_reads :: "'b codec \<Rightarrow> (string list \<Rightarrow> string list) \<Rightarrow> source \<Rightarrow> snapshot \<Rightarrow> bool" where
  "reader_reads cd iter src snap \<longleftrightarrow> (\<exists>ctx0 ctx1 now evs. read_fs cd iter ctx0 ctx1 now src evs = Inr snap)"

interpretation fs_reader: snapshot_provider "reader_reads cd iter" for cd iter
proof
  fix src snap
  assume "reader_reads cd iter src snap"
  then obtain ctx0 ctx1 now evs where "read_fs cd iter ctx0 ctx1 now src evs = Inr snap"
    unfolding reader_reads_def by blast
  then show "sn_source snap = src" unfolding read_fs_success using walk_merged(2) by fastforce
qed

section \<open>A sample catalog\<close>

text \<open>Blobs are numbers, decoded by a table: a package, a channel of two entries and their bundles.\<close>

definition ex_codec :: "nat codec" where
  "ex_codec =
     \<lparr>dec_package = (\<lambda>b. if b = 0 then Inr \<lparr>rp_name = ''op'', rp_default_channel = ''stable''\<rparr> else Inl ''package''),
      dec_channel = (\<lambda>b. if b = 1 then Inr \<lparr>rc_package = ''op'', rc_name = ''stable'',
          rc_entries = [\<lparr>e_name = ''op.v2'', e_replaces = ''op.v1'', e_skips = [], e_skip_range = []\<rparr>,
                        \<lparr>e_name = ''op.v1'', e_replaces = [], e_skips = [], e_skip_range = []\<rparr>]\<rparr>
        else Inl ''channel''),
      dec_bundle = (\<lambda>b. if b = 2 \<or> b = 3 then Inr \<lparr>rb_name = (if b = 2 then ''op.v1'' else ''op.v2''),
          rb_package = ''op'', rb_image = ''img'', rb_properties = [\<lparr>pr_type = ''olm.package'', pr_value = b\<rparr>]\<rparr>
        else Inl ''bundle''),
      dec_version = (\<lambda>b. if b = 2 then Inr ''1.0.0'' else if b = 3 then Inr ''2.0.0'' else Inl ''version'')\<rparr>"

definition ex_source :: source where
  "ex_source = \<lparr>src_id = ''ops'', src_image = ''reg/ops:1'', src_platform = []\<rparr>"

definition ex_events :: "(string + string \<times> nat) list" where
  "ex_events = [Inr (''olm.channel'', 1), Inr (''olm.package'', 0), Inr (''olm.bundle'', 3),
     Inr (''olm.deprecations'', 7), Inr (''olm.bundle'', 2)]"

definition ex_snapshot :: snapshot where
  "ex_snapshot = \<lparr>sn_source = ex_source, sn_generated_at = 5, sn_packages =
     [(''op'', \<lparr>p_name = ''op'', p_default_channel = ''stable'',
        p_channels = [(''stable'', \<lparr>ch_name = ''stable'', ch_entries =
           [\<lparr>e_name = ''op.v1'', e_replaces = [], e_skips = [], e_skip_range = []\<rparr>,
            \<lparr>e_name = ''op.v2'', e_replaces = ''op.v1'', e_skips = [], e_skip_range = []\<rparr>],
           ch_deprecated = False\<rparr>)],
        p_bundles = [(''op.v2'', \<lparr>b_name = ''op.v2'', b_version = ''2.0.0'', b_image = ''img'', b_deprecated = False\<rparr>),
                     (''op.v1'', \<lparr>b_name = ''op.v1'', b_version = ''1.0.0'', b_image = ''img'', b_deprecated = False\<rparr>)]\<rparr>)]\<rparr>"

lemma ex_read: "read_fs ex_codec (\<lambda>xs. xs) None None 5 ex_source ex_events = Inr ex_snapshot"
  by code_simp

lemma ex_no_conflict: "no_conflict ex_codec ex_events"
  unfolding no_conflict_def by code_simp

theorem read_fs_sound_witness:
  "sn_source ex_snapshot = ex_source \<and> wf_snapshot ex_snapshot"
  using read_fs_sound [OF is_iter_id ex_read] by blast

theorem read_fs_outcome_witness:
  "accepted ex_codec ex_events"
  using read_fs_outcome [OF is_iter_id, of None None ex_codec ex_events 5 ex_source] ex_read by simp

theorem read_fs_order_witness:
  "\<exists>s. read_fs ex_codec rev None None 5 ex_source (rev ex_events) = Inr s
     \<and> snapshot_view s = snapshot_view ex_snapshot"
  by (rule read_fs_order [OF is_iter_id is_iter_rev ex_no_conflict _ ex_read]) simp

end
