(* ===== verification/Catalog_Access.thy ===== *)
theory Catalog_Access
  imports Catalog_Merge
begin

text \<open>
  How the reader reaches a catalog: the platform of a source, the confinement of the config path,
  the guard against special files, and the cleanup of \<open>Reader.Read\<close>.
\<close>

section \<open>Platforms\<close>

text \<open>A component of a platform: not empty and without the separator.\<close>

definition platform_part :: "string \<Rightarrow> bool" where
  "platform_part s \<longleftrightarrow> s \<noteq> [] \<and> CHR ''/'' \<notin> set s"

text \<open>
  \<open>parsePlatform\<close> accepts exactly \<open>os/architecture\<close> and \<open>os/architecture/variant\<close> with
  non-empty components, and returns these components; everything else is the error that names the
  value.
\<close>

lemma parse_platform_iff:
  "parse_platform value = Inr (sys, arch, variant) \<longleftrightarrow>
     platform_part sys \<and> platform_part arch
     \<and> ((variant = [] \<and> value = sys @ ''/'' @ arch)
        \<or> (platform_part variant \<and> value = sys @ ''/'' @ arch @ ''/'' @ variant))"
proof
  assume p: "parse_platform value = Inr (sys, arch, variant)"
  let ?ps = "split_on (CHR ''/'') value"
  have nosep: "\<forall>q \<in> set ?ps. CHR ''/'' \<notin> set q" using split_on_parts by blast
  have j: "value = join ''/'' ?ps" by (simp add: join_split_on)
  consider a b where "?ps = [a, b]" | a b c where "?ps = [a, b, c]" | "length ?ps < 2 \<or> 3 < length ?ps"
    by (cases ?ps; cases "tl ?ps"; cases "tl (tl ?ps)"; cases "tl (tl (tl ?ps))") auto
  then show "platform_part sys \<and> platform_part arch
     \<and> ((variant = [] \<and> value = sys @ ''/'' @ arch)
        \<or> (platform_part variant \<and> value = sys @ ''/'' @ arch @ ''/'' @ variant))"
  proof cases
    case 1
    then show ?thesis using p nosep j
      by (auto simp: parse_platform_def platform_part_def Let_def split: if_splits)
  next
    case 2
    then show ?thesis using p nosep j
      by (auto simp: parse_platform_def platform_part_def Let_def split: if_splits)
  next
    case 3
    then show ?thesis using p by (auto simp: parse_platform_def Let_def)
  qed
next
  assume *: "platform_part sys \<and> platform_part arch
     \<and> ((variant = [] \<and> value = sys @ ''/'' @ arch)
        \<or> (platform_part variant \<and> value = sys @ ''/'' @ arch @ ''/'' @ variant))"
  show "parse_platform value = Inr (sys, arch, variant)"
  proof (cases "variant = []")
    case True
    then have "split_on (CHR ''/'') value = [sys, arch]"
      using * split_on_append [of "CHR ''/''" sys arch] split_on_no_sep by (auto simp: platform_part_def)
    then show ?thesis using * True by (simp add: parse_platform_def platform_part_def Let_def)
  next
    case False
    then have "split_on (CHR ''/'') value = [sys, arch, variant]"
      using * split_on_append [of "CHR ''/''"] split_on_no_sep by (auto simp: platform_part_def)
    then show ?thesis using * False by (simp add: parse_platform_def platform_part_def Let_def)
  qed
qed

section \<open>Confinement\<close>

lemma plain_path:
  assumes plain: "list_all plain_elem es" and ne: "es \<noteq> []"
  shows "split_on (CHR ''/'') (join ''/'' es) = es" and "join ''/'' es \<noteq> []"
    and "\<not> is_rooted (join ''/'' es)"
proof -
  show parts: "split_on (CHR ''/'') (join ''/'' es) = es"
    by (rule split_on_join [OF ne]) (use plain in \<open>auto simp: list_all_iff plain_elem_def\<close>)
  obtain e rest where es: "es = e # rest" using ne by (cases es) auto
  then obtain c cs where e: "e = c # cs" "c \<noteq> CHR ''/''"
    using plain by (cases e) (auto simp: plain_elem_def)
  have "\<exists>t. join ''/'' es = c # t" using es e by (cases rest) auto
  then show "join ''/'' es \<noteq> []" "\<not> is_rooted (join ''/'' es)" using e(2) by (auto simp: is_rooted_def)
qed

lemma plain_path_clean:
  assumes plain: "list_all plain_elem es" and ne: "es \<noteq> []"
  shows "path_clean (join ''/'' es) = join ''/'' es" and "is_local (join ''/'' es)"
    and "join ''/'' es \<noteq> ''.''"
proof -
  note q = plain_path [OF plain ne]
  have "clean_elems False es = es" using clean_elems_clean [OF plain, of 0] by simp
  then show "path_clean (join ''/'' es) = join ''/'' es"
    using q unfolding path_clean_def Let_def by simp
  have nodots: "''.'' \<notin> set es" "''..'' \<notin> set es"
    using plain by (auto simp: list_all_iff plain_elem_def)
  have "join ''/'' es \<noteq> ''..''"
  proof
    assume "join ''/'' es = ''..''"
    then have "es = [''..'']" using q(1) by simp
    then show False using nodots(2) by simp
  qed
  moreover have "\<not> has_prefix (join ''/'' es) ''../''"
  proof
    assume "has_prefix (join ''/'' es) ''../''"
    then obtain t where "join ''/'' es = ''..'' @ CHR ''/'' # t" by (auto simp: has_prefix_iff)
    then have "es = ''..'' # split_on (CHR ''/'') t"
      using q(1) split_on_append [of "CHR ''/''" "''..''" t] by simp
    then show False using nodots(2) by simp
  qed
  ultimately show "is_local (join ''/'' es)"
    using q nodots unfolding is_local_def Let_def by simp
  show "join ''/'' es \<noteq> ''.''"
  proof
    assume "join ''/'' es = ''.''"
    then have "es = [''.'']" using q(1) by simp
    then show False using nodots(1) by simp
  qed
qed

lemma trim_left_slashes:
  "\<not> is_rooted q \<Longrightarrow> trim_left (CHR ''/'') (replicate k (CHR ''/'') @ q) = q"
  by (induction k) (auto simp: trim_left_def is_rooted_def split: list.splits)

text \<open>
  C14: The config path of an image is confined to the unpacked image: an accepted path is a
  non-empty sequence of plain elements (none empty, \<open>.\<close> or \<open>..\<close>); and every such path is
  accepted unchanged, with any number of leading slashes.
\<close>

theorem config_path_confined:
  "(config_path configs = Inr cp \<longrightarrow> (\<exists>es. cp = join ''/'' es \<and> es \<noteq> [] \<and> list_all plain_elem es))
   \<and> (es \<noteq> [] \<and> list_all plain_elem es \<longrightarrow>
        config_path (replicate k (CHR ''/'') @ join ''/'' es) = Inr (join ''/'' es))"
proof (intro conjI impI)
  assume "config_path configs = Inr cp"
  then have "cp = path_clean (trim_left (CHR ''/'') configs)" "cp \<noteq> ''.''" "is_local cp"
    by (auto simp: config_path_def Let_def split: if_splits)
  then show "\<exists>es. cp = join ''/'' es \<and> es \<noteq> [] \<and> list_all plain_elem es"
    using clean_local_plain [of "trim_left (CHR ''/'') configs"] by blast
next
  assume "es \<noteq> [] \<and> list_all plain_elem es"
  then have es: "list_all plain_elem es" "es \<noteq> []" by auto
  show "config_path (replicate k (CHR ''/'') @ join ''/'' es) = Inr (join ''/'' es)"
    using plain_path_clean [OF es] trim_left_slashes [OF plain_path(3) [OF es]]
    unfolding config_path_def Let_def by simp
qed

theorem config_path_confined_witness:
  "config_path ''//configs/prod'' = Inr ''configs/prod'' \<and> config_path ''a/../../etc'' = Inl PathTraversal"
proof
  have "list_all plain_elem [''configs'', ''prod'']" by (simp add: plain_elem_def)
  then show "config_path ''//configs/prod'' = Inr ''configs/prod''"
    using config_path_confined [of "''x''" "''x''" "[''configs'', ''prod'']" 2]
    by (simp add: numeral_2_eq_2)
  show "config_path ''a/../../etc'' = Inl PathTraversal" by code_simp
qed

text \<open>
  The guard of the catalog file system opens a file exactly when its mode, read without
  opening it, is a directory's or a regular file's: no FIFO, device or other special file is ever
  opened, whatever the wrapped file system does.
\<close>

lemma regular_open_safe:
  "(case regular_open f name of
      (res, opened) \<Rightarrow>
        (opened = (if fs_has_stat f \<and> fs_stat f name \<in> {Inr Dir, Inr Regular} then [name] else []))
        \<and> (\<forall>h. res = Inr h \<longleftrightarrow> opened = [name] \<and> fs_open f name = Inr h))"
  by (auto simp: regular_open_def split: sum.splits file_mode.splits)

section \<open>Reading an image\<close>

definition released :: "effect list \<Rightarrow> bool" where
  "released effs \<longleftrightarrow>
     (MakeTemp \<in> set effs \<longrightarrow> (\<exists>a b c. effs = a @ MakeTemp # b @ RemoveTemp # c))
     \<and> (CreateRegistry \<in> set effs \<longrightarrow> (\<exists>a. effs = CreateRegistry # a @ [DestroyRegistry]))"

lemma read_unpacked_effects:
  "(case read_unpacked rg source extracted of
      (res, effs) \<Rightarrow>
        (effs = [Pull (src_image source)] \<and> isl res)
        \<or> (effs = [Pull (src_image source), MakeTemp, Unpack (src_image source), RemoveTemp]
            \<and> (\<forall>s. res = Inr s \<longrightarrow>
                 (\<exists>configs. rg_labels rg (src_image source) = Inr (Some configs) \<and> extracted configs = Inr s))))"
  by (auto simp: read_unpacked_def Let_def split: option.splits sum.splits)

lemma reader_read_untouched:
  "(ctx = None \<and> src_id source \<noteq> [] \<and> src_image source \<noteq> []
      \<and> (src_platform source = [] \<or> validate_platform (src_platform source) = None)
      \<and> reader_read rg r ctx source extracted =
          (case read_unpacked rg source extracted of (res, effs) \<Rightarrow> (res, CreateRegistry # effs @ [DestroyRegistry])))
     \<or> (\<exists>e. reader_read rg r ctx source extracted = (Inl e, []))"
  by (simp add: reader_read_def validate_platform_def split: option.splits sum.splits if_splits)

text \<open>
  C16: \<open>Reader.Read\<close> releases what it acquires on every path: the temporary directory is removed
  after it was made, the registry is destroyed last, and nothing at all is touched when the context
  is done, the source is incomplete or its platform is invalid. A snapshot is returned only after
  the image was pulled, found to carry the config label and unpacked, and it is the one read from
  the labelled path.
\<close>

theorem reader_read_releases:
  "(case reader_read rg r ctx source extracted of
      (res, effs) \<Rightarrow>
        released effs
        \<and> (ctx \<noteq> None \<or> src_id source = [] \<or> src_image source = []
            \<or> (src_platform source \<noteq> [] \<and> validate_platform (src_platform source) \<noteq> None) \<longrightarrow> effs = [])
        \<and> (\<forall>s. res = Inr s \<longrightarrow>
             effs = [CreateRegistry, Pull (src_image source), MakeTemp, Unpack (src_image source),
                     RemoveTemp, DestroyRegistry]
             \<and> (\<exists>configs. rg_labels rg (src_image source) = Inr (Some configs) \<and> extracted configs = Inr s)))"
proof -
  obtain res effs where u: "read_unpacked rg source extracted = (res, effs)" by fastforce
  have u': "(effs = [Pull (src_image source)] \<and> isl res)
      \<or> (effs = [Pull (src_image source), MakeTemp, Unpack (src_image source), RemoveTemp]
          \<and> (\<forall>s. res = Inr s \<longrightarrow>
               (\<exists>configs. rg_labels rg (src_image source) = Inr (Some configs) \<and> extracted configs = Inr s)))"
    using read_unpacked_effects [where rg = rg and source = source and extracted = extracted] u by simp
  have rel: "released (CreateRegistry # effs @ [DestroyRegistry])"
    using u'
  proof
    assume "effs = [Pull (src_image source)] \<and> isl res"
    then show ?thesis unfolding released_def by simp
  next
    let ?full = "[CreateRegistry, Pull (src_image source)] @ MakeTemp # [Unpack (src_image source)] @ RemoveTemp # [DestroyRegistry]"
    assume "effs = [Pull (src_image source), MakeTemp, Unpack (src_image source), RemoveTemp]
          \<and> (\<forall>s. res = Inr s \<longrightarrow>
               (\<exists>configs. rg_labels rg (src_image source) = Inr (Some configs) \<and> extracted configs = Inr s))"
    then have "CreateRegistry # effs @ [DestroyRegistry] = ?full" by simp
    then show ?thesis unfolding released_def by blast
  qed
  consider e where "reader_read rg r ctx source extracted = (Inl e, [])"
    | "ctx = None" "src_id source \<noteq> []" "src_image source \<noteq> []"
      "src_platform source = [] \<or> validate_platform (src_platform source) = None"
      "reader_read rg r ctx source extracted = (res, CreateRegistry # effs @ [DestroyRegistry])"
    using reader_read_untouched [where rg = rg and r = r and ctx = ctx and source = source and extracted = extracted] u by auto
  then show ?thesis
  proof cases
    case 1
    then show ?thesis by (simp add: released_def)
  next
    case 2
    then show ?thesis using rel u' by auto
  qed
qed

definition ex_reader :: reader where
  "ex_reader = \<lparr>rd_signature_policy = [], rd_parse_concurrency = 0\<rparr>"

definition ex_registry :: registry where
  "ex_registry = \<lparr>rg_new = (\<lambda>_ _. None), rg_pull = (\<lambda>_. None), rg_labels = (\<lambda>_. Inr (Some ''/configs'')),
     rg_mktemp = None, rg_unpack = (\<lambda>img. if img = ''reg/ops:1'' then None else Some ''disk full'')\<rparr>"

lemma ex_reader_read:
  "reader_read ex_registry ex_reader None ex_source
     (read_extracted ex_reader ex_codec (\<lambda>xs. xs) None None 5 ex_source (\<lambda>cp. if cp = ''configs'' then Inr (\<lambda>_. ex_events) else Inl cp))
   = (Inr ex_snapshot, [CreateRegistry, Pull ''reg/ops:1'', MakeTemp, Unpack ''reg/ops:1'', RemoveTemp, DestroyRegistry])"
  by code_simp

theorem reader_read_releases_witness:
  "released [CreateRegistry, Pull ''reg/ops:1'', MakeTemp, Unpack ''reg/ops:1'', RemoveTemp, DestroyRegistry]
   \<and> (\<exists>configs. rg_labels ex_registry ''reg/ops:1'' = Inr (Some configs))"
  using reader_read_releases [where rg = ex_registry and r = ex_reader and ctx = None and source = ex_source and
      extracted = "read_extracted ex_reader ex_codec (\<lambda>xs. xs) None None 5 ex_source (\<lambda>cp. if cp = ''configs'' then Inr (\<lambda>_. ex_events) else Inl cp)"]
  unfolding ex_reader_read prod.case by (simp add: ex_source_def) blast

lemma ex_reader_cleanup:
  "reader_read ex_registry ex_reader None (ex_source\<lparr>src_image := ''reg/other:2''\<rparr>) (\<lambda>_. Inr ex_snapshot)
   = (Inl (UnpackError ''reg/other:2'' ''disk full''),
      [CreateRegistry, Pull ''reg/other:2'', MakeTemp, Unpack ''reg/other:2'', RemoveTemp, DestroyRegistry])"
  by code_simp

end
