(* ===== verification/Service_Config.thy ===== *)
theory Service_Config
  imports Catalog_Reader "HOL-Library.Word"
begin

text \<open>
  The effective configuration of the service (\<open>Config\<close> of \<^verbatim>\<open>internal/service/service.go\<close>), its
  look-ups, and the catalog version pattern that the configuration and the HTTP API share. A
  \<open>time.Duration\<close> is the 64-bit signed count of nanoseconds that Go has.
\<close>

section \<open>Durations\<close>

type_synonym duration = "64 word"

abbreviation nanos :: "duration \<Rightarrow> int" where
  "nanos d \<equiv> sint d"

definition seconds :: "int \<Rightarrow> duration" where
  "seconds n = word_of_int (n * 1000000000)"

definition hours :: "int \<Rightarrow> duration" where
  "hours n = seconds (n * 3600)"

definition default_max_snapshot_age :: duration where
  "default_max_snapshot_age = hours 24"

lemma duration_defaults [simp]:
  "nanos (hours 24) = 86400000000000"
  "nanos (hours 6) = 21600000000000"
  "nanos (seconds 1800) = 1800000000000"
  "nanos (seconds 30) = 30000000000"
  by (simp_all add: hours_def seconds_def)

text \<open>Subtraction of two positive durations does not wrap.\<close>

lemma nanos_diff:
  assumes "0 < nanos a" and "0 < nanos b"
  shows "nanos (a - b) = nanos a - nanos b"
proof -
  have "nanos a < 2 ^ 63" "nanos b < 2 ^ 63"
    using sint_lt [of a] sint_lt [of b] by simp_all
  then show ?thesis using assms
    by (simp add: sint_word_ariths(2)) (subst signed_take_bit_int_eq_self; simp)
qed

section \<open>The configuration\<close>

record service_config =
  sc_sources :: "source list"
  sc_refresh_interval :: duration
  sc_refresh_timeout :: duration
  sc_max_snapshot_age :: duration
  sc_signature_policy :: string
  sc_parse_concurrency :: int
  sc_refresh_token_file :: string
  sc_graph_url :: string
  sc_openshift_timeout :: duration

fun current_source :: "source list \<Rightarrow> source \<Rightarrow> bool" where
  "current_source [] s = False"
| "current_source (c # cs) s = (if c = s then True else current_source cs s)"

fun source_by_id :: "source list \<Rightarrow> string \<Rightarrow> source option" where
  "source_by_id [] i = None"
| "source_by_id (c # cs) i = (if src_id c = i then Some c else source_by_id cs i)"

lemma current_source_iff [simp]: "current_source cs s \<longleftrightarrow> s \<in> set cs"
  by (induction cs) auto

lemma source_by_id_Some: "source_by_id cs i = Some s \<Longrightarrow> s \<in> set cs \<and> src_id s = i"
  by (induction cs) (auto split: if_splits)

lemma source_by_id_None: "source_by_id cs i = None \<longleftrightarrow> i \<notin> src_id ` set cs"
  by (induction cs) auto

lemma source_by_id_distinct:
  "distinct (map src_id cs) \<Longrightarrow> s \<in> set cs \<Longrightarrow> source_by_id cs (src_id s) = Some s"
  by (induction cs) (auto simp: image_iff)

text \<open>\<open>sourcesByID\<close>: a later source of the same id wins.\<close>

definition sources_by_id :: "source list \<Rightarrow> (string, source) gomap" where
  "sources_by_id sources = fold (\<lambda>s m. AList.update (src_id s) s m) sources []"

definition source_changes :: "service_config \<Rightarrow> service_config \<Rightarrow> string list" where
  "source_changes previous nxt =
     (let old = sources_by_id (sc_sources previous)
      in map src_id (filter (\<lambda>s. case map_of old (src_id s) of None \<Rightarrow> True | Some existing \<Rightarrow> existing \<noteq> s)
           (sc_sources nxt)))"

lemma fold_sources_by_id:
  "distinct (map src_id cs) \<Longrightarrow>
     map_of (fold (\<lambda>s m. AList.update (src_id s) s m) cs m) i
       = (case source_by_id cs i of Some s \<Rightarrow> Some s | None \<Rightarrow> map_of m i)"
proof (induction cs arbitrary: m)
  case (Cons c cs)
  then have "src_id c \<notin> src_id ` set cs" "distinct (map src_id cs)" by auto
  moreover from this have "source_by_id cs (src_id c) = None" by (simp add: source_by_id_None)
  ultimately show ?case using Cons.IH by (cases "src_id c = i") (auto split: option.splits)
qed simp

lemma sources_by_id_lookup:
  "distinct (map src_id cs) \<Longrightarrow> map_of (sources_by_id cs) i = source_by_id cs i"
  by (simp add: sources_by_id_def fold_sources_by_id split: option.splits)

lemma source_changes_distinct:
  assumes "distinct (map src_id (sc_sources previous))"
  shows "source_changes previous nxt = map src_id (filter (\<lambda>s. s \<notin> set (sc_sources previous)) (sc_sources nxt))"
proof -
  have "(case map_of (sources_by_id (sc_sources previous)) (src_id s) of None \<Rightarrow> True | Some e \<Rightarrow> e \<noteq> s)
      \<longleftrightarrow> s \<notin> set (sc_sources previous)" for s
  proof (cases "source_by_id (sc_sources previous) (src_id s)")
    case None
    then have "s \<notin> set (sc_sources previous)" by (auto simp: source_by_id_None)
    then show ?thesis using None by (simp add: sources_by_id_lookup [OF assms])
  next
    case (Some e)
    then have "e \<in> set (sc_sources previous)" using source_by_id_Some by blast
    moreover have "s \<in> set (sc_sources previous) \<Longrightarrow> e = s"
      using source_by_id_distinct [OF assms, of s] Some by simp
    ultimately show ?thesis using Some by (auto simp: sources_by_id_lookup [OF assms])
  qed
  then show ?thesis by (simp add: source_changes_def Let_def)
qed

section \<open>The catalog version pattern\<close>

text \<open>\<open>^v?([1-9][0-9]*)\.(0|[1-9][0-9]*)$\<close>, with the two groups.\<close>

definition positive_number :: "string \<Rightarrow> bool" where
  "positive_number s =
     (case s of [] \<Rightarrow> False | c # cs \<Rightarrow> is_digit c \<and> c \<noteq> CHR ''0'' \<and> list_all is_digit cs)"

definition match_catalog_version :: "string \<Rightarrow> (string \<times> string) option" where
  "match_catalog_version s =
     (case cut_byte (CHR ''.'') (trim_prefix s ''v'') of
        (_, None) \<Rightarrow> None
      | (mj, Some mn) \<Rightarrow>
          if positive_number mj \<and> (mn = ''0'' \<or> positive_number mn) then Some (mj, mn) else None)"

lemma positive_number_chars: "positive_number s \<Longrightarrow> CHR ''.'' \<notin> set s \<and> hd s \<noteq> CHR ''v'' \<and> s \<noteq> []"
  by (cases s) (auto simp: positive_number_def is_digit_def list_all_iff)

lemma match_catalog_version_iff:
  "match_catalog_version s = Some (mj, mn) \<longleftrightarrow>
     (s = mj @ ''.'' @ mn \<or> s = ''v'' @ mj @ ''.'' @ mn)
     \<and> positive_number mj \<and> (mn = ''0'' \<or> positive_number mn)"
proof
  assume "match_catalog_version s = Some (mj, mn)"
  then have c: "cut_byte (CHR ''.'') (trim_prefix s ''v'') = (mj, Some mn)"
    and n: "positive_number mj \<and> (mn = ''0'' \<or> positive_number mn)"
    by (auto simp: match_catalog_version_def split: prod.splits option.splits if_splits)
  have "trim_prefix s ''v'' = mj @ CHR ''.'' # mn" using c cut_byte_Some by blast
  moreover have "s = trim_prefix s ''v'' \<or> s = ''v'' @ trim_prefix s ''v''"
    by (cases s) (auto simp: trim_prefix_def has_prefix_def)
  ultimately show "(s = mj @ ''.'' @ mn \<or> s = ''v'' @ mj @ ''.'' @ mn)
     \<and> positive_number mj \<and> (mn = ''0'' \<or> positive_number mn)" using n by auto
next
  assume a: "(s = mj @ ''.'' @ mn \<or> s = ''v'' @ mj @ ''.'' @ mn)
     \<and> positive_number mj \<and> (mn = ''0'' \<or> positive_number mn)"
  then have p: "CHR ''.'' \<notin> set mj" "hd mj \<noteq> CHR ''v''" "mj \<noteq> []"
    using positive_number_chars by auto
  have "trim_prefix s ''v'' = mj @ CHR ''.'' # mn"
    using a p by (cases mj) (auto simp: trim_prefix_def has_prefix_def)
  then show "match_catalog_version s = Some (mj, mn)"
    using a p cut_byte_found by (simp add: match_catalog_version_def)
qed

end
