(* ===== verification/Service_State.thy ===== *)
theory Service_State
  imports Service_Config
begin

text \<open>
  The state of the service (\<open>Service\<close> of \<^verbatim>\<open>internal/service/service.go\<close>) with the records that
  its lookups of OpenShift releases keep (\<^verbatim>\<open>snapshot.go\<close>), and the freshness rule. A point in time
  is a number of nanoseconds since Go's zero time; \<open>Time.Sub\<close> saturates at the bounds of a
  duration.
\<close>

section \<open>OpenShift requests and releases\<close>

record os_request =
  rq_channel :: string
  rq_architecture :: string
  rq_current_version :: string
  rq_lag :: int

record release =
  rl_version :: string
  rl_deprecated :: bool
  rl_changelog :: string
  rl_changelog_url :: string
  rl_digest :: string

record os_snapshot =
  os_releases :: "release list"
  os_generated_at :: time
  os_attempt :: nat

record os_lookup =
  lk_pending :: int
  lk_latest :: nat

section \<open>The service\<close>

record source_status =
  st_source :: source
  st_available :: bool
  st_refreshing :: bool
  st_last_attempt :: time
  st_last_success :: time
  st_last_error :: string
  st_package_count :: nat
  st_stale :: bool
  st_age :: int

definition zero_time :: time where
  "zero_time = 0"

definition zero_source :: source where
  "zero_source = \<lparr>src_id = [], src_image = [], src_platform = []\<rparr>"

definition zero_status :: source_status where
  "zero_status = \<lparr>st_source = zero_source, st_available = False, st_refreshing = False,
     st_last_attempt = zero_time, st_last_success = zero_time, st_last_error = [], st_package_count = 0,
     st_stale = False, st_age = 0\<rparr>"

text \<open>
  \<open>openShiftInFlight\<close> holds pointers: \<open>sv_heap\<close> is the store they point into, a list indexed by address. The two counters
  are 64-bit unsigned integers, kept below \<open>2 ^ 64\<close>. The maps \<open>queued\<close> and \<open>running\<close>, whose
  stored values are always true, are the sets of their keys.
\<close>

record service =
  sv_cfg :: service_config
  sv_snapshots :: "(string, snapshot) gomap"
  sv_statuses :: "(string, source_status) gomap"
  sv_queued :: "string set"
  sv_running :: "string set"
  sv_os_snapshots :: "(os_request, os_snapshot) gomap"
  sv_in_flight :: "(os_request, nat) gomap"
  sv_heap :: "os_lookup list"
  sv_attempt :: nat
  sv_generation :: nat

definition new_service :: "service_config \<Rightarrow> service" where
  "new_service cfg = \<lparr>sv_cfg = cfg, sv_snapshots = [], sv_statuses = [], sv_queued = {}, sv_running = {},
     sv_os_snapshots = [], sv_in_flight = [], sv_heap = [], sv_attempt = 0, sv_generation = 0\<rparr>"

definition wrap64 :: "nat \<Rightarrow> nat" where
  "wrap64 n = n mod 2 ^ 64"

text \<open>For the evaluation of samples, which computes with \<open>nat\<close> in unary.\<close>

lemma wrap64_code [code]: "wrap64 n = (if int n < 18446744073709551616 then n else nat (int n mod 18446744073709551616))"
  by (simp add: wrap64_def nat_mod_as_int)

definition current_source_locked :: "service \<Rightarrow> source \<Rightarrow> bool" where
  "current_source_locked s src = current_source (sc_sources (sv_cfg s)) src"

definition source_locked :: "service \<Rightarrow> string \<Rightarrow> source option" where
  "source_locked s i = source_by_id (sc_sources (sv_cfg s)) i"

text \<open>Reading a missing key of \<open>statuses\<close> gives the zero value.\<close>

definition status_of :: "service \<Rightarrow> string \<Rightarrow> source_status" where
  "status_of s i = (case map_of (sv_statuses s) i of Some st \<Rightarrow> st | None \<Rightarrow> zero_status)"

definition put_status :: "string \<Rightarrow> source_status \<Rightarrow> service \<Rightarrow> service" where
  "put_status i st s = s\<lparr>sv_statuses := AList.update i st (sv_statuses s)\<rparr>"

definition active :: "service \<Rightarrow> string \<Rightarrow> bool" where
  "active s i \<longleftrightarrow> i \<in> sv_running s \<or> i \<in> sv_queued s"

section \<open>Freshness\<close>

definition time_sub :: "time \<Rightarrow> time \<Rightarrow> int" where
  "time_sub a b = max (- (2 ^ 63)) (min (2 ^ 63 - 1) (a - b))"

definition effective_max_age :: "service_config \<Rightarrow> duration" where
  "effective_max_age cfg = (if nanos (sc_max_snapshot_age cfg) \<le> 0 then default_max_snapshot_age else sc_max_snapshot_age cfg)"

definition snapshot_acceptable :: "service_config \<Rightarrow> time \<Rightarrow> time \<Rightarrow> bool" where
  "snapshot_acceptable cfg now generated \<longleftrightarrow>
     generated \<noteq> zero_time \<and> time_sub now generated \<le> nanos (effective_max_age cfg)"

text \<open>
  \<open>freshStatusLocked\<close>, with the two readings of the clock it makes; the age is kept in nanoseconds.
\<close>

definition fresh_status :: "service \<Rightarrow> time \<Rightarrow> time \<Rightarrow> source_status \<Rightarrow> source_status" where
  "fresh_status s now1 now2 st =
     (case map_of (sv_snapshots s) (src_id (st_source st)) of
        None \<Rightarrow> st\<lparr>st_available := False, st_stale := False\<rparr>
      | Some snap \<Rightarrow>
          (let ok = snapshot_acceptable (sv_cfg s) now1 (sn_generated_at snap)
           in st\<lparr>st_available := ok, st_stale := \<not> ok, st_last_success := sn_generated_at snap,
                 st_age := max 0 (time_sub now2 (sn_generated_at snap)),
                 st_package_count := length (sn_packages snap)\<rparr>))"

text \<open>
  The loop of \<open>ready\<close>; \<open>clock c\<close> is the time read when source \<open>c\<close> is examined.
\<close>

fun all_ready :: "service \<Rightarrow> (source \<Rightarrow> time) \<Rightarrow> source list \<Rightarrow> bool" where
  "all_ready s clock [] = True"
| "all_ready s clock (c # cs) =
     (case map_of (sv_snapshots s) (src_id c) of
        None \<Rightarrow> False
      | Some snap \<Rightarrow>
          if sn_source snap \<noteq> c \<or> \<not> snapshot_acceptable (sv_cfg s) (clock c) (sn_generated_at snap) then False
          else all_ready s clock cs)"

definition ready :: "service \<Rightarrow> (source \<Rightarrow> time) \<Rightarrow> bool" where
  "ready s clock \<longleftrightarrow> sc_sources (sv_cfg s) \<noteq> [] \<and> all_ready s clock (sc_sources (sv_cfg s))"

lemma all_ready_iff:
  "all_ready s clock cs \<longleftrightarrow>
     (\<forall>c \<in> set cs. \<exists>snap. map_of (sv_snapshots s) (src_id c) = Some snap \<and> sn_source snap = c
        \<and> snapshot_acceptable (sv_cfg s) (clock c) (sn_generated_at snap))"
  by (induction cs) (auto split: option.splits)

lemma effective_max_age_pos: "0 < nanos (effective_max_age cfg)"
  by (simp add: effective_max_age_def default_max_snapshot_age_def)

text \<open>The saturation matters for the greatest duration only, which every age then satisfies.\<close>

lemma snapshot_acceptable_iff:
  assumes "nanos (effective_max_age cfg) < 2 ^ 63 - 1"
  shows "snapshot_acceptable cfg now generated \<longleftrightarrow>
     generated \<noteq> zero_time \<and> now - generated \<le> nanos (effective_max_age cfg)"
  using assms effective_max_age_pos [of cfg]
  by (auto simp: snapshot_acceptable_def time_sub_def min_def split: if_splits)

end
