(* ===== verification/Service_Refresh.thy ===== *)
theory Service_Refresh
  imports Service_State Catalog_Merge "HOL-Library.Multiset"
begin

text \<open>
  The refresh of catalogs in \<^verbatim>\<open>internal/service/service.go\<close>. Every section the code runs under the
  mutex is one definition on the state (\<open>markAttempt\<close>, \<open>markFailure\<close>, the publication in
  \<open>refresh\<close>, \<open>QueueRefresh\<close>, the two sections of \<open>refreshQueued\<close>, \<open>finishQueued\<close> and
  \<open>Reload\<close>). A goroutine is a datatype of its program points between these sections, and
  the service a multiset of goroutines that share the state and the semaphore.
\<close>

section \<open>Sections under the mutex\<close>

definition mark_attempt :: "source \<Rightarrow> time \<Rightarrow> service \<Rightarrow> service" where
  "mark_attempt src now s =
     (if \<not> current_source_locked s src then s
      else put_status (src_id src)
        ((status_of s (src_id src))\<lparr>st_source := src, st_last_attempt := now, st_refreshing := active s (src_id src)\<rparr>) s)"

definition mark_failure :: "source \<Rightarrow> string \<Rightarrow> service \<Rightarrow> service" where
  "mark_failure src err s =
     (if \<not> current_source_locked s src then s
      else put_status (src_id src)
        ((status_of s (src_id src))\<lparr>st_source := src, st_last_error := err, st_refreshing := active s (src_id src),
           st_available := (map_of (sv_snapshots s) (src_id src) \<noteq> None)\<rparr>) s)"

definition publish :: "source \<Rightarrow> snapshot \<Rightarrow> time \<Rightarrow> service \<Rightarrow> service" where
  "publish src snap now s =
     (if \<not> current_source_locked s src then s
      else put_status (src_id src)
        \<lparr>st_source = src, st_available = True, st_refreshing = active s (src_id src),
         st_last_attempt = st_last_attempt (status_of s (src_id src)), st_last_success = now, st_last_error = [],
         st_package_count = length (sn_packages snap), st_stale = False, st_age = 0\<rparr>
        (s\<lparr>sv_snapshots := AList.update (src_id src) (snap\<lparr>sn_generated_at := now\<rparr>) (sv_snapshots s)\<rparr>))"

text \<open>\<open>refresh\<close> without interference, for one outcome of the read (and of \<open>ctx.Err()\<close> after it).\<close>

definition refresh :: "source \<Rightarrow> time \<Rightarrow> string + snapshot \<Rightarrow> time \<Rightarrow> service \<Rightarrow> string option \<times> service" where
  "refresh src now1 res now2 s =
     (case res of
        Inl e \<Rightarrow> (Some e, mark_failure src e (mark_attempt src now1 s))
      | Inr snap \<Rightarrow> (None, publish src snap now2 (mark_attempt src now1 s)))"

text \<open>The third component tells whether a goroutine was started.\<close>

definition queue_refresh :: "string \<Rightarrow> service \<Rightarrow> service \<times> (string \<times> bool) \<times> bool" where
  "queue_refresh i s =
     (case source_locked s i of
        None \<Rightarrow> (s, ([], False), False)
      | Some src \<Rightarrow>
          if i \<in> sv_running s then (s, (''running'', True), False)
          else if i \<in> sv_queued s then (s, (''queued'', True), False)
          else (put_status i ((status_of s i)\<lparr>st_source := src, st_refreshing := True\<rparr>)
                  (s\<lparr>sv_queued := insert i (sv_queued s)\<rparr>), (''queued'', True), True))"

definition begin_queued :: "string \<Rightarrow> service \<Rightarrow> service \<times> source option" where
  "begin_queued i s =
     (let s1 = s\<lparr>sv_queued := sv_queued s - {i}\<rparr> in
      case source_locked s1 i of
        None \<Rightarrow> (s1, None)
      | Some src \<Rightarrow> (s1\<lparr>sv_running := insert i (sv_running s1)\<rparr>, Some src))"

definition stop_refreshing :: "string \<Rightarrow> service \<Rightarrow> service" where
  "stop_refreshing i s =
     (case map_of (sv_statuses s) i of
        None \<Rightarrow> s
      | Some st \<Rightarrow> put_status i (st\<lparr>st_refreshing := False\<rparr>) s)"

definition end_queued :: "string \<Rightarrow> source \<Rightarrow> service \<Rightarrow> service \<times> bool" where
  "end_queued i src s =
     (stop_refreshing i (s\<lparr>sv_running := sv_running s - {i}\<rparr>), \<not> current_source_locked s src)"

definition finish_queued :: "string \<Rightarrow> service \<Rightarrow> service" where
  "finish_queued i s =
     stop_refreshing i (s\<lparr>sv_queued := sv_queued s - {i}, sv_running := sv_running s - {i}\<rparr>)"

definition source_ids :: "service \<Rightarrow> string list" where
  "source_ids s = map src_id (sc_sources (sv_cfg s))"

text \<open>
  \<open>Reload\<close> up to its unlock, with the decision it takes afterwards: queue everything, or the
  changed sources.
\<close>

definition reload :: "service_config \<Rightarrow> service \<Rightarrow> service \<times> (string list) option" where
  "reload cfg s =
     (let previous = sv_cfg s;
          changed = source_changes previous cfg;
          refresh_all = (sc_signature_policy previous \<noteq> sc_signature_policy cfg
             \<or> sc_parse_concurrency previous \<noteq> sc_parse_concurrency cfg);
          s1 = s\<lparr>sv_cfg := cfg\<rparr>;
          s2 = (if sc_graph_url previous \<noteq> sc_graph_url cfg
                then s1\<lparr>sv_os_snapshots := [], sv_generation := wrap64 (sv_generation s1 + 1)\<rparr> else s1);
          s3 = s2\<lparr>sv_snapshots := filter (\<lambda>(i, snap). current_source_locked s2 (sn_source snap)) (sv_snapshots s2)\<rparr>;
          s4 = s3\<lparr>sv_statuses := filter (\<lambda>(i, st). current_source_locked s3 (st_source st)) (sv_statuses s3)\<rparr>
      in (s4, if refresh_all then None else Some changed))"

section \<open>Goroutines\<close>

datatype job = Background string | Direct

text \<open>
  Program points: \<open>refreshQueued\<close> at the select, after an abort, with the semaphore before the
  first section, and before \<open>finishQueued\<close>; \<open>Refresh\<close> at the select; \<open>refresh\<close> before
  \<open>markAttempt\<close>, before it copies the reader's settings, during the read and before each of its two outcomes; the last section of
  \<open>refreshQueued\<close>, its requeue and the deferred release; and a caller of \<open>QueueRefresh\<close> for a
  list of ids, or of \<open>queueAll\<close> before it reads the ids.
\<close>

datatype thread =
    QueuedWait string
  | QueuedAborted string
  | QueuedHeld string
  | QueuedMissing string
  | DirectWait source
  | Attempt job source
  | ReadConfig job source
  | Reading job source reader
  | Failing job source string
  | Publishing job source snapshot
  | QueuedDone string source
  | Requeue string
  | Release
  | CallQueue "string list"
  | CallAll

text \<open>What the environment contributes to a step: the clock, a cancelled context, or a read's outcome.\<close>

datatype input = Go time | Cancel | ReadOk snapshot | ReadErr string

definition spawned :: "string \<Rightarrow> bool \<Rightarrow> thread list" where
  "spawned i started = (if started then [QueuedWait i] else [])"

definition reader_of :: "service \<Rightarrow> reader" where
  "reader_of s = \<lparr>rd_signature_policy = sc_signature_policy (sv_cfg s),
                  rd_parse_concurrency = sc_parse_concurrency (sv_cfg s)\<rparr>"

definition after_refresh :: "job \<Rightarrow> source \<Rightarrow> thread" where
  "after_refresh j src = (case j of Background i \<Rightarrow> QueuedDone i src | Direct \<Rightarrow> Release)"

definition on_go :: "input \<Rightarrow> (time \<Rightarrow> 'a) \<Rightarrow> 'a option" where
  "on_go inp f = (case inp of Go now \<Rightarrow> Some (f now) | _ \<Rightarrow> None)"

fun run_thread :: "input \<Rightarrow> thread \<Rightarrow> bool \<Rightarrow> service \<Rightarrow> (bool \<times> service \<times> thread list) option" where
  "run_thread inp (QueuedWait i) sem s =
     (case inp of
        Go now \<Rightarrow> if sem then None else Some (True, s, [QueuedHeld i])
      | Cancel \<Rightarrow> Some (sem, s, [QueuedAborted i])
      | _ \<Rightarrow> None)"
| "run_thread inp (QueuedAborted i) sem s = on_go inp (\<lambda>now. (sem, finish_queued i s, []))"
| "run_thread inp (QueuedHeld i) sem s = on_go inp (\<lambda>now.
     case begin_queued i s of
       (s', None) \<Rightarrow> (sem, s', [QueuedMissing i])
     | (s', Some src) \<Rightarrow> (sem, s', [Attempt (Background i) src]))"
| "run_thread inp (QueuedMissing i) sem s = on_go inp (\<lambda>now. (sem, finish_queued i s, [Release]))"
| "run_thread inp (DirectWait src) sem s =
     (case inp of
        Go now \<Rightarrow> if sem then None else Some (True, s, [Attempt Direct src])
      | Cancel \<Rightarrow> Some (sem, s, [])
      | _ \<Rightarrow> None)"
| "run_thread inp (Attempt j src) sem s = on_go inp (\<lambda>now. (sem, mark_attempt src now s, [ReadConfig j src]))"
| "run_thread inp (ReadConfig j src) sem s = on_go inp (\<lambda>now. (sem, s, [Reading j src (reader_of s)]))"
| "run_thread inp (Reading j src rd) sem s =
     (case inp of
        ReadOk snap \<Rightarrow> Some (sem, s, [Publishing j src snap])
      | ReadErr e \<Rightarrow> Some (sem, s, [Failing j src e])
      | _ \<Rightarrow> None)"
| "run_thread inp (Failing j src e) sem s = on_go inp (\<lambda>now. (sem, mark_failure src e s, [after_refresh j src]))"
| "run_thread inp (Publishing j src snap) sem s =
     on_go inp (\<lambda>now. (sem, publish src snap now s, [after_refresh j src]))"
| "run_thread inp (QueuedDone i src) sem s = on_go inp (\<lambda>now.
     case end_queued i src s of (s', changed) \<Rightarrow> (sem, s', [if changed then Requeue i else Release]))"
| "run_thread inp (Requeue i) sem s = on_go inp (\<lambda>now.
     case queue_refresh i s of (s', _, started) \<Rightarrow> (sem, s', Release # spawned i started))"
| "run_thread inp Release sem s = on_go inp (\<lambda>now. (False, s, []))"
| "run_thread inp (CallQueue is) sem s = on_go inp (\<lambda>now.
     case is of
       [] \<Rightarrow> (sem, s, [])
     | i # rest \<Rightarrow> (case queue_refresh i s of (s', _, started) \<Rightarrow> (sem, s', CallQueue rest # spawned i started)))"
| "run_thread inp CallAll sem s = on_go inp (\<lambda>now. (sem, s, [CallQueue (source_ids s)]))"

record world =
  w_sem :: bool
  w_svc :: service
  w_threads :: "thread multiset"

inductive thread_step :: "(source \<Rightarrow> snapshot \<Rightarrow> bool) \<Rightarrow> world \<Rightarrow> world \<Rightarrow> bool" for reads where
  "th \<in># w_threads w \<Longrightarrow> run_thread inp th (w_sem w) (w_svc w) = Some (sem', s', ths) \<Longrightarrow>
   (\<And>snap j src rd. inp = ReadOk snap \<Longrightarrow> th = Reading j src rd \<Longrightarrow> reads src snap) \<Longrightarrow>
   thread_step reads w \<lparr>w_sem = sem', w_svc = s', w_threads = w_threads w - {#th#} + mset ths\<rparr>"

text \<open>
  The callers: the ticker and the refresh handlers queue ids, \<open>Refresh\<close> is called for a source,
  and a configuration is reloaded.
\<close>

inductive client_step :: "world \<Rightarrow> world \<Rightarrow> bool" where
  client_call: "th \<in> {CallAll} \<union> range CallQueue \<union> range DirectWait \<Longrightarrow>
     client_step w (w\<lparr>w_threads := add_mset th (w_threads w)\<rparr>)"
| client_reload: "reload cfg (w_svc w) = (s', todo) \<Longrightarrow>
     client_step w (w\<lparr>w_svc := s',
       w_threads := add_mset (case todo of None \<Rightarrow> CallAll | Some ids \<Rightarrow> CallQueue ids) (w_threads w)\<rparr>)"

definition initial_world :: "service_config \<Rightarrow> world" where
  "initial_world cfg = \<lparr>w_sem = False, w_svc = new_service cfg, w_threads = {#}\<rparr>"

inductive reachable :: "(source \<Rightarrow> snapshot \<Rightarrow> bool) \<Rightarrow> world \<Rightarrow> bool" for reads where
  reachable_start: "reachable reads (initial_world cfg)"
| reachable_thread: "reachable reads w \<Longrightarrow> thread_step reads w w' \<Longrightarrow> reachable reads w'"
| reachable_client: "reachable reads w \<Longrightarrow> client_step w w' \<Longrightarrow> reachable reads w'"

inductive_cases thread_stepE: "thread_step reads w w'"
inductive_cases client_stepE: "client_step w w'"


section \<open>The state invariant\<close>

declare map_of_eq_Some_iff [simp del]

text \<open>
  Snapshots and statuses belong to configured sources and are stored under their ids, and a source
  is reported as refreshing only while it is queued or running.
\<close>

definition state_ok :: "service \<Rightarrow> bool" where
  "state_ok s \<longleftrightarrow>
     map_ok (sv_snapshots s) \<and> map_ok (sv_statuses s)
     \<and> (\<forall>i snap. map_of (sv_snapshots s) i = Some snap \<longrightarrow>
          src_id (sn_source snap) = i \<and> current_source_locked s (sn_source snap))
     \<and> (\<forall>i st. map_of (sv_statuses s) i = Some st \<longrightarrow>
          src_id (st_source st) = i \<and> current_source_locked s (st_source st)
          \<and> (st_refreshing st \<longrightarrow> active s i))"

lemma state_ok_put_status:
  assumes "state_ok s" "current_source_locked s (st_source st)" "src_id (st_source st) = i"
    "st_refreshing st \<longrightarrow> active s i"
  shows "state_ok (put_status i st s)"
  using assms by (auto simp: state_ok_def put_status_def current_source_locked_def active_def distinct_update)

lemma put_status_simps [simp]:
  "sv_cfg (put_status i st s) = sv_cfg s" "sv_snapshots (put_status i st s) = sv_snapshots s"
  "sv_queued (put_status i st s) = sv_queued s" "sv_running (put_status i st s) = sv_running s"
  "sv_os_snapshots (put_status i st s) = sv_os_snapshots s" "sv_in_flight (put_status i st s) = sv_in_flight s"
  "sv_heap (put_status i st s) = sv_heap s" "sv_attempt (put_status i st s) = sv_attempt s"
  "sv_generation (put_status i st s) = sv_generation s"
  "current_source_locked (put_status i st s) = current_source_locked s"
  "source_locked (put_status i st s) = source_locked s"
  "active (put_status i st s) = active s"
  "map_of (sv_statuses (put_status i st s)) = (map_of (sv_statuses s))(i \<mapsto> st)"
  by (simp_all add: put_status_def current_source_locked_def source_locked_def active_def fun_eq_iff)

lemma state_ok_mark_attempt: "state_ok s \<Longrightarrow> state_ok (mark_attempt src now s)"
  by (auto simp: mark_attempt_def intro: state_ok_put_status)

lemma state_ok_mark_failure: "state_ok s \<Longrightarrow> state_ok (mark_failure src err s)"
  by (auto simp: mark_failure_def intro: state_ok_put_status)

lemma state_ok_publish:
  assumes "state_ok s" and "sn_source snap = src"
  shows "state_ok (publish src snap now s)"
proof (cases "current_source_locked s src")
  case True
  let ?s = "s\<lparr>sv_snapshots := AList.update (src_id src) (snap\<lparr>sn_generated_at := now\<rparr>) (sv_snapshots s)\<rparr>"
  have "state_ok ?s"
    using assms True by (auto simp: state_ok_def current_source_locked_def active_def distinct_update)
  then show ?thesis using True
    by (auto simp: publish_def current_source_locked_def active_def intro!: state_ok_put_status)
qed (use assms in \<open>simp add: publish_def\<close>)

lemma source_locked_current: "source_locked s i = Some src \<Longrightarrow> current_source_locked s src \<and> src_id src = i"
  by (auto simp: source_locked_def current_source_locked_def dest: source_by_id_Some)

lemma state_ok_queue_refresh: "state_ok s \<Longrightarrow> state_ok (fst (queue_refresh i s))"
proof (cases "source_locked s i = None \<or> i \<in> sv_running s \<or> i \<in> sv_queued s")
  case False
  assume ok: "state_ok s"
  obtain src where src: "source_locked s i = Some src" using False by auto
  let ?s = "s\<lparr>sv_queued := insert i (sv_queued s)\<rparr>"
  have "state_ok ?s" using ok by (auto simp: state_ok_def current_source_locked_def active_def)
  moreover have "current_source_locked ?s src" "src_id src = i"
    using source_locked_current [OF src] by (auto simp: current_source_locked_def)
  ultimately have "state_ok (put_status i ((status_of s i)\<lparr>st_source := src, st_refreshing := True\<rparr>) ?s)"
    by (intro state_ok_put_status) (auto simp: active_def)
  then show ?thesis using False src by (simp add: queue_refresh_def)
qed (auto simp: queue_refresh_def split: option.splits)

text \<open>The invariant while the flag of one source is about to be cleared.\<close>

definition state_ok_except :: "string \<Rightarrow> service \<Rightarrow> bool" where
  "state_ok_except i s \<longleftrightarrow>
     map_ok (sv_snapshots s) \<and> map_ok (sv_statuses s)
     \<and> (\<forall>j snap. map_of (sv_snapshots s) j = Some snap \<longrightarrow>
          src_id (sn_source snap) = j \<and> current_source_locked s (sn_source snap))
     \<and> (\<forall>j st. map_of (sv_statuses s) j = Some st \<longrightarrow>
          src_id (st_source st) = j \<and> current_source_locked s (st_source st)
          \<and> (j \<noteq> i \<longrightarrow> st_refreshing st \<longrightarrow> active s j))"

lemma state_ok_stop:
  assumes ok: "state_ok_except i s"
  shows "state_ok (stop_refreshing i s)"
proof (cases "map_of (sv_statuses s) i")
  case None
  have "active s j" if "map_of (sv_statuses s) j = Some st" "st_refreshing st" for j st
    using that ok None by (cases "j = i") (auto simp: state_ok_except_def)
  then have "state_ok s" using ok by (auto simp: state_ok_except_def state_ok_def)
  then show ?thesis using None by (simp add: stop_refreshing_def)
next
  case (Some st)
  then show ?thesis using ok
    by (auto simp: stop_refreshing_def state_ok_except_def state_ok_def put_status_def distinct_update
        current_source_locked_def active_def)
qed

lemma state_ok_finish_queued: "state_ok s \<Longrightarrow> state_ok (finish_queued i s)"
  unfolding finish_queued_def
  by (rule state_ok_stop) (auto simp: state_ok_except_def state_ok_def current_source_locked_def active_def)

lemma state_ok_end_queued: "state_ok s \<Longrightarrow> state_ok (fst (end_queued i src s))"
  unfolding end_queued_def fst_conv
  by (rule state_ok_stop) (auto simp: state_ok_except_def state_ok_def current_source_locked_def active_def)

text \<open>Without a configured source there is no status whose flag could stay behind.\<close>

lemma state_ok_begin_queued: "state_ok s \<Longrightarrow> state_ok (fst (begin_queued i s))"
proof -
  assume ok: "state_ok s"
  let ?s = "s\<lparr>sv_queued := sv_queued s - {i}\<rparr>"
  have loc: "source_locked ?s i = source_locked s i" by (simp add: source_locked_def)
  show ?thesis
  proof (cases "source_locked s i")
    case None
    have "map_of (sv_statuses s) i = None"
    proof (rule ccontr)
      assume "map_of (sv_statuses s) i \<noteq> None"
      then obtain st where "map_of (sv_statuses s) i = Some st" by blast
      then have "src_id (st_source st) = i" "st_source st \<in> set (sc_sources (sv_cfg s))"
        using ok by (auto simp: state_ok_def current_source_locked_def)
      then show False using None by (auto simp: source_locked_def source_by_id_None)
    qed
    then show ?thesis using ok None loc
      by (auto simp: begin_queued_def Let_def state_ok_def current_source_locked_def active_def)
  next
    case (Some src)
    then show ?thesis using ok loc
      by (auto simp: begin_queued_def Let_def state_ok_def current_source_locked_def active_def)
  qed
qed

lemma state_ok_reload:
  assumes "state_ok s"
  shows "state_ok (fst (reload cfg s))"
proof -
  have m: "map_ok (sv_snapshots s)" "map_ok (sv_statuses s)" using assms by (auto simp: state_ok_def)
  show ?thesis
    using assms unfolding reload_def Let_def state_ok_def
    by (auto simp: map_of_filter_entry [OF m(1)] map_of_filter_entry [OF m(2)] current_source_locked_def
        active_def split: option.splits if_splits)
qed

lemma state_ok_new: "state_ok (new_service cfg)"
  by (simp add: state_ok_def new_service_def)

lemmas state_ok_sections =
  state_ok_mark_attempt state_ok_mark_failure state_ok_publish state_ok_queue_refresh
  state_ok_begin_queued state_ok_end_queued state_ok_finish_queued state_ok_reload


section \<open>Invariants of the goroutines\<close>

text \<open>Which goroutines hold the semaphore, and for which id a goroutine is responsible.\<close>

fun holding :: "thread \<Rightarrow> bool" where
  "holding (QueuedHeld i) = True"
| "holding (QueuedMissing i) = True"
| "holding (Attempt j src) = True"
| "holding (ReadConfig j src) = True"
| "holding (Reading j src rd) = True"
| "holding (Failing j src e) = True"
| "holding (Publishing j src snap) = True"
| "holding (QueuedDone i src) = True"
| "holding (Requeue i) = True"
| "holding Release = True"
| "holding _ = False"

fun waits_for :: "string \<Rightarrow> thread \<Rightarrow> bool" where
  "waits_for i (QueuedWait j) = (i = j)"
| "waits_for i (QueuedAborted j) = (i = j)"
| "waits_for i (QueuedHeld j) = (i = j)"
| "waits_for i _ = False"

fun job_of :: "thread \<Rightarrow> (job \<times> source) option" where
  "job_of (Attempt j src) = Some (j, src)"
| "job_of (ReadConfig j src) = Some (j, src)"
| "job_of (Reading j src rd) = Some (j, src)"
| "job_of (Failing j src e) = Some (j, src)"
| "job_of (Publishing j src snap) = Some (j, src)"
| "job_of (QueuedDone i src) = Some (Background i, src)"
| "job_of _ = None"

definition runs_for :: "string \<Rightarrow> thread \<Rightarrow> bool" where
  "runs_for i th \<longleftrightarrow> (\<exists>src. job_of th = Some (Background i, src))"

fun job_ok :: "job \<Rightarrow> source \<Rightarrow> bool" where
  "job_ok (Background i) src = (src_id src = i)"
| "job_ok Direct src = True"

fun thread_ok :: "thread \<Rightarrow> bool" where
  "thread_ok (Attempt j src) = job_ok j src"
| "thread_ok (ReadConfig j src) = job_ok j src"
| "thread_ok (Reading j src rd) = job_ok j src"
| "thread_ok (Failing j src e) = job_ok j src"
| "thread_ok (Publishing j src snap) = (job_ok j src \<and> sn_source snap = src)"
| "thread_ok (QueuedDone i src) = (src_id src = i)"
| "thread_ok _ = True"

lemma thread_ok_after [simp]: "job_ok j src \<Longrightarrow> thread_ok (after_refresh j src)"
  by (cases j) (simp_all add: after_refresh_def)

lemma state_ok_pairs:
  "queue_refresh i s = (s', r) \<Longrightarrow> state_ok s \<Longrightarrow> state_ok s'"
  "begin_queued i s = (s', src) \<Longrightarrow> state_ok s \<Longrightarrow> state_ok s'"
  "end_queued i src' s = (s', changed) \<Longrightarrow> state_ok s \<Longrightarrow> state_ok s'"
  "reload cfg s = (s', todo) \<Longrightarrow> state_ok s \<Longrightarrow> state_ok s'"
  using state_ok_queue_refresh [of s i] state_ok_begin_queued [of s i] state_ok_end_queued [of s i src']
    state_ok_reload [of s cfg] by simp_all

lemma begin_queued_Some: "begin_queued i s = (s', Some src) \<Longrightarrow> src_id src = i"
  using source_locked_current by (auto simp: begin_queued_def Let_def split: option.splits)

text \<open>A step changes the number of holders as it changes the semaphore.\<close>

lemma run_thread_lock:
  assumes "run_thread inp th sem s = Some (sem', s', ths)" and "holding th \<Longrightarrow> sem"
  shows "of_bool sem' + of_bool (holding th) = (of_bool sem + length (filter holding ths) :: nat)"
  using assms
  by (cases th; cases inp)
    (auto simp: on_go_def spawned_def after_refresh_def begin_queued_def Let_def
      split: if_splits job.splits prod.splits option.splits list.splits)

lemma run_thread_threads:
  assumes "run_thread inp th sem s = Some (sem', s', ths)" and "thread_ok th"
    and reads: "\<And>snap j src rd. inp = ReadOk snap \<Longrightarrow> th = Reading j src rd \<Longrightarrow> sn_source snap = src"
  shows "\<forall>t \<in> set ths. thread_ok t"
proof (cases th)
  case (Reading j src rd)
  then show ?thesis using assms(1,2) reads by (cases inp) auto
next
  case (QueuedHeld i)
  then show ?thesis using assms(1) begin_queued_Some
    by (auto simp: on_go_def split: input.splits prod.splits option.splits)
qed (use assms(1,2) in \<open>auto simp: on_go_def spawned_def split: input.splits prod.splits if_splits list.splits\<close>)

lemma run_thread_state:
  assumes "run_thread inp th sem s = Some (sem', s', ths)" and "thread_ok th" and "state_ok s"
  shows "state_ok s'"
  using assms
  by (cases th; cases inp)
    (auto simp: on_go_def split: if_splits prod.splits option.splits list.splits
      dest: state_ok_pairs intro: state_ok_sections)


section \<open>Responsible goroutines\<close>

lemma section_marks [simp]:
  "sv_running (mark_attempt src now s) = sv_running s" "sv_queued (mark_attempt src now s) = sv_queued s"
  "sv_running (mark_failure src err s) = sv_running s" "sv_queued (mark_failure src err s) = sv_queued s"
  "sv_running (publish src snap now s) = sv_running s" "sv_queued (publish src snap now s) = sv_queued s"
  "sv_running (stop_refreshing i s) = sv_running s" "sv_queued (stop_refreshing i s) = sv_queued s"
  by (simp_all add: mark_attempt_def mark_failure_def publish_def stop_refreshing_def split: option.split)

lemma section_cfg [simp]:
  "sv_cfg (mark_attempt src now s) = sv_cfg s" "sv_cfg (mark_failure src err s) = sv_cfg s"
  "sv_cfg (publish src snap now s) = sv_cfg s" "sv_cfg (stop_refreshing i s) = sv_cfg s"
  "sv_cfg (finish_queued i s) = sv_cfg s" "sv_cfg (fst (end_queued i src s)) = sv_cfg s"
  "sv_cfg (fst (begin_queued i s)) = sv_cfg s" "sv_cfg (fst (queue_refresh i s)) = sv_cfg s"
  by (auto simp: mark_attempt_def mark_failure_def publish_def stop_refreshing_def finish_queued_def
      end_queued_def begin_queued_def queue_refresh_def Let_def split: option.split)

lemma finish_marks [simp]:
  "sv_running (finish_queued i s) = sv_running s - {i}" "sv_queued (finish_queued i s) = sv_queued s - {i}"
  by (simp_all add: finish_queued_def)

lemma end_marks: "end_queued i src s = (s', c) \<Longrightarrow> sv_running s' = sv_running s - {i} \<and> sv_queued s' = sv_queued s"
  by (auto simp: end_queued_def)

lemma begin_marks:
  "begin_queued i s = (s', r) \<Longrightarrow>
     sv_queued s' = sv_queued s - {i} \<and> sv_running s' = (if r = None then sv_running s else insert i (sv_running s))"
  by (auto simp: begin_queued_def Let_def split: option.splits)

lemma queue_marks:
  "queue_refresh i s = (s', r, started) \<Longrightarrow>
     sv_running s' = sv_running s \<and> sv_queued s' = (if started then insert i (sv_queued s) else sv_queued s)"
  by (auto simp: queue_refresh_def split: option.splits if_splits)

lemma runs_for_simps [simp]:
  "runs_for i (Attempt j src) = (j = Background i)" "runs_for i (ReadConfig j src) = (j = Background i)"
  "runs_for i (Reading j src rd) = (j = Background i)" "runs_for i (Failing j src e) = (j = Background i)"
  "runs_for i (Publishing j src snap) = (j = Background i)" "runs_for i (QueuedDone k src) = (k = i)"
  "\<not> runs_for i (QueuedWait k)" "\<not> runs_for i (QueuedAborted k)" "\<not> runs_for i (QueuedHeld k)"
  "\<not> runs_for i (QueuedMissing k)" "\<not> runs_for i (DirectWait src)" "\<not> runs_for i (Requeue k)"
  "\<not> runs_for i Release" "\<not> runs_for i (CallQueue ids)" "\<not> runs_for i CallAll"
  by (auto simp: runs_for_def)

lemma run_thread_running:
  assumes "run_thread inp th sem s = Some (sem', s', ths)" and "i \<in> sv_running s'"
  shows "(\<exists>t \<in> set ths. runs_for i t) \<or> (i \<in> sv_running s \<and> \<not> runs_for i th)"
  using assms
  by (cases th; cases inp)
    (auto simp: on_go_def spawned_def after_refresh_def split: if_splits prod.splits option.splits list.splits job.splits
      dest: begin_marks end_marks queue_marks)

lemma run_thread_queued:
  assumes "run_thread inp th sem s = Some (sem', s', ths)" and "i \<in> sv_queued s'"
  shows "(\<exists>t \<in> set ths. waits_for i t) \<or> (i \<in> sv_queued s \<and> \<not> waits_for i th)"
  using assms
  by (cases th; cases inp)
    (auto simp: on_go_def spawned_def after_refresh_def split: if_splits prod.splits option.splits list.splits job.splits
      dest: begin_marks end_marks queue_marks)

section \<open>The invariant of reachable worlds\<close>

definition responsible :: "world \<Rightarrow> bool" where
  "responsible w \<longleftrightarrow>
     (\<forall>i \<in> sv_running (w_svc w). \<exists>th \<in># w_threads w. runs_for i th)
     \<and> (\<forall>i \<in> sv_queued (w_svc w). \<exists>th \<in># w_threads w. waits_for i th)"

definition world_ok :: "world \<Rightarrow> bool" where
  "world_ok w \<longleftrightarrow>
     size (filter_mset holding (w_threads w)) = of_bool (w_sem w)
     \<and> state_ok (w_svc w) \<and> (\<forall>th \<in># w_threads w. thread_ok th) \<and> responsible w"

lemma responsible_step:
  assumes r: "responsible w" and th: "th \<in># w_threads w"
    and run: "run_thread inp th (w_sem w) (w_svc w) = Some (sem', s', ths)"
  shows "responsible \<lparr>w_sem = sem', w_svc = s', w_threads = w_threads w - {#th#} + mset ths\<rparr>"
proof -
  have rest: "t \<in># w_threads w \<Longrightarrow> t \<noteq> th \<Longrightarrow> t \<in># w_threads w - {#th#}" for t
    by (simp add: in_diff_count)
  have "\<exists>t \<in># w_threads w - {#th#} + mset ths. runs_for i t" if "i \<in> sv_running s'" for i
    using run_thread_running [OF run that] r rest unfolding responsible_def by fastforce
  moreover have "\<exists>t \<in># w_threads w - {#th#} + mset ths. waits_for i t" if "i \<in> sv_queued s'" for i
    using run_thread_queued [OF run that] r rest unfolding responsible_def by fastforce
  ultimately show ?thesis by (simp add: responsible_def)
qed

lemma holding_sem:
  assumes "world_ok w" "th \<in># w_threads w" "holding th"
  shows "w_sem w"
proof -
  have "th \<in># filter_mset holding (w_threads w)" using assms by simp
  then have "filter_mset holding (w_threads w) \<noteq> {#}" by (metis empty_iff set_mset_empty)
  then show ?thesis using assms(1) by (auto simp: world_ok_def of_bool_def split: if_splits)
qed

lemma world_ok_run:
  assumes ok: "world_ok w" and th: "th \<in># w_threads w"
    and run: "run_thread inp th (w_sem w) (w_svc w) = Some (sem', s', ths)"
    and reads: "\<And>snap j src rd. inp = ReadOk snap \<Longrightarrow> th = Reading j src rd \<Longrightarrow> sn_source snap = src"
  shows "world_ok \<lparr>w_sem = sem', w_svc = s', w_threads = w_threads w - {#th#} + mset ths\<rparr>"
proof -
  have tok: "thread_ok th" using ok th by (simp add: world_ok_def)
  obtain M where M: "w_threads w = add_mset th M" using th by (metis mset_add)
  have lock: "of_bool sem' + of_bool (holding th) = (of_bool (w_sem w) + length (filter holding ths) :: nat)"
    using run_thread_lock [OF run] holding_sem [OF ok th] by blast
  have "size (filter_mset holding M) + of_bool (holding th) = of_bool (w_sem w)"
    using ok M by (cases "holding th") (simp_all add: world_ok_def)
  moreover have "size (filter_mset holding (mset ths)) = length (filter holding ths)"
    by (metis mset_filter size_mset)
  ultimately have "size (filter_mset holding (M + mset ths)) = of_bool sem'"
    using lock by simp
  moreover have "\<forall>t \<in># M + mset ths. thread_ok t"
    using ok M run_thread_threads [OF run tok reads] by (auto simp: world_ok_def)
  moreover have "state_ok s'" using run_thread_state [OF run tok] ok by (simp add: world_ok_def)
  moreover note responsible_step [OF _ th run]
  ultimately show ?thesis using ok M by (simp add: world_ok_def)
qed

lemma reload_marks: "reload cfg s = (s', todo) \<Longrightarrow> sv_running s' = sv_running s \<and> sv_queued s' = sv_queued s"
  by (simp add: reload_def Let_def) (cases "sc_graph_url (sv_cfg s) = sc_graph_url cfg"; auto)

lemma world_ok_client:
  assumes ok: "world_ok w" and step: "client_step w w'"
  shows "world_ok w'"
  using step
proof (cases rule: client_step.cases)
  case (client_call th)
  then have "\<not> holding th" "thread_ok th" by auto
  then show ?thesis using ok client_call(1) by (auto simp: world_ok_def responsible_def)
next
  case (client_reload cfg s' todo)
  let ?th = "case todo of None \<Rightarrow> CallAll | Some ids \<Rightarrow> CallQueue ids"
  have "\<not> holding ?th" "thread_ok ?th" by (auto split: option.split)
  then show ?thesis using ok client_reload(1) state_ok_pairs(4) [OF client_reload(2)] reload_marks [OF client_reload(2)]
    by (auto simp: world_ok_def responsible_def)
qed

lemma world_ok_initial: "world_ok (initial_world cfg)"
  by (simp add: world_ok_def initial_world_def responsible_def state_ok_new) (simp add: new_service_def)

context snapshot_provider
begin

lemma world_ok_thread_step:
  assumes "thread_step reads w w'" and "world_ok w"
  shows "world_ok w'"
  using assms(1)
proof (cases rule: thread_step.cases)
  case (1 th inp sem' s' ths)
  then show ?thesis using world_ok_run [OF assms(2) 1(2,3)] own_source by blast
qed

lemma reachable_ok: "reachable reads w \<Longrightarrow> world_ok w"
  by (induction rule: reachable.induct) (auto intro: world_ok_initial world_ok_thread_step world_ok_client)

end


section \<open>Progress\<close>

lemma run_thread_enabled:
  assumes "holding th \<or> \<not> sem"
  shows "\<exists>inp. run_thread inp th sem s \<noteq> None \<and> (\<forall>snap. inp \<noteq> ReadOk snap)"
proof (cases th)
  case (Reading j src rd)
  then have "run_thread (ReadErr []) th sem s \<noteq> None" by simp
  then show ?thesis by blast
next
  case (QueuedWait i)
  then have "run_thread (Go 0) th sem s \<noteq> None" using assms by simp
  then show ?thesis by blast
next
  case (DirectWait src)
  then have "run_thread (Go 0) th sem s \<noteq> None" using assms by simp
  then show ?thesis by blast
qed (rule exI [of _ "Go 0"], simp add: on_go_def)+

text \<open>While a goroutine is left, one of them can take a step, whatever the reader answers.\<close>

lemma thread_step_enabled:
  assumes ok: "world_ok w" and ne: "w_threads w \<noteq> {#}"
  shows "\<exists>w'. thread_step reads w w'"
proof -
  obtain th where th: "th \<in># w_threads w" "holding th \<or> \<not> w_sem w"
  proof (cases "w_sem w")
    case True
    then have "size (filter_mset holding (w_threads w)) = 1" using ok by (simp add: world_ok_def)
    then have "filter_mset holding (w_threads w) \<noteq> {#}" by (metis size_empty zero_neq_one)
    then obtain t where "t \<in># filter_mset holding (w_threads w)" by (rule multiset_nonemptyE)
    then show ?thesis using that by auto
  next
    case False
    from ne obtain t where "t \<in># w_threads w" by (rule multiset_nonemptyE)
    then show ?thesis using that False by blast
  qed
  obtain inp where inp: "run_thread inp th (w_sem w) (w_svc w) \<noteq> None" "\<forall>snap. inp \<noteq> ReadOk snap"
    using run_thread_enabled [OF th(2)] by blast
  then obtain r where "run_thread inp th (w_sem w) (w_svc w) = Some r" by blast
  then show ?thesis using thread_step.intros [OF th(1)] inp(2) by (metis prod_cases3)
qed

text \<open>
  The work a goroutine may still cause under the current configuration: a refresh of a source that
  is no longer configured ends with a requeue, a refresh of a configured one does not.
\<close>

definition tail_work :: "source list \<Rightarrow> job \<Rightarrow> source \<Rightarrow> nat" where
  "tail_work cs j src = (case j of Direct \<Rightarrow> 1 | Background i \<Rightarrow> if src \<in> set cs then 2 else 11)"

fun work :: "source list \<Rightarrow> thread \<Rightarrow> nat" where
  "work cs (QueuedWait i) = 8"
| "work cs (QueuedAborted i) = 1"
| "work cs (QueuedHeld i) = 7"
| "work cs (QueuedMissing i) = 2"
| "work cs (DirectWait src) = 7"
| "work cs (Attempt j src) = tail_work cs j src + 4"
| "work cs (ReadConfig j src) = tail_work cs j src + 3"
| "work cs (Reading j src rd) = tail_work cs j src + 2"
| "work cs (Failing j src e) = tail_work cs j src + 1"
| "work cs (Publishing j src snap) = tail_work cs j src + 1"
| "work cs (QueuedDone i src) = (if src \<in> set cs then 2 else 11)"
| "work cs (Requeue i) = 10"
| "work cs Release = 1"
| "work cs (CallQueue ids) = 1 + 9 * length ids"
| "work cs CallAll = 2 + 9 * length cs"

lemma work_after [simp]: "work cs (after_refresh j src) = tail_work cs j src"
  by (cases j) (simp_all add: after_refresh_def tail_work_def)

lemma work_spawned [simp]: "sum_list (map (work cs) (spawned i started)) < 9"
  by (simp add: spawned_def)

lemma queue_cfg: "queue_refresh i s = (s', r) \<Longrightarrow> sv_cfg s' = sv_cfg s"
  using section_cfg(8) [of i s] by simp

lemma run_thread_work:
  assumes "run_thread inp th sem s = Some (sem', s', ths)"
  shows "sv_cfg s' = sv_cfg s
     \<and> sum_list (map (work (sc_sources (sv_cfg s))) ths) < work (sc_sources (sv_cfg s)) th"
proof (cases th)
  case (QueuedHeld i)
  then show ?thesis using assms source_locked_current [of s i]
    by (auto simp: on_go_def begin_queued_def Let_def tail_work_def source_locked_def current_source_locked_def
        split: input.splits option.splits)
next
  case (QueuedDone i src)
  then show ?thesis using assms section_cfg(6) [of i src s]
    by (auto simp: on_go_def end_queued_def current_source_locked_def split: input.splits)
next
  case (Requeue i)
  then show ?thesis using assms by (auto simp: on_go_def queue_cfg split: input.splits prod.splits)
next
  case (CallQueue ids)
  then show ?thesis using assms
    by (cases ids) (auto simp: on_go_def queue_cfg split: input.splits prod.splits)
qed (use assms in \<open>auto simp: on_go_def source_ids_def tail_work_def split: input.splits if_splits\<close>)

definition load :: "world \<Rightarrow> nat" where
  "load w = sum_mset (image_mset (work (sc_sources (sv_cfg (w_svc w)))) (w_threads w))"

lemma thread_step_load:
  assumes "thread_step reads w w'"
  shows "load w' < load w"
  using assms
proof (cases rule: thread_step.cases)
  case (1 th inp sem' s' ths)
  then obtain M where M: "w_threads w = add_mset th M" by (metis mset_add)
  have "sum_mset (image_mset f (mset ths)) = sum_list (map f ths)" for f :: "thread \<Rightarrow> nat"
    by (metis mset_map sum_mset_sum_list)
  then show ?thesis using run_thread_work [OF 1(3)] 1(1) M by (simp add: load_def)
qed

lemma thread_steps_load: "(thread_step reads ^^ n) w w' \<Longrightarrow> n + load w' \<le> load w"
proof (induction n arbitrary: w')
  case (Suc n)
  then obtain w1 where "(thread_step reads ^^ n) w w1" "thread_step reads w1 w'" by auto
  then show ?case using Suc.IH [of w1] thread_step_load [of reads w1 w'] by linarith
qed simp

end
