(* ===== verification/Go_Net.thy ===== *)
theory Go_Net
  imports Go_Paths
begin

text \<open>
  The parts of Go's \<^verbatim>\<open>net/url\<close>, \<^verbatim>\<open>net/http\<close> and \<^verbatim>\<open>strconv\<close> that the HTTP API calls: path
  unescaping, query lookup, \<open>Atoi\<close>, case folding of an ASCII word and the segments of a request path.
\<close>

section \<open>Numbers\<close>

definition digit_int :: "char \<Rightarrow> int" where
  "digit_int c = int (of_char c) - 48"

definition digits_value :: "string \<Rightarrow> int" where
  "digits_value s = fold (\<lambda>c n. 10 * n + digit_int c) s 0"

text \<open>\<open>strconv.Atoi\<close> on a 64-bit machine; every failure is \<open>None\<close>, out of range included.\<close>

definition atoi :: "string \<Rightarrow> int option" where
  "atoi s =
     (let neg = has_prefix s ''-'';
          body = (if neg \<or> has_prefix s ''+'' then tl s else s);
          n = (if neg then - digits_value body else digits_value body)
      in if body = [] \<or> \<not> list_all is_digit body then None
         else if n < - 9223372036854775808 \<or> 9223372036854775807 < n then None else Some n)"

section \<open>URLs\<close>

definition hex_value :: "char \<Rightarrow> nat option" where
  "hex_value c =
     (if is_digit c then Some (of_char c - 48)
      else if CHR ''a'' \<le> c \<and> c \<le> CHR ''f'' then Some (of_char c - 87)
      else if CHR ''A'' \<le> c \<and> c \<le> CHR ''F'' then Some (of_char c - 55)
      else None)"

text \<open>\<open>url.PathUnescape\<close>; \<open>None\<close> is its \<open>EscapeError\<close>.\<close>

fun path_unescape :: "string \<Rightarrow> string option" where
  "path_unescape [] = Some []"
| "path_unescape (c # cs) =
     (if c = CHR ''%'' then
        (case cs of
           a # b # rest \<Rightarrow>
             (case (hex_value a, hex_value b, path_unescape rest) of
                (Some h, Some l, Some u) \<Rightarrow> Some (char_of (16 * h + l) # u)
              | _ \<Rightarrow> None)
         | _ \<Rightarrow> None)
      else map_option ((#) c) (path_unescape cs))"

text \<open>\<open>url.PathEscape\<close>: everything but the characters allowed in a path segment becomes \<open>%XX\<close>.\<close>

definition segment_char :: "char \<Rightarrow> bool" where
  "segment_char c \<longleftrightarrow> is_digit c \<or> (CHR ''a'' \<le> c \<and> c \<le> CHR ''z'') \<or> (CHR ''A'' \<le> c \<and> c \<le> CHR ''Z'')
     \<or> c \<in> set ''-_.~$&+:=@''"

definition hex_digit :: "nat \<Rightarrow> char" where
  "hex_digit n = (if n < 10 then char_of (48 + n) else char_of (55 + n))"

definition path_escape :: "string \<Rightarrow> string" where
  "path_escape s =
     concat (map (\<lambda>c. if segment_char c then [c]
                      else [CHR ''%'', hex_digit (of_char c div 16), hex_digit (of_char c mod 16)]) s)"

text \<open>\<open>Values.Get\<close>: the first value of the key, the empty string without one.\<close>

definition query_get :: "(string \<times> string) list \<Rightarrow> string \<Rightarrow> string" where
  "query_get q k = (case map_of q k of Some v \<Rightarrow> v | None \<Rightarrow> [])"

text \<open>\<open>strings.EqualFold\<close> with an ASCII word none of whose letters folds to a character outside ASCII.\<close>

definition equal_fold_ascii :: "string \<Rightarrow> string \<Rightarrow> bool" where
  "equal_fold_ascii s word = (to_lower s = to_lower word)"

text \<open>\<open>strings.Split(strings.Trim(path.Clean(p), "/"), "/")\<close>, how every handler splits its path.\<close>

definition path_parts :: "string \<Rightarrow> string list" where
  "path_parts p = split_on (CHR ''/'') (trim_byte (CHR ''/'') (path_clean p))"

definition render_path :: "string list \<Rightarrow> string" where
  "render_path segs = CHR ''/'' # join ''/'' segs"

lemma join_first_char:
  "es \<noteq> [] \<Longrightarrow> list_all plain_elem es \<Longrightarrow> \<exists>c cs. join ''/'' es = c # cs \<and> c \<noteq> CHR ''/''"
proof (cases es)
  case (Cons e rest)
  assume "list_all plain_elem es"
  then obtain c cs where "e = c # cs" "c \<noteq> CHR ''/''" using Cons by (cases e) (auto simp: plain_elem_def)
  then show ?thesis using Cons by (cases rest) auto
qed simp

lemma join_last_char:
  "es \<noteq> [] \<Longrightarrow> list_all plain_elem es \<Longrightarrow> join ''/'' es \<noteq> [] \<and> last (join ''/'' es) \<noteq> CHR ''/''"
proof (induction es)
  case (Cons e es)
  then have "e \<noteq> []" "CHR ''/'' \<notin> set e" by (auto simp: plain_elem_def)
  then have "last e \<noteq> CHR ''/''" by (metis last_in_set)
  then show ?case using Cons \<open>e \<noteq> []\<close> by (cases es) auto
qed simp

text \<open>A path of plain segments is split into exactly these segments.\<close>

lemma path_parts_render:
  assumes ne: "segs \<noteq> []" and plain: "list_all plain_elem segs"
  shows "path_parts (render_path segs) = segs"
proof -
  have noslash: "\<forall>e \<in> set segs. CHR ''/'' \<notin> set e" using plain by (auto simp: list_all_iff plain_elem_def)
  obtain c cs where j: "join ''/'' segs = c # cs" "c \<noteq> CHR ''/''" using join_first_char [OF ne plain] by blast
  have "split_on (CHR ''/'') (render_path segs) = [] # segs"
    using split_on_join [OF ne noslash] by (simp add: render_path_def)
  moreover have "fold (clean_elem True) segs [] = rev segs"
    using fold_clean_plain [OF plain, of True "[]"] by simp
  ultimately have "path_clean (render_path segs) = CHR ''/'' # join ''/'' segs"
    by (simp add: path_clean_def render_path_def is_rooted_def clean_elems_def)
  moreover have "trim_byte (CHR ''/'') (CHR ''/'' # join ''/'' segs) = join ''/'' segs"
  proof -
    have "dropWhile (\<lambda>x. x = CHR ''/'') (rev (c # cs)) = rev (c # cs)"
      using join_last_char [OF ne plain] j by (cases "rev (c # cs)") (auto simp: last_rev hd_rev [symmetric])
    then show ?thesis using j by (simp add: trim_byte_def trim_left_def trim_right_def)
  qed
  ultimately show ?thesis using split_on_join [OF ne noslash] by (simp add: path_parts_def)
qed

lemma path_unescape_plain: "CHR ''%'' \<notin> set s \<Longrightarrow> path_unescape s = Some s"
  by (induction s) auto

lemma hex_digit_int: "n < 16 \<Longrightarrow> hex_value (hex_digit n) = Some n"
proof -
  have "\<forall>n \<in> {0..<16}. hex_value (hex_digit n) = Some n" by code_simp
  then show "n < 16 \<Longrightarrow> hex_value (hex_digit n) = Some n" by simp
qed

lemma path_unescape_escape: "path_unescape (path_escape s) = Some s"
proof (induction s)
  case (Cons c s)
  have "(of_char c :: nat) < 256" by (rule nat_of_char_less_256)
  then have "(of_char c :: nat) div 16 < 16" "(of_char c :: nat) mod 16 < 16" by linarith+
  then have h: "hex_value (hex_digit (of_char c div 16)) = Some (of_char c div 16)"
    "hex_value (hex_digit (of_char c mod 16)) = Some (of_char c mod 16)"
    by (simp_all add: hex_digit_int)
  have "char_of (16 * (of_char c div 16) + of_char c mod 16 :: nat) = c"
    by (simp only: mult_div_mod_eq char_of_char)
  moreover have "\<not> segment_char (CHR ''%'')" by code_simp
  then have "segment_char c \<Longrightarrow> c \<noteq> CHR ''%''" by auto
  ultimately show ?case using Cons h by (auto simp: path_escape_def)
qed (simp add: path_escape_def)

section \<open>Facts about \<open>Atoi\<close>\<close>

lemma atoi_range: "atoi s = Some n \<Longrightarrow> - 9223372036854775808 \<le> n \<and> n \<le> 9223372036854775807"
  by (auto simp: atoi_def Let_def split: if_splits)

lemma atoi_samples:
  "atoi ''25'' = Some 25" "atoi ''-3'' = Some (-3)" "atoi [] = None" "atoi ''1e3'' = None"
  "atoi ''9223372036854775808'' = None"
  by code_simp+

end
