(* ===== verification/Go_Text.thy ===== *)
theory Go_Text
  imports Go_Base
begin

text \<open>
  Text processing on UTF-8 byte strings: the Unicode white space that \<open>strings.Fields\<close> and
  \<open>strings.TrimSpace\<close> see, \<open>utf8.RuneStart\<close>, well-formed UTF-8, and a leftmost search with a
  matcher at each position, which is how the regular expressions of the program are modelled.
\<close>

section \<open>Comparing ignoring case\<close>

text \<open>
  \<open>strings.EqualFold(s, word)\<close> for an ASCII word in lower case is \<open>fold_ascii s = word\<close>: outside ASCII
  only the long s and the Kelvin sign fold to ASCII letters.
\<close>

fun fold_ascii :: "string \<Rightarrow> string" where
  "fold_ascii [] = []"
| "fold_ascii (c # cs) =
     (if has_prefix (c # cs) [CHR 0xC5, CHR 0xBF] then CHR ''s'' # fold_ascii (drop 1 cs)
      else if has_prefix (c # cs) [CHR 0xE2, CHR 0x84, CHR 0xAA] then CHR ''k'' # fold_ascii (drop 2 cs)
      else ascii_lower c # fold_ascii cs)"

section \<open>White space\<close>

text \<open>The runes of Unicode's property White_Space beyond ASCII, by their encodings.\<close>

definition wide_spaces :: "string list" where
  "wide_spaces =
     [[CHR 0xC2, CHR 0x85], [CHR 0xC2, CHR 0xA0], [CHR 0xE1, CHR 0x9A, CHR 0x80],
      [CHR 0xE2, CHR 0x80, CHR 0x80], [CHR 0xE2, CHR 0x80, CHR 0x81], [CHR 0xE2, CHR 0x80, CHR 0x82],
      [CHR 0xE2, CHR 0x80, CHR 0x83], [CHR 0xE2, CHR 0x80, CHR 0x84], [CHR 0xE2, CHR 0x80, CHR 0x85],
      [CHR 0xE2, CHR 0x80, CHR 0x86], [CHR 0xE2, CHR 0x80, CHR 0x87], [CHR 0xE2, CHR 0x80, CHR 0x88],
      [CHR 0xE2, CHR 0x80, CHR 0x89], [CHR 0xE2, CHR 0x80, CHR 0x8A], [CHR 0xE2, CHR 0x80, CHR 0xA8],
      [CHR 0xE2, CHR 0x80, CHR 0xA9], [CHR 0xE2, CHR 0x80, CHR 0xAF], [CHR 0xE2, CHR 0x81, CHR 0x9F],
      [CHR 0xE3, CHR 0x80, CHR 0x80]]"

text \<open>The number of bytes of the white space rune at the head, 0 without one.\<close>

definition space_width :: "string \<Rightarrow> nat" where
  "space_width s =
     (case s of
        [] \<Rightarrow> 0
      | c # _ \<Rightarrow> if is_space c then 1
                else (case List.find (has_prefix s) wide_spaces of None \<Rightarrow> 0 | Some w \<Rightarrow> length w))"

function trim_left_space :: "string \<Rightarrow> string" where
  "trim_left_space s = (if space_width s = 0 then s else trim_left_space (drop (space_width s) s))"
  by pat_completeness auto
termination
proof (relation "measure length")
  fix s :: string assume "space_width s \<noteq> 0"
  moreover from this have "s \<noteq> []" by (auto simp: space_width_def)
  ultimately show "(drop (space_width s) s, s) \<in> measure length" by simp
qed simp

declare trim_left_space.simps [simp del]

fun trim_right_space :: "string \<Rightarrow> string" where
  "trim_right_space [] = []"
| "trim_right_space (c # cs) = (if trim_left_space (c # cs) = [] then [] else c # trim_right_space cs)"

definition trim_text :: "string \<Rightarrow> string" where
  "trim_text s = trim_right_space (trim_left_space s)"

text \<open>\<open>strings.Fields\<close>, with the bytes of the field under way.\<close>

function fields_from :: "string \<Rightarrow> string \<Rightarrow> string list" where
  "fields_from [] cur = (if cur = [] then [] else [cur])"
| "fields_from (c # cs) cur =
     (if space_width (c # cs) = 0 then fields_from cs (cur @ [c])
      else (if cur = [] then [] else [cur]) @ fields_from (drop (space_width (c # cs)) (c # cs)) [])"
  by pat_completeness auto
termination by (relation "measure (\<lambda>(s, cur). length s)") auto

definition normalize_space :: "string \<Rightarrow> string" where
  "normalize_space s = join '' '' (fields_from s [])"

section \<open>Runes\<close>

definition rune_start :: "char \<Rightarrow> bool" where
  "rune_start c \<longleftrightarrow> \<not> (128 \<le> (of_char c :: nat) \<and> (of_char c :: nat) < 192)"

text \<open>The length that the first byte of a rune announces; 0 for a byte that starts none.\<close>

definition rune_length :: "char \<Rightarrow> nat" where
  "rune_length c =
     (let n = of_char c :: nat in
      if n < 128 then 1 else if n < 194 then 0 else if n < 224 then 2 else if n < 240 then 3 else if n < 245 then 4 else 0)"

text \<open>
  The second byte that keeps a longer rune from being overlong, a surrogate or beyond the last code
  point. With it, \<open>utf8\<close> is \<open>utf8.ValidString\<close>.
\<close>

definition second_ok :: "char \<Rightarrow> char \<Rightarrow> bool" where
  "second_ok c d =
     (let n = of_char c :: nat; m = of_char d :: nat in
      (n = 224 \<longrightarrow> 160 \<le> m) \<and> (n = 237 \<longrightarrow> m < 160) \<and> (n = 240 \<longrightarrow> 144 \<le> m) \<and> (n = 244 \<longrightarrow> m < 144))"

definition is_rune :: "string \<Rightarrow> bool" where
  "is_rune r \<longleftrightarrow> r \<noteq> [] \<and> length r = rune_length (hd r) \<and> (\<forall>c \<in> set (tl r). \<not> rune_start c)
     \<and> (1 < length r \<longrightarrow> second_ok (hd r) (r ! 1))"

definition utf8 :: "string \<Rightarrow> bool" where
  "utf8 s \<longleftrightarrow> (\<exists>rs. s = concat rs \<and> (\<forall>r \<in> set rs. is_rune r))"

lemma rune_length_start: "0 < rune_length c \<Longrightarrow> rune_start c"
  by (auto simp: rune_length_def rune_start_def Let_def split: if_splits)

lemma utf8_Nil [simp]: "utf8 []"
  unfolding utf8_def by (rule exI [of _ "[]"]) simp

lemma utf8_append: "utf8 s \<Longrightarrow> utf8 t \<Longrightarrow> utf8 (s @ t)"
  unfolding utf8_def by (metis concat_append UnE set_append)

lemma utf8_rune: "is_rune r \<Longrightarrow> utf8 r"
  unfolding utf8_def by (rule exI [of _ "[r]"]) simp

lemma is_rune_ascii: "of_char c < (128 :: nat) \<Longrightarrow> is_rune [c]"
  by (simp add: is_rune_def rune_length_def)

lemma wide_spaces_runes: "w \<in> set wide_spaces \<Longrightarrow> is_rune w"
  by (auto simp: wide_spaces_def is_rune_def rune_length_def rune_start_def second_ok_def)

text \<open>Where a rune starts, a well-formed string can be cut.\<close>

lemma utf8_cut:
  assumes "\<forall>r \<in> set rs. is_rune r" and "n < length (concat rs)" and "rune_start (concat rs ! n)"
  shows "utf8 (take n (concat rs)) \<and> utf8 (drop n (concat rs))"
  using assms
proof (induction rs arbitrary: n)
  case (Cons r rs)
  show ?case
  proof (cases "n < length r")
    case True
    then have "n = 0"
      using Cons.prems by (cases n; cases r) (auto simp: is_rune_def nth_append)
    moreover have "utf8 (concat (r # rs))" unfolding utf8_def using Cons.prems(1) by blast
    ultimately show ?thesis by simp
  next
    case False
    then have "utf8 (take (n - length r) (concat rs)) \<and> utf8 (drop (n - length r) (concat rs))"
      using Cons by (intro Cons.IH) (auto simp: nth_append)
    then show ?thesis using False Cons.prems(1) utf8_append [OF utf8_rune [of r]] by simp
  qed
qed simp

lemma utf8_take_start:
  "utf8 s \<Longrightarrow> n < length s \<Longrightarrow> rune_start (s ! n) \<Longrightarrow> utf8 (take n s)"
  using utf8_cut unfolding utf8_def [of s] by blast

section \<open>Trimming keeps well-formed UTF-8\<close>

lemma space_width_start:
  assumes "0 < space_width s"
  shows "\<exists>c cs. s = c # cs \<and> rune_start c \<and> is_rune (take (space_width s) s) \<and> space_width s \<le> length s
    \<and> rune_length c = space_width s"
proof -
  obtain c cs where s: "s = c # cs" using assms by (cases s) (auto simp: space_width_def)
  show ?thesis
  proof (cases "is_space c")
    case True
    then have "of_char c < (128 :: nat)" by (auto simp: is_space_def)
    then show ?thesis using s True by (simp add: space_width_def is_rune_ascii rune_start_def rune_length_def)
  next
    case False
    then obtain w where w: "List.find (has_prefix s) wide_spaces = Some w" "space_width s = length w"
      using assms s by (auto simp: space_width_def split: option.splits)
    then have "w \<in> set wide_spaces" "has_prefix s w" by (auto simp: find_Some_iff in_set_conv_nth)
    then have r: "is_rune w" and t: "take (length w) s = w" by (simp_all add: wide_spaces_runes has_prefix_def)
    then have w': "w \<noteq> []" "hd w = c" using s by (auto simp: is_rune_def) (metis hd_take length_greater_0_conv list.sel(1))+
    moreover have "length w \<le> length s" using t by (metis length_take min.cobounded1)
    moreover have "0 < length w" using w' by simp
    moreover have "rune_length c = length w" using r w' by (simp add: is_rune_def)
    ultimately show ?thesis using s r t w(2) rune_length_start [of c] by simp
  qed
qed

lemma utf8_drop_space: "utf8 s \<Longrightarrow> utf8 (drop (space_width s) s)"
proof (cases "0 < space_width s")
  case True
  assume "utf8 s"
  then obtain rs where rs: "s = concat rs" "\<forall>r \<in> set rs. is_rune r" unfolding utf8_def by blast
  obtain c cs where c: "s = c # cs" "rune_length c = space_width s" using space_width_start [OF True] by blast
  obtain r rs' where r: "rs = r # rs'" using rs c by (cases rs) auto
  then have "hd r = c" "is_rune r" using rs c by (auto simp: is_rune_def) (metis append_Cons list.sel(1) neq_Nil_conv)+
  then have "length r = space_width s" using c by (simp add: is_rune_def)
  then have "drop (space_width s) s = concat rs'" using rs r by simp
  then show ?thesis unfolding utf8_def using rs r by auto
qed simp

lemma utf8_trim_left: "utf8 s \<Longrightarrow> utf8 (trim_left_space s)"
proof (induction s rule: trim_left_space.induct)
  case (1 s)
  then show ?case by (subst trim_left_space.simps) (auto simp: utf8_drop_space)
qed

lemma length_trim_left: "length (trim_left_space s) \<le> length s"
proof (induction s rule: trim_left_space.induct)
  case (1 s)
  then show ?case by (subst trim_left_space.simps) auto
qed

lemma trim_right_prefix:
  "\<exists>k \<le> length s. trim_right_space s = take k s \<and> (k < length s \<longrightarrow> 0 < space_width (drop k s))"
proof (induction s)
  case (Cons c cs)
  show ?case
  proof (cases "trim_left_space (c # cs) = []")
    case True
    then have "space_width (c # cs) \<noteq> 0" by (metis list.distinct(1) trim_left_space.simps)
    then show ?thesis using True by (intro exI [of _ 0]) simp
  next
    case False
    obtain k where "k \<le> length cs" "trim_right_space cs = take k cs" "k < length cs \<longrightarrow> 0 < space_width (drop k cs)"
      using Cons.IH by blast
    then show ?thesis using False by (intro exI [of _ "Suc k"]) simp
  qed
qed simp

lemma utf8_trim_right:
  assumes "utf8 s"
  shows "utf8 (trim_right_space s)"
proof -
  obtain k where k: "k \<le> length s" "trim_right_space s = take k s" "k < length s \<longrightarrow> 0 < space_width (drop k s)"
    using trim_right_prefix by blast
  show ?thesis
  proof (cases "k < length s")
    case True
    then obtain c cs where "drop k s = c # cs" "rune_start c" using space_width_start k(3) by blast
    then have "rune_start (s ! k)" using True by (metis nth_via_drop)
    then show ?thesis using utf8_take_start [OF assms True] k(2) by simp
  qed (use k assms in simp)
qed

lemma utf8_trim_text: "utf8 s \<Longrightarrow> utf8 (trim_text s)"
  by (simp add: trim_text_def utf8_trim_left utf8_trim_right)

lemma length_trim_text: "length (trim_text s) \<le> length s"
proof -
  have "length (trim_right_space t) \<le> length t" for t using trim_right_prefix [of t] by auto
  from this [of "trim_left_space s"] show ?thesis using length_trim_left [of s] by (simp add: trim_text_def)
qed

section \<open>Searching\<close>

text \<open>A matcher returns the text it matches at the head of its argument; the leftmost match wins.\<close>

fun find_match :: "(string \<Rightarrow> string option) \<Rightarrow> string \<Rightarrow> string" where
  "find_match m [] = (case m [] of Some t \<Rightarrow> t | None \<Rightarrow> [])"
| "find_match m (c # cs) = (case m (c # cs) of Some t \<Rightarrow> t | None \<Rightarrow> find_match m cs)"

text \<open>A literal, exactly \<open>n\<close> digits, at least one digit, and then one after the other.\<close>

definition m_lit :: "string \<Rightarrow> string \<Rightarrow> string option" where
  "m_lit p s = (if has_prefix s p then Some p else None)"

definition m_digits :: "nat \<Rightarrow> string \<Rightarrow> string option" where
  "m_digits n s = (if n \<le> length s \<and> list_all is_digit (take n s) then Some (take n s) else None)"

definition m_number :: "string \<Rightarrow> string option" where
  "m_number s = (let t = takeWhile is_digit s in if t = [] then None else Some t)"

fun m_seq :: "(string \<Rightarrow> string option) list \<Rightarrow> string \<Rightarrow> string option" where
  "m_seq [] s = Some []"
| "m_seq (m # ms) s =
     (case m s of None \<Rightarrow> None | Some t \<Rightarrow> map_option ((@) t) (m_seq ms (drop (length t) s)))"

fun m_alt :: "(string \<Rightarrow> string option) list \<Rightarrow> string \<Rightarrow> string option" where
  "m_alt [] s = None"
| "m_alt (m # ms) s = (case m s of Some t \<Rightarrow> Some t | None \<Rightarrow> m_alt ms s)"

text \<open>Each of these returns a prefix of its argument.\<close>

definition matches_prefix :: "(string \<Rightarrow> string option) \<Rightarrow> bool" where
  "matches_prefix m \<longleftrightarrow> (\<forall>s t. m s = Some t \<longrightarrow> has_prefix s t)"

lemma find_match_part:
  assumes "matches_prefix m" and "find_match m s \<noteq> []"
  shows "\<exists>a b. s = a @ find_match m s @ b \<and> m (find_match m s @ b) = Some (find_match m s)"
  using assms(2)
proof (induction s)
  case Nil
  have "m [] = Some x \<Longrightarrow> x = []" for x using assms(1) unfolding matches_prefix_def has_prefix_def by fastforce
  then show ?case using Nil by (auto split: option.splits)
next
  case (Cons c cs)
  show ?case
  proof (cases "m (c # cs)")
    case None
    then obtain a b where "cs = a @ find_match m cs @ b" "m (find_match m cs @ b) = Some (find_match m cs)"
      using Cons by auto
    then show ?thesis using None by (intro exI [of _ "c # a"] exI [of _ b]) simp
  next
    case (Some t)
    then have "has_prefix (c # cs) t" using assms(1) by (simp add: matches_prefix_def)
    then obtain b where b: "c # cs = t @ b" by (auto simp: has_prefix_iff)
    have f: "find_match m (c # cs) = t" using Some by simp
    show ?thesis unfolding f using Some b by (intro exI [of _ "[]"] exI [of _ b]) simp
  qed
qed

end
