(* ===== verification/Service_Http.thy ===== *)
theory Service_Http
  imports Service_Refresh Catalog_Selection Go_Net Go_Text
begin

text \<open>
  The HTTP API of \<^verbatim>\<open>internal/service/service.go\<close>, one definition per handler. A handler that only
  reads maps a request and the service state of its critical section to a response; a handler that
  changes the state also returns the new state and the sources for which it started a goroutine.
  A response carries the Go value that \<open>writeJSON\<close> encodes, not its JSON text.
\<close>

section \<open>Requests and responses\<close>

text \<open>
  What \<^verbatim>\<open>net/http\<close> hands to a handler: \<open>http_path\<close> is \<open>URL.Path\<close>, \<open>http_escaped_path\<close> is
  \<open>URL.EscapedPath()\<close>, \<open>http_query\<close> the parsed query in order.
\<close>

record request =
  http_method :: string
  http_path :: string
  http_escaped_path :: string
  http_query :: "(string \<times> string) list"
  http_authorization :: string

definition arg :: "request \<Rightarrow> string \<Rightarrow> string" where
  "arg r k = query_get (http_query r) k"

datatype header =
    Allow string
  | Authenticate string
  | GeneratedAt time
  | SnapshotAge int

record release_item =
  ri_version :: string
  ri_bundle :: string
  ri_digest :: string

record package_item =
  pi_name :: string
  pi_default_channel :: string
  pi_channels :: nat
  pi_bundles :: nat

record channel_view =
  cv_name :: string
  cv_deprecated :: bool
  cv_entries :: nat
  cv_heads :: "release_item list"
  cv_graph :: "entry list"

text \<open>The optional lists of \<open>packageDetails\<close> carry \<open>omitempty\<close>: nil and empty are the same.\<close>

record package_details_view =
  pd_name :: string
  pd_default_channel :: string
  pd_channel_count :: nat
  pd_bundle_count :: nat
  pd_channels :: "channel_view list"
  pd_bundles :: "olm_bundle list"
  pd_graph :: "(string \<times> entry list) list"

datatype resolve_reason = NoReason | NoUpdatePathReason | ReasonError resolve_error

datatype body =
    Empty
  | Message string
  | ErrorText resolve_error
  | Statuses "source_status list"
  | CatalogStatuses "(string \<times> string \<times> source_status) list"
  | OneStatus source_status
  | Packages "package_item list" int
  | Details package_details_view
  | Releases "release_item list"
  | Channels string string "channel_view list"
  | BundleList string "olm_bundle list"
  | GraphOf string "(string \<times> entry list) list"
  | Resolution string "string list" bool resolve_reason
  | AcceptedAll "(string \<times> string) list"
  | AcceptedOne string string
  | OpenShiftBody "release list" string string

record response =
  re_status :: nat
  re_headers :: "header list"
  re_body :: body

text \<open>\<open>http.Error\<close>, \<open>http.NotFound\<close> and \<open>writeJSON\<close> keep the headers that were set before.\<close>

definition http_error :: "header list \<Rightarrow> string \<Rightarrow> nat \<Rightarrow> response" where
  "http_error hs msg code = \<lparr>re_status = code, re_headers = hs, re_body = Message msg\<rparr>"

definition not_found :: "header list \<Rightarrow> response" where
  "not_found hs = http_error hs ''404 page not found'' 404"

definition write_json :: "header list \<Rightarrow> nat \<Rightarrow> body \<Rightarrow> response" where
  "write_json hs code b = \<lparr>re_status = code, re_headers = hs, re_body = b\<rparr>"

definition method_not_allowed :: "string \<Rightarrow> response" where
  "method_not_allowed m = http_error [Allow m] ''method not allowed'' 405"

text \<open>
  What a request meets outside the service: the semver library, the order of its ranges over maps,
  the clock when a source's freshness is judged and when its age is computed, the file system, the
  hash, what the other goroutines do before its \<open>n\<close>-th critical section, and the mux's own answer.
\<close>

record 'v env =
  en_semver :: "'v semver"
  en_iter :: "string list \<Rightarrow> string list"
  en_check :: "string \<Rightarrow> time"
  en_age :: "string \<Rightarrow> time"
  en_read_file :: "string \<Rightarrow> string option"
  en_sha :: "string \<Rightarrow> string"
  en_between :: "nat \<Rightarrow> service \<Rightarrow> service"
  en_mux :: "request \<Rightarrow> response"

section \<open>Catalog names\<close>

definition catalog_source_id :: "string \<Rightarrow> string \<Rightarrow> string option" where
  "catalog_source_id name version =
     (if name = [] then None
      else (case match_catalog_version version of
              None \<Rightarrow> None
            | Some (mj, mn) \<Rightarrow> Some (name @ ''-v'' @ mj @ ''.'' @ mn)))"

text \<open>\<open>strings.LastIndex(s, "-v")\<close>: the parts before and after the last occurrence.\<close>

fun cut_last_dash_v :: "string \<Rightarrow> (string \<times> string) option" where
  "cut_last_dash_v [] = None"
| "cut_last_dash_v (c # cs) =
     (case cut_last_dash_v cs of
        Some (a, b) \<Rightarrow> Some (c # a, b)
      | None \<Rightarrow> if has_prefix (c # cs) ''-v'' then Some ([], drop 1 cs) else None)"

text \<open>The pattern is matched against the text from the \<open>v\<close> on.\<close>

definition catalog_reference :: "string \<Rightarrow> (string \<times> string) option" where
  "catalog_reference i =
     (case cut_last_dash_v i of
        None \<Rightarrow> None
      | Some (name, rest) \<Rightarrow>
          if name = [] then None
          else (case match_catalog_version (''v'' @ rest) of
                  None \<Rightarrow> None
                | Some (mj, mn) \<Rightarrow> Some (name, mj @ ''.'' @ mn)))"

section \<open>Statuses\<close>

definition has_source :: "service \<Rightarrow> string \<Rightarrow> bool" where
  "has_source s i \<longleftrightarrow> source_locked s i \<noteq> None"

definition snapshot_headers :: "time \<Rightarrow> time \<Rightarrow> header list" where
  "snapshot_headers made now = [GeneratedAt made, SnapshotAge (max 0 (time_sub now made))]"

text \<open>\<open>snapshot\<close>: the acceptable snapshot with the headers set, or the response that was written.\<close>

definition served_snapshot :: "'v env \<Rightarrow> service \<Rightarrow> string \<Rightarrow> response + snapshot \<times> header list" where
  "served_snapshot env s i =
     (case map_of (sv_snapshots s) i of
        None \<Rightarrow> Inl (http_error [] ''catalog has no acceptable snapshot'' 503)
      | Some snap \<Rightarrow>
          if \<not> snapshot_acceptable (sv_cfg s) (en_check env i) (sn_generated_at snap)
          then Inl (http_error [] ''catalog has no acceptable snapshot'' 503)
          else Inr (snap, snapshot_headers (sn_generated_at snap) (en_age env i)))"

definition listed_status :: "'v env \<Rightarrow> service \<Rightarrow> source \<Rightarrow> source_status" where
  "listed_status env s c =
     fresh_status s (en_check env (src_id c)) (en_age env (src_id c))
       (case map_of (sv_statuses s) (src_id c) of Some st \<Rightarrow> st | None \<Rightarrow> zero_status\<lparr>st_source := c\<rparr>)"

definition list_catalogs :: "'v env \<Rightarrow> service \<Rightarrow> response" where
  "list_catalogs env s = write_json [] 200 (Statuses (map (listed_status env s) (sc_sources (sv_cfg s))))"

definition list_sources_v2 :: "'v env \<Rightarrow> service \<Rightarrow> response" where
  "list_sources_v2 env s = write_json [] 200 (Statuses (map (listed_status env s) (sc_sources (sv_cfg s))))"

fun catalog_items :: "'v env \<Rightarrow> service \<Rightarrow> source list \<Rightarrow> (string \<times> string \<times> source_status) list" where
  "catalog_items env s [] = []"
| "catalog_items env s (c # cs) =
     (case catalog_reference (src_id c) of
        None \<Rightarrow> catalog_items env s cs
      | Some (name, version) \<Rightarrow> (name, version, listed_status env s c) # catalog_items env s cs)"

definition list_catalogs_v2 :: "'v env \<Rightarrow> service \<Rightarrow> response" where
  "list_catalogs_v2 env s = write_json [] 200 (CatalogStatuses (catalog_items env s (sc_sources (sv_cfg s))))"

definition catalog_status :: "'v env \<Rightarrow> service \<Rightarrow> string \<Rightarrow> response" where
  "catalog_status env s i =
     (let found = (case map_of (sv_statuses s) i of
            Some st \<Rightarrow> Some st
          | None \<Rightarrow> map_option (\<lambda>src. zero_status\<lparr>st_source := src\<rparr>) (source_locked s i))
      in case found of
           None \<Rightarrow> http_error [] ''catalog is not configured'' 404
         | Some st \<Rightarrow> write_json [] 200 (OneStatus (fresh_status s (en_check env i) (en_age env i) st)))"

definition ready_http :: "'v env \<Rightarrow> service \<Rightarrow> response" where
  "ready_http env s =
     (if \<not> ready s (\<lambda>c. en_check env (src_id c))
      then http_error [] ''not all configured catalogs have acceptable snapshots'' 503
      else \<lparr>re_status = 200, re_headers = [], re_body = Empty\<rparr>)"

section \<open>Queries on a package\<close>

definition query_limit :: "request \<Rightarrow> int \<Rightarrow> int \<Rightarrow> int" where
  "query_limit r fallback maximum =
     (case atoi (arg r ''limit'') of
        None \<Rightarrow> fallback
      | Some v \<Rightarrow> if v < 1 then fallback else if v > maximum then maximum else v)"

definition sorted_package_names :: "'v env \<Rightarrow> (string, package) gomap \<Rightarrow> string list" where
  "sorted_package_names env ps = sort_slice (<) (en_iter env (map_keys ps))"

definition sorted_channel_names :: "'v env \<Rightarrow> (string, channel) gomap \<Rightarrow> string list" where
  "sorted_channel_names env cs = sort_slice (channel_less (en_semver env)) (en_iter env (map_keys cs))"

definition sorted_bundle_names :: "'v env \<Rightarrow> (string \<Rightarrow> bool) \<Rightarrow> (string, olm_bundle) gomap \<Rightarrow> string list" where
  "sorted_bundle_names env allowed bs = sort_slice (<) (filter allowed (en_iter env (map_keys bs)))"

definition package_item_of :: "package \<Rightarrow> package_item" where
  "package_item_of p = \<lparr>pi_name = p_name p, pi_default_channel = p_default_channel p,
     pi_channels = length (p_channels p), pi_bundles = length (p_bundles p)\<rparr>"

text \<open>The loop of \<open>listPackages\<close> with the items collected so far.\<close>

fun package_items ::
  "string \<Rightarrow> int \<Rightarrow> (string, package) gomap \<Rightarrow> string list \<Rightarrow> package_item list \<Rightarrow> package_item list" where
  "package_items pre limit ps [] items = items"
| "package_items pre limit ps (name # names) items =
     (if \<not> has_prefix name pre then package_items pre limit ps names items
      else
        let items' = items @ [package_item_of (the (map_of ps name))] in
        if int (length items') = limit then items' else package_items pre limit ps names items')"

definition list_packages :: "'v env \<Rightarrow> request \<Rightarrow> service \<Rightarrow> string \<Rightarrow> response" where
  "list_packages env r s i =
     (case served_snapshot env s i of
        Inl rsp \<Rightarrow> rsp
      | Inr (snap, hs) \<Rightarrow>
          (let limit = query_limit r 100 1000
           in write_json hs 200 (Packages (package_items (arg r ''prefix'') limit (sn_packages snap)
                (sorted_package_names env (sn_packages snap)) []) limit)))"

definition releases_of :: "string list \<Rightarrow> release_item list" where
  "releases_of vs = map (\<lambda>v. \<lparr>ri_version = v, ri_bundle = [], ri_digest = []\<rparr>) vs"

definition channel_request :: "request \<Rightarrow> channel_update_request" where
  "channel_request r = \<lparr>cr_current_channel = arg r ''currentChannel'', cr_current_version = arg r ''currentVersion'',
     cr_current_bundle = arg r ''currentBundle'', cr_selection = arg r ''selection''\<rparr>"

definition version_request :: "string \<Rightarrow> request \<Rightarrow> update_request" where
  "version_request key r = \<lparr>ur_current_version = arg r ''currentVersion'', ur_current_bundle = arg r ''currentBundle'',
     ur_channel = arg r key, ur_mode = arg r ''mode''\<rparr>"

definition answer_releases :: "header list \<Rightarrow> resolve_error + release_item list \<Rightarrow> response" where
  "answer_releases hs res =
     (case res of
        Inl e \<Rightarrow> \<lparr>re_status = 422, re_headers = hs, re_body = ErrorText e\<rparr>
      | Inr items \<Rightarrow> write_json hs 200 (Releases items))"

definition renovate :: "'v env \<Rightarrow> header list \<Rightarrow> request \<Rightarrow> package \<Rightarrow> string \<Rightarrow> response" where
  "renovate env hs r p action =
     answer_releases hs (map_sum (\<lambda>e. e) releases_of
       (if action = ''channel-updates'' then channel_updates (en_semver env) (en_iter env) p (channel_request r)
        else version_updates (en_semver env) (en_iter env) p (version_request ''channel'' r)))"

definition version_updates_v2 :: "'v env \<Rightarrow> header list \<Rightarrow> request \<Rightarrow> package \<Rightarrow> response" where
  "version_updates_v2 env hs r p =
     answer_releases hs (map_sum (\<lambda>e. e) releases_of
       (version_updates (en_semver env) (en_iter env) p (version_request ''operatorChannel'' r)))"

text \<open>\<open>channelReleases\<close> leaves out the first item, the installed state.\<close>

definition candidate_item :: "channel_release \<Rightarrow> release_item" where
  "candidate_item v = \<lparr>ri_version = cl_channel v, ri_bundle = [], ri_digest = cl_bundle v\<rparr>"

definition channel_releases_http :: "'v env \<Rightarrow> header list \<Rightarrow> request \<Rightarrow> package \<Rightarrow> response" where
  "channel_releases_http env hs r p =
     answer_releases hs (map_sum (\<lambda>e. e) (\<lambda>vs. map candidate_item (drop (min 1 (length vs)) vs))
       (channel_releases (en_semver env) (en_iter env) p (channel_request r)))"

definition channel_view_of :: "'v env \<Rightarrow> package \<Rightarrow> bool \<Rightarrow> string \<Rightarrow> channel_view" where
  "channel_view_of env p entries name =
     (let ch = the (map_of (p_channels p) name)
      in \<lparr>cv_name = name, cv_deprecated = ch_deprecated ch, cv_entries = length (ch_entries ch),
          cv_heads = map (\<lambda>b. \<lparr>ri_version = b_version b, ri_bundle = b_name b, ri_digest = []\<rparr>)
                       (channel_heads (en_semver env) p name),
          cv_graph = (if entries then ch_entries ch else [])\<rparr>)"

definition channels_http :: "'v env \<Rightarrow> header list \<Rightarrow> request \<Rightarrow> package \<Rightarrow> response" where
  "channels_http env hs r p =
     write_json hs 200 (Channels (p_name p) (p_default_channel p)
       (map (channel_view_of env p (contains_str (arg r ''include'') ''entries''))
         (sorted_channel_names env (p_channels p))))"

definition bundles_at :: "package \<Rightarrow> string list \<Rightarrow> olm_bundle list" where
  "bundles_at p names = map (\<lambda>name. the (map_of (p_bundles p) name)) names"

definition bundles_http :: "'v env \<Rightarrow> header list \<Rightarrow> request \<Rightarrow> package \<Rightarrow> response" where
  "bundles_http env hs r p =
     (let channel = arg r ''channel'';
          page = (\<lambda>allowed. write_json hs 200 (BundleList (p_name p)
                   (bundles_at p (sorted_bundle_names env allowed (p_bundles p)))))
      in if channel = [] then page (\<lambda>_. True)
         else (case map_of (p_channels p) channel of
                 None \<Rightarrow> http_error hs ''unknown channel'' 404
               | Some ch \<Rightarrow> page (\<lambda>name. name \<in> set (map e_name (ch_entries ch)))))"

definition graph_entries :: "package \<Rightarrow> string list \<Rightarrow> (string \<times> entry list) list" where
  "graph_entries p names = map (\<lambda>name. (name, ch_entries (the (map_of (p_channels p) name)))) names"

definition graph_http :: "'v env \<Rightarrow> header list \<Rightarrow> request \<Rightarrow> package \<Rightarrow> response" where
  "graph_http env hs r p =
     (let requested = arg r ''channel'';
          out = graph_entries p (filter (\<lambda>name. requested = [] \<or> name = requested) (sorted_channel_names env (p_channels p)))
      in if requested \<noteq> [] \<and> out = [] then http_error hs ''unknown channel'' 404
         else write_json hs 200 (GraphOf (p_name p) out))"

definition resolve_http :: "'v env \<Rightarrow> header list \<Rightarrow> request \<Rightarrow> package \<Rightarrow> response" where
  "resolve_http env hs r p =
     (let kind = arg r ''kind'';
          res = (if kind = ''channel'' then channel_updates (en_semver env) (en_iter env) p (channel_request r)
                 else version_updates (en_semver env) (en_iter env) p (version_request ''channel'' r))
      in write_json hs 200 (case res of
           Inl e \<Rightarrow> Resolution kind [] False (ReasonError e)
         | Inr cs \<Rightarrow> Resolution kind cs (length cs > 0) (if length cs = 0 then NoUpdatePathReason else NoReason)))"

definition package_includes :: "string \<Rightarrow> string list option" where
  "package_includes v =
     (if v = [] then Some []
      else (let names = split_on (CHR '','') v
            in if list_all (\<lambda>n. n \<in> {''channels'', ''bundles'', ''graph''}) names then Some names else None))"

definition package_details :: "'v env \<Rightarrow> header list \<Rightarrow> request \<Rightarrow> package \<Rightarrow> response" where
  "package_details env hs r p =
     (case package_includes (arg r ''include'') of
        None \<Rightarrow> http_error hs ''include must contain only channels, bundles, or graph'' 400
      | Some inc \<Rightarrow>
          (let names = sorted_channel_names env (p_channels p)
           in write_json hs 200 (Details
                \<lparr>pd_name = p_name p, pd_default_channel = p_default_channel p,
                 pd_channel_count = length (p_channels p), pd_bundle_count = length (p_bundles p),
                 pd_channels = (if ''channels'' \<in> set inc then map (channel_view_of env p False) names else []),
                 pd_bundles = (if ''bundles'' \<in> set inc
                   then bundles_at p (sorted_bundle_names env (\<lambda>_. True) (p_bundles p)) else []),
                 pd_graph = (if ''graph'' \<in> set inc then graph_entries p names else [])\<rparr>)))"

section \<open>Refreshes\<close>

text \<open>The response, the new state, and the sources whose goroutine was started.\<close>

type_synonym outcome = "service \<times> response \<times> string list"

definition unchanged :: "service \<Rightarrow> response \<Rightarrow> outcome" where
  "unchanged s rsp = (s, rsp, [])"

definition constant_time_equal :: "(string \<Rightarrow> string) \<Rightarrow> string \<Rightarrow> string \<Rightarrow> bool" where
  "constant_time_equal sha expected actual \<longleftrightarrow> sha expected = sha actual"

text \<open>\<open>authorizeRefresh\<close>: \<open>None\<close> lets the request through.\<close>

definition authorize_refresh :: "'v env \<Rightarrow> request \<Rightarrow> service \<Rightarrow> response option" where
  "authorize_refresh env r s =
     (if sc_refresh_token_file (sv_cfg s) = [] then Some (not_found [])
      else (case en_read_file env (sc_refresh_token_file (sv_cfg s)) of
        None \<Rightarrow> Some (http_error [] ''refresh authentication is unavailable'' 503)
      | Some text \<Rightarrow>
          (let token = trim_text text in
           if token = [] then Some (http_error [] ''refresh authentication is unavailable'' 503)
           else (case cut_byte (CHR '' '') (http_authorization r) of
                   (scheme, Some credential) \<Rightarrow>
                     if \<not> equal_fold_ascii scheme ''Bearer'' \<or> credential = []
                        \<or> \<not> constant_time_equal (en_sha env) token credential
                     then Some (http_error [Authenticate ''Bearer realm=\"refresh\"''] ''authentication required'' 401)
                     else None
                 | (_, None) \<Rightarrow>
                     Some (http_error [Authenticate ''Bearer realm=\"refresh\"''] ''authentication required'' 401)))))"

definition refresh_http :: "string \<Rightarrow> service \<Rightarrow> outcome" where
  "refresh_http i s =
     (case queue_refresh i s of (s', (state, found), started) \<Rightarrow>
        if \<not> found then (s', http_error [] ''catalog is not configured'' 404, [])
        else (s', write_json [] 202 (AcceptedOne i state), if started then [i] else []))"

text \<open>\<open>hasSource\<close> and the copy of the token path are critical sections of their own.\<close>

definition refresh_one_http :: "'v env \<Rightarrow> request \<Rightarrow> string \<Rightarrow> service \<Rightarrow> outcome" where
  "refresh_one_http env r i s =
     (if \<not> has_source s i then unchanged s (not_found [])
      else
        let s1 = en_between env 1 s in
        case authorize_refresh env r s1 of
          Some rsp \<Rightarrow> unchanged s1 rsp
        | None \<Rightarrow> refresh_http i (en_between env 2 s1))"

text \<open>One critical section per source, the first with number \<open>n\<close>.\<close>

fun queue_each ::
  "(nat \<Rightarrow> service \<Rightarrow> service) \<Rightarrow> nat \<Rightarrow> string list \<Rightarrow> service \<Rightarrow> service \<times> (string \<times> string) list \<times> string list" where
  "queue_each between n [] s = (s, [], [])"
| "queue_each between n (i # is) s =
     (case queue_refresh i (between n s) of (s1, (state, found), started) \<Rightarrow>
        (case queue_each between (Suc n) is s1 of (s2, results, threads) \<Rightarrow>
           (s2, (i, state) # results, (if started then [i] else []) @ threads)))"

definition refresh_all_http :: "'v env \<Rightarrow> request \<Rightarrow> service \<Rightarrow> outcome" where
  "refresh_all_http env r s =
     (if http_method r \<noteq> ''POST'' then unchanged s (method_not_allowed ''POST'')
      else (case authorize_refresh env r s of
        Some rsp \<Rightarrow> unchanged s rsp
      | None \<Rightarrow>
          (let s1 = en_between env 1 s in
           case queue_each (en_between env) 2 (source_ids s1) s1 of (s2, results, threads) \<Rightarrow>
             (s2, write_json [] 202 (AcceptedAll results), threads))))"

section \<open>Routes\<close>

definition package_page :: "'v env \<Rightarrow> header list \<Rightarrow> request \<Rightarrow> package \<Rightarrow> string \<Rightarrow> response" where
  "package_page env hs r p action =
     (if action \<in> {''updates'', ''channel-updates''} then renovate env hs r p action
      else if action = ''channel-releases'' then channel_releases_http env hs r p
      else if action = ''channels'' then channels_http env hs r p
      else if action = ''bundles'' then bundles_http env hs r p
      else if action = ''graph'' then graph_http env hs r p
      else if action = ''resolve'' then resolve_http env hs r p
      else not_found hs)"

text \<open>The snapshot, then its package, then the page.\<close>

definition with_package ::
  "'v env \<Rightarrow> service \<Rightarrow> string \<Rightarrow> string \<Rightarrow> (header list \<Rightarrow> package \<Rightarrow> response) \<Rightarrow> response" where
  "with_package env s i name page =
     (case served_snapshot env s i of
        Inl rsp \<Rightarrow> rsp
      | Inr (snap, hs) \<Rightarrow>
          (case map_of (sn_packages snap) name of None \<Rightarrow> not_found hs | Some p \<Rightarrow> page hs p))"

definition catalog_v1 :: "'v env \<Rightarrow> request \<Rightarrow> service \<Rightarrow> outcome" where
  "catalog_v1 env r s =
     (let parts = path_parts (http_path r) in
      if length parts < 2 \<or> parts ! 0 \<noteq> ''v1'' \<or> parts ! 1 \<noteq> ''catalogs'' then unchanged s (not_found [])
      else if length parts = 4 \<and> parts ! 3 = ''refresh'' then
        (if http_method r \<noteq> ''POST'' then unchanged s (method_not_allowed ''POST'')
         else refresh_one_http env r (parts ! 2) s)
      else if http_method r \<noteq> ''GET'' then unchanged s (method_not_allowed ''GET'')
      else unchanged s
        (if length parts = 2 then list_catalogs env s
         else if length parts = 4 \<and> parts ! 3 = ''status'' then catalog_status env s (parts ! 2)
         else if length parts = 4 \<and> parts ! 3 = ''packages'' then list_packages env r s (parts ! 2)
         else if length parts \<noteq> 6 \<or> parts ! 3 \<noteq> ''packages'' then not_found []
         else with_package env s (parts ! 2) (parts ! 4) (\<lambda>hs p. package_page env hs r p (parts ! 5))))"

definition package_v2 :: "'v env \<Rightarrow> request \<Rightarrow> service \<Rightarrow> string \<Rightarrow> string \<Rightarrow> string list \<Rightarrow> response" where
  "package_v2 env r s i name action =
     with_package env s i name (\<lambda>hs p.
       if length action = 0 then package_details env hs r p
       else if length action \<noteq> 1 then not_found hs
       else if action ! 0 = ''updates'' then version_updates_v2 env hs r p
       else if action ! 0 = ''channel-updates'' then channel_releases_http env hs r p
       else not_found hs)"

definition source_v2_resource :: "'v env \<Rightarrow> request \<Rightarrow> string \<Rightarrow> string list \<Rightarrow> service \<Rightarrow> outcome" where
  "source_v2_resource env r i route s =
     (if length route = 0 then
        (if http_method r \<noteq> ''GET'' then unchanged s (method_not_allowed ''GET'')
         else unchanged s (catalog_status env s i))
      else if length route = 1 \<and> route ! 0 = ''refresh'' then
        (if http_method r \<noteq> ''POST'' then unchanged s (method_not_allowed ''POST'')
         else refresh_one_http env r i s)
      else if http_method r \<noteq> ''GET'' then unchanged s (method_not_allowed ''GET'')
      else unchanged s
        (if length route = 1 \<and> route ! 0 = ''packages'' then list_packages env r s i
         else if length route < 2 \<or> route ! 0 \<noteq> ''packages'' then not_found []
         else package_v2 env r s i (route ! 1) (drop 2 route)))"

definition catalog_v2 :: "'v env \<Rightarrow> request \<Rightarrow> service \<Rightarrow> outcome" where
  "catalog_v2 env r s =
     (let parts = path_parts (http_path r) in
      if length parts < 2 \<or> parts ! 0 \<noteq> ''v2'' \<or> parts ! 1 \<noteq> ''catalogs'' then unchanged s (not_found [])
      else if length parts = 2 then
        (if http_method r \<noteq> ''GET'' then unchanged s (method_not_allowed ''GET'')
         else unchanged s (list_catalogs_v2 env s))
      else if length parts = 3 \<and> parts ! 2 = ''refresh'' then
        (if http_method r \<noteq> ''POST'' then unchanged s (method_not_allowed ''POST'')
         else refresh_all_http env r s)
      else if length parts < 4 then unchanged s (not_found [])
      else (case catalog_source_id (parts ! 2) (parts ! 3) of
              None \<Rightarrow> unchanged s (not_found [])
            | Some i \<Rightarrow> source_v2_resource env r i (drop 4 parts) s))"

text \<open>Only the source identifier is unescaped.\<close>

definition source_v2 :: "'v env \<Rightarrow> request \<Rightarrow> service \<Rightarrow> outcome" where
  "source_v2 env r s =
     (let parts = path_parts (http_escaped_path r) in
      if length parts < 2 \<or> parts ! 0 \<noteq> ''v2'' \<or> parts ! 1 \<noteq> ''sources'' then unchanged s (not_found [])
      else if length parts = 2 then
        (if http_method r \<noteq> ''GET'' then unchanged s (method_not_allowed ''GET'')
         else unchanged s (list_sources_v2 env s))
      else (case path_unescape (parts ! 2) of
              None \<Rightarrow> unchanged s (http_error [] ''invalid source ID'' 400)
            | Some i \<Rightarrow> source_v2_resource env r i (drop 3 parts) s))"

section \<open>The access log\<close>

text \<open>
  \<open>responseRecorder\<close>: the status and the number of bytes that reached the client, with what the
  wrapped writer was asked to do. \<open>written\<close> is the number of bytes that writer accepts.
\<close>

record recorder =
  rec_status :: nat
  rec_bytes :: nat
  rec_sent :: "nat list"

definition new_recorder :: recorder where
  "new_recorder = \<lparr>rec_status = 0, rec_bytes = 0, rec_sent = []\<rparr>"

definition write_header :: "nat \<Rightarrow> recorder \<Rightarrow> recorder" where
  "write_header status w =
     (if rec_status w \<noteq> 0 then w else w\<lparr>rec_status := status, rec_sent := rec_sent w @ [status]\<rparr>)"

definition recorder_write :: "nat \<Rightarrow> recorder \<Rightarrow> recorder" where
  "recorder_write written w =
     (let w1 = (if rec_status w = 0 then write_header 200 w else w)
      in w1\<lparr>rec_bytes := rec_bytes w1 + written\<rparr>)"

definition status_code :: "recorder \<Rightarrow> nat" where
  "status_code w = (if rec_status w = 0 then 200 else rec_status w)"

end
