(* ===== verification/Config_Resolve.thy ===== *)
theory Config_Resolve
  imports Service_Config
begin

text \<open>
  The configuration file of \<^verbatim>\<open>internal/config/config.go\<close>: the defaults and checks of \<open>resolve\<close>,
  and the expansion of channels, catalogs and explicit sources into the list of sources. The
  YAML decoder and \<open>time.ParseDuration\<close> are arguments of the model.
\<close>

section \<open>Data\<close>

datatype config_error =
    DecodeError string
  | MultipleDocuments
  | ChannelNotString
  | BadChannel string
  | PlatformInvalid read_error
  | DurationInvalid string string
  | DurationNotPositive string
  | SnapshotAgeTooSmall duration duration
  | ConcurrencyTooSmall
  | NothingConfigured
  | CatalogsWithoutChannel
  | DuplicateChannel string
  | DuplicateCatalog string
  | UnknownCatalog string
  | ExplicitIncomplete
  | DuplicateExplicit string
  | SourcePlatformInvalid string read_error

record file_config =
  fc_listen_address :: string
  fc_debug :: bool
  fc_refresh_interval :: string
  fc_refresh_timeout :: string
  fc_max_snapshot_age :: string
  fc_signature_policy :: string
  fc_parse_concurrency :: int
  fc_refresh_token_file :: string
  fc_graph_url :: string
  fc_openshift_timeout :: string
  fc_platform :: string
  fc_channels :: "string list"
  fc_catalogs :: "string list"
  fc_sources :: "source list"

record app_config =
  ac_listen_address :: string
  ac_debug :: bool
  ac_service :: service_config

definition default_platform :: string where
  "default_platform = ''linux/amd64''"

definition built_in_catalogs :: "(string \<times> string) list" where
  "built_in_catalogs =
     [(''redhat'', ''registry.redhat.io/redhat/redhat-operator-index''),
      (''certified'', ''registry.redhat.io/redhat/certified-operator-index''),
      (''community'', ''registry.redhat.io/redhat/community-operator-index'')]"

section \<open>Channels and catalogs\<close>

text \<open>\<open>UnmarshalYAML\<close> of a channel: whether the node is a string scalar, and its text.\<close>

definition unmarshal_channel :: "bool \<Rightarrow> string \<Rightarrow> config_error + string" where
  "unmarshal_channel str_scalar value =
     (if \<not> str_scalar then Inl ChannelNotString
      else (case match_catalog_version value of
              None \<Rightarrow> Inl (BadChannel value)
            | Some (mj, mn) \<Rightarrow> Inr (''v'' @ mj @ ''.'' @ mn)))"

fun check_channel_names :: "string list \<Rightarrow> string list \<Rightarrow> config_error + string list" where
  "check_channel_names seen [] = Inr []"
| "check_channel_names seen (c # cs) =
     (if c \<in> set seen then Inl (DuplicateChannel c)
      else (case check_channel_names (c # seen) cs of Inl e \<Rightarrow> Inl e | Inr rest \<Rightarrow> Inr (c # rest)))"

fun select_loop :: "string list \<Rightarrow> string list \<Rightarrow> config_error + (string \<times> string) list" where
  "select_loop seen [] = Inr []"
| "select_loop seen (n # ns) =
     (if n \<in> set seen then Inl (DuplicateCatalog n)
      else (case map_of built_in_catalogs n of
              None \<Rightarrow> Inl (UnknownCatalog n)
            | Some img \<Rightarrow>
                (case select_loop (n # seen) ns of Inl e \<Rightarrow> Inl e | Inr rest \<Rightarrow> Inr ((n, img) # rest))))"

definition select_catalogs :: "string list \<Rightarrow> config_error + (string \<times> string) list" where
  "select_catalogs names = (if names = [] then Inr built_in_catalogs else select_loop [] names)"

section \<open>Sources\<close>

text \<open>The list of sources built so far and the position of every id in it.\<close>

type_synonym expansion = "source list \<times> (string, nat) gomap"

definition add_source :: "source \<Rightarrow> expansion \<Rightarrow> expansion" where
  "add_source s st = (case st of (sources, pos) \<Rightarrow> (sources @ [s], AList.update (src_id s) (length sources) pos))"

definition generated_source :: "string \<Rightarrow> string \<Rightarrow> string \<times> string \<Rightarrow> source" where
  "generated_source platform ch d =
     \<lparr>src_id = fst d @ ''-'' @ ch, src_image = snd d @ '':'' @ ch, src_platform = platform\<rparr>"

definition generate_sources :: "string \<Rightarrow> string list \<Rightarrow> (string \<times> string) list \<Rightarrow> expansion" where
  "generate_sources platform channels defs =
     fold (\<lambda>ch st. fold (\<lambda>d st. add_source (generated_source platform ch d) st) defs st) channels ([], [])"

definition default_source_platform :: "string \<Rightarrow> source \<Rightarrow> source" where
  "default_source_platform platform s = (if src_platform s = [] then s\<lparr>src_platform := platform\<rparr> else s)"

fun add_explicit :: "string \<Rightarrow> string list \<Rightarrow> source list \<Rightarrow> expansion \<Rightarrow> config_error + expansion" where
  "add_explicit platform seen [] st = Inr st"
| "add_explicit platform seen (raw # raws) st =
     (if src_id raw = [] \<or> src_image raw = [] then Inl ExplicitIncomplete
      else if src_id raw \<in> set seen then Inl (DuplicateExplicit (src_id raw))
      else
        let s = default_source_platform platform raw in
        (case validate_platform (src_platform s) of
           Some e \<Rightarrow> Inl (SourcePlatformInvalid (src_id s) e)
         | None \<Rightarrow>
             (case map_of (snd st) (src_id s) of
                Some i \<Rightarrow> add_explicit platform (src_id s # seen) raws ((fst st)[i := s], snd st)
              | None \<Rightarrow> add_explicit platform (src_id s # seen) raws (add_source s st))))"

definition expand_sources :: "file_config \<Rightarrow> string \<Rightarrow> config_error + source list" where
  "expand_sources raw platform =
     (if fc_channels raw = [] \<and> fc_sources raw = [] then Inl NothingConfigured
      else if fc_channels raw = [] \<and> fc_catalogs raw \<noteq> [] then Inl CatalogsWithoutChannel
      else (case check_channel_names [] (fc_channels raw) of
              Inl e \<Rightarrow> Inl e
            | Inr channels \<Rightarrow>
                (case select_catalogs (fc_catalogs raw) of
                   Inl e \<Rightarrow> Inl e
                 | Inr defs \<Rightarrow>
                     (case add_explicit platform [] (fc_sources raw) (generate_sources platform channels defs) of
                        Inl e \<Rightarrow> Inl e
                      | Inr st \<Rightarrow> Inr (fst st)))))"

section \<open>Resolving the file\<close>

definition parse_duration ::
  "(string \<Rightarrow> string + duration) \<Rightarrow> string \<Rightarrow> string \<Rightarrow> duration \<Rightarrow> config_error + duration" where
  "parse_duration dur name value fallback =
     (if value = [] then Inr fallback
      else (case dur value of Inl e \<Rightarrow> Inl (DurationInvalid name e) | Inr d \<Rightarrow> Inr d))"

definition parse_positive_duration ::
  "(string \<Rightarrow> string + duration) \<Rightarrow> string \<Rightarrow> string \<Rightarrow> duration \<Rightarrow> config_error + duration" where
  "parse_positive_duration dur name value fallback =
     (case parse_duration dur name value fallback of
        Inl e \<Rightarrow> Inl e
      | Inr d \<Rightarrow> if nanos d \<le> 0 then Inl (DurationNotPositive name) else Inr d)"

definition resolve :: "(string \<Rightarrow> string + duration) \<Rightarrow> file_config \<Rightarrow> config_error + app_config" where
  "resolve dur raw =
     (let platform = (if fc_platform raw = [] then default_platform else fc_platform raw) in
      case validate_platform platform of
        Some e \<Rightarrow> Inl (PlatformInvalid e)
      | None \<Rightarrow>
      (case parse_duration dur ''refreshInterval'' (fc_refresh_interval raw) (hours 6) of
        Inl e \<Rightarrow> Inl e
      | Inr interval \<Rightarrow>
      (case parse_positive_duration dur ''refreshTimeout'' (fc_refresh_timeout raw) (seconds 1800) of
        Inl e \<Rightarrow> Inl e
      | Inr timeout \<Rightarrow>
      (case parse_positive_duration dur ''maxSnapshotAge'' (fc_max_snapshot_age raw) default_max_snapshot_age of
        Inl e \<Rightarrow> Inl e
      | Inr age \<Rightarrow>
        let effective = (if nanos interval \<le> 0 then hours 6 else interval) in
        if nanos (age - timeout) \<le> nanos effective then Inl (SnapshotAgeTooSmall effective timeout)
        else
      (case parse_duration dur ''openshiftTimeout'' (fc_openshift_timeout raw) (seconds 30) of
        Inl e \<Rightarrow> Inl e
      | Inr ostimeout \<Rightarrow>
        let conc = (if fc_parse_concurrency raw = 0 then 2 else fc_parse_concurrency raw) in
        if conc < 1 then Inl ConcurrencyTooSmall
        else
      (case expand_sources raw platform of
        Inl e \<Rightarrow> Inl e
      | Inr sources \<Rightarrow>
        Inr \<lparr>ac_listen_address = fc_listen_address raw, ac_debug = fc_debug raw,
             ac_service = \<lparr>sc_sources = sources, sc_refresh_interval = interval, sc_refresh_timeout = timeout,
               sc_max_snapshot_age = age, sc_signature_policy = fc_signature_policy raw,
               sc_parse_concurrency = conc, sc_refresh_token_file = fc_refresh_token_file raw,
               sc_graph_url = fc_graph_url raw, sc_openshift_timeout = ostimeout\<rparr>\<rparr>))))))"

text \<open>
  \<open>Parse\<close>: the outcome of the first decode, and of the second, which must meet the end of the
  input.
\<close>

datatype second_document = EndOfInput | AnotherDocument | SecondError string

definition parse_config ::
  "(string \<Rightarrow> string + duration) \<Rightarrow> string + file_config \<Rightarrow> second_document \<Rightarrow> config_error + app_config" where
  "parse_config dur decoded second =
     (case decoded of
        Inl e \<Rightarrow> Inl (DecodeError e)
      | Inr raw \<Rightarrow>
          (case second of
             AnotherDocument \<Rightarrow> Inl MultipleDocuments
           | SecondError e \<Rightarrow> Inl (DecodeError e)
           | EndOfInput \<Rightarrow> resolve dur raw))"


section \<open>Channels and catalogs\<close>

lemma check_channel_names_iff:
  "check_channel_names seen cs = Inr rs \<longleftrightarrow> rs = cs \<and> distinct cs \<and> set cs \<inter> set seen = {}"
proof (induction cs arbitrary: seen rs)
  case (Cons c cs)
  have "check_channel_names seen (c # cs) = Inr rs \<longleftrightarrow>
      c \<notin> set seen \<and> (\<exists>rest. check_channel_names (c # seen) cs = Inr rest \<and> rs = c # rest)"
    by (auto split: sum.splits)
  then show ?case unfolding Cons.IH by auto
qed auto

definition catalog_table :: "string list \<Rightarrow> (string \<times> string) list" where
  "catalog_table names =
     (if names = [] then built_in_catalogs else map (\<lambda>n. (n, the (map_of built_in_catalogs n))) names)"

lemma select_loop_iff:
  "select_loop seen ns = Inr ds \<longleftrightarrow>
     distinct ns \<and> set ns \<inter> set seen = {} \<and> set ns \<subseteq> dom (map_of built_in_catalogs)
     \<and> ds = map (\<lambda>n. (n, the (map_of built_in_catalogs n))) ns"
proof (induction ns arbitrary: seen ds)
  case (Cons n ns)
  show ?case
  proof (cases "n \<in> set seen \<or> map_of built_in_catalogs n = None")
    case True
    then show ?thesis by auto
  next
    case False
    then obtain img where img: "map_of built_in_catalogs n = Some img" "n \<notin> set seen" by blast
    then have "select_loop seen (n # ns) = Inr ds \<longleftrightarrow>
        (\<exists>rest. select_loop (n # seen) ns = Inr rest \<and> ds = (n, img) # rest)"
      by (auto split: sum.splits)
    also have "\<dots> \<longleftrightarrow> distinct (n # ns) \<and> set (n # ns) \<inter> set seen = {}
        \<and> set (n # ns) \<subseteq> dom (map_of built_in_catalogs)
        \<and> ds = map (\<lambda>n. (n, the (map_of built_in_catalogs n))) (n # ns)"
      unfolding Cons.IH using img by auto
    finally show ?thesis .
  qed
qed auto

lemma select_catalogs_iff:
  "select_catalogs names = Inr ds \<longleftrightarrow>
     distinct names \<and> set names \<subseteq> dom (map_of built_in_catalogs) \<and> ds = catalog_table names"
  by (auto simp: select_catalogs_def select_loop_iff catalog_table_def)

section \<open>Expansion\<close>

definition positions_ok :: "expansion \<Rightarrow> bool" where
  "positions_ok st \<longleftrightarrow>
     (\<forall>i k. map_of (snd st) i = Some k \<longleftrightarrow> k < length (fst st) \<and> src_id (fst st ! k) = i)"

lemma positions_ok_mem:
  assumes "positions_ok st"
  shows "map_of (snd st) i = None \<longleftrightarrow> i \<notin> src_id ` set (fst st)"
proof -
  have "i \<in> src_id ` set (fst st) \<longleftrightarrow> (\<exists>k < length (fst st). src_id (fst st ! k) = i)"
    by (simp add: set_conv_nth image_iff) blast
  also have "\<dots> \<longleftrightarrow> (\<exists>k. map_of (snd st) i = Some k)" using assms unfolding positions_ok_def by blast
  finally show ?thesis by (cases "map_of (snd st) i") auto
qed

lemma positions_ok_add:
  assumes ok: "positions_ok st" and fresh: "src_id s \<notin> src_id ` set (fst st)"
  shows "positions_ok (add_source s st)"
proof -
  obtain ss pos where st: "st = (ss, pos)" by (cases st)
  have "src_id (ss ! k) \<noteq> src_id s" if "k < length ss" for k
  proof -
    have "src_id (ss ! k) \<in> src_id ` set ss" using that by simp
    then show ?thesis using fresh st by (metis fst_conv)
  qed
  then show ?thesis using ok unfolding st positions_ok_def add_source_def
    by (auto simp: nth_append less_Suc_eq)
qed

lemma positions_ok_set:
  assumes ok: "positions_ok st" and i: "map_of (snd st) (src_id s) = Some i"
  shows "positions_ok ((fst st)[i := s], snd st)"
proof -
  have "i < length (fst st)" "src_id (fst st ! i) = src_id s"
    using ok i by (auto simp: positions_ok_def)
  then have "src_id ((fst st)[i := s] ! k) = src_id (fst st ! k)" if "k < length (fst st)" for k
    using that \<open>src_id (fst st ! i) = src_id s\<close> by (cases "k = i") simp_all
  then show ?thesis using ok by (auto simp: positions_ok_def)
qed

lemma generate_list:
  "fst (fold (\<lambda>ch st. fold (\<lambda>d st. add_source (generated_source platform ch d) st) ds st) chs st)
     = fst st @ concat (map (\<lambda>ch. map (generated_source platform ch) ds) chs)"
proof (induction chs arbitrary: st)
  case (Cons ch chs)
  have "fst (fold (\<lambda>d st. add_source (generated_source platform ch d) st) xs st)
      = fst st @ map (generated_source platform ch) xs" for xs st
    by (induction xs arbitrary: st) (auto simp: add_source_def split: prod.splits)
  then show ?case using Cons.IH by simp
qed simp

definition generated :: "string \<Rightarrow> string list \<Rightarrow> (string \<times> string) list \<Rightarrow> source list" where
  "generated platform channels defs = concat (map (\<lambda>ch. map (generated_source platform ch) defs) channels)"

lemma generate_as_fold:
  "generate_sources platform channels defs = fold add_source (generated platform channels defs) ([], [])"
proof -
  have "fold (\<lambda>ch st. fold (\<lambda>d st. add_source (generated_source platform ch d) st) defs st) channels st
      = fold add_source (generated platform channels defs) st" for st
    by (induction channels arbitrary: st) (simp_all add: generated_def fold_map comp_def)
  then show ?thesis by (simp add: generate_sources_def)
qed

lemma positions_ok_fold:
  "positions_ok st \<Longrightarrow> distinct (map src_id ss) \<Longrightarrow> src_id ` set ss \<inter> src_id ` set (fst st) = {} \<Longrightarrow>
     positions_ok (fold add_source ss st) \<and> fst (fold add_source ss st) = fst st @ ss"
proof (induction ss arbitrary: st)
  case (Cons s ss)
  have "fst (add_source s st) = fst st @ [s]" by (simp add: add_source_def split: prod.splits)
  moreover have "positions_ok (add_source s st)" using positions_ok_add Cons.prems by auto
  ultimately show ?case using Cons.IH [of "add_source s st"] Cons.prems by auto
qed simp

text \<open>Names of built-in catalogs have no dash, so an id determines its catalog and its channel.\<close>

lemma generated_ids_distinct:
  assumes "distinct channels" and "distinct (map fst defs)" and nodash: "\<forall>d \<in> set defs. CHR ''-'' \<notin> set (fst d)"
  shows "distinct (map src_id (generated platform channels defs))"
proof -
  have inj: "d = d' \<and> ch = ch'"
    if "d \<in> set defs" "d' \<in> set defs" "fst d @ ''-'' @ ch = fst d' @ ''-'' @ ch'" for d d' ch ch'
  proof -
    have c: "cut_byte (CHR ''-'') (fst d @ ''-'' @ ch) = (fst d, Some ch)"
      "cut_byte (CHR ''-'') (fst d' @ ''-'' @ ch') = (fst d', Some ch')"
      using that(1,2) nodash by (simp_all add: cut_byte_found)
    have e: "cut_byte (CHR ''-'') (fst d @ ''-'' @ ch) = cut_byte (CHR ''-'') (fst d' @ ''-'' @ ch')"
      by (simp only: that(3))
    have "(fst d, Some ch) = (fst d', Some ch')"
      by (rule trans [OF trans [OF c(1) [symmetric] e] c(2)])
    then have "fst d = fst d'" "ch = ch'" by simp_all
    moreover have "inj_on fst (set defs)" using assms(2) by (simp add: distinct_map)
    ultimately show ?thesis using that(1,2) by (blast dest: inj_onD)
  qed
  have gen: "d = d' \<and> ch = ch'"
    if "d \<in> set defs" "d' \<in> set defs"
      "src_id (generated_source platform ch d) = src_id (generated_source platform ch' d')" for d d' ch ch'
    using inj [OF that(1,2)] that(3) by (simp only: generated_source_def source.simps)
  show ?thesis using assms(1)
  proof (induction channels)
    case (Cons ch chs)
    have "distinct defs" using assms(2) by (simp add: distinct_map)
    moreover have "inj_on (\<lambda>d. src_id (generated_source platform ch d)) (set defs)"
      by (rule inj_onI) (use gen in blast)
    ultimately have "distinct (map src_id (map (generated_source platform ch) defs))"
      unfolding map_map comp_def distinct_map by blast
    moreover have "x \<notin> src_id ` set (generated platform chs defs)"
      if x: "x \<in> src_id ` set (map (generated_source platform ch) defs)" for x
    proof
      assume "x \<in> src_id ` set (generated platform chs defs)"
      then obtain ch' d' where "ch' \<in> set chs" "d' \<in> set defs" "x = src_id (generated_source platform ch' d')"
        by (auto simp: generated_def)
      moreover obtain d where "d \<in> set defs" "x = src_id (generated_source platform ch d)"
        using x unfolding set_map by blast
      ultimately have "ch = ch'" using gen by metis
      then show False using \<open>ch' \<in> set chs\<close> Cons.prems by simp
    qed
    ultimately show ?case using Cons by (auto simp: generated_def comp_def)
  qed (simp add: generated_def)
qed

lemma catalog_table_names:
  assumes "distinct names" and "set names \<subseteq> dom (map_of built_in_catalogs)"
  shows "distinct (map fst (catalog_table names))" and "\<forall>d \<in> set (catalog_table names). CHR ''-'' \<notin> set (fst d)"
proof -
  have b: "map fst built_in_catalogs = [''redhat'', ''certified'', ''community'']"
    by (simp add: built_in_catalogs_def)
  show "distinct (map fst (catalog_table names))"
    using assms(1) b by (simp add: catalog_table_def comp_def)
  have d: "dom (map_of built_in_catalogs) = {''redhat'', ''certified'', ''community''}"
    by (simp add: dom_map_of_conv_image_fst built_in_catalogs_def)
  have "CHR ''-'' \<notin> set n" if "n \<in> {''redhat'', ''certified'', ''community''}" for n
    using that by auto
  then have *: "n \<in> dom (map_of built_in_catalogs) \<Longrightarrow> CHR ''-'' \<notin> set n" for n using d by simp
  show "\<forall>d \<in> set (catalog_table names). CHR ''-'' \<notin> set (fst d)"
  proof (cases "names = []")
    case True
    then show ?thesis by (simp add: catalog_table_def built_in_catalogs_def)
  next
    case False
    then show ?thesis using assms(2) * by (auto simp: catalog_table_def)
  qed
qed


section \<open>Explicit sources\<close>

text \<open>
  The specification of the expansion: an explicit source replaces the generated one of the same
  id in place, and the others follow in the order of the file.
\<close>

definition override_sources :: "source list \<Rightarrow> source list \<Rightarrow> source list" where
  "override_sources base explicit =
     map (\<lambda>g. case source_by_id explicit (src_id g) of Some e \<Rightarrow> e | None \<Rightarrow> g) base
     @ filter (\<lambda>e. src_id e \<notin> src_id ` set base) explicit"

definition explicit_ok :: "string \<Rightarrow> source list \<Rightarrow> bool" where
  "explicit_ok platform raws \<longleftrightarrow>
     distinct (map src_id raws)
     \<and> (\<forall>s \<in> set raws. src_id s \<noteq> [] \<and> src_image s \<noteq> []
          \<and> validate_platform (src_platform (default_source_platform platform s)) = None)"

lemma default_source_platform_id [simp]: "src_id (default_source_platform platform s) = src_id s"
  and default_source_platform_image [simp]: "src_image (default_source_platform platform s) = src_image s"
  by (simp_all add: default_source_platform_def)

lemma override_replace:
  assumes d: "distinct (map src_id base)" and i: "i < length base" "src_id (base ! i) = src_id s"
    and fresh: "src_id s \<notin> src_id ` set xs"
  shows "override_sources (base[i := s]) xs = override_sources base (s # xs)"
proof -
  let ?f = "\<lambda>ys g. case source_by_id ys (src_id g) of Some e \<Rightarrow> e | None \<Rightarrow> g"
  have "map (?f xs) (base[i := s]) = map (?f (s # xs)) base"
  proof (rule nth_equalityI)
    fix k assume "k < length (map (?f xs) (base[i := s]))"
    then have k: "k < length base" by simp
    show "map (?f xs) (base[i := s]) ! k = map (?f (s # xs)) base ! k"
    proof (cases "k = i")
      case True
      then show ?thesis using i fresh by (simp add: source_by_id_None [THEN iffD2])
    next
      case False
      then have "src_id s \<noteq> src_id (base ! k)"
        using d i k by (metis distinct_conv_nth length_map nth_map)
      moreover have "base[i := s] ! k = base ! k" using False k by simp
      ultimately show ?thesis using k by (simp cong: option.case_cong)
    qed
  qed simp
  moreover have "src_id ` set (base[i := s]) = src_id ` set base"
  proof -
    have "map src_id (base[i := s]) = map src_id base"
      using i by (simp add: map_update) (metis list_update_id nth_map)
    then show ?thesis by (metis list.set_map)
  qed
  moreover have "src_id s \<in> src_id ` set base" using i by (metis imageI nth_mem)
  ultimately show ?thesis by (simp add: override_sources_def)
qed

lemma override_append:
  assumes new: "src_id s \<notin> src_id ` set base" and fresh: "src_id s \<notin> src_id ` set xs"
  shows "override_sources (base @ [s]) xs = override_sources base (s # xs)"
proof -
  have "source_by_id xs (src_id s) = None" using fresh by (simp add: source_by_id_None)
  moreover have "map (\<lambda>g. case source_by_id xs (src_id g) of Some e \<Rightarrow> e | None \<Rightarrow> g) base
      = map (\<lambda>g. case source_by_id (s # xs) (src_id g) of Some e \<Rightarrow> e | None \<Rightarrow> g) base"
    using new by (auto simp: image_iff)
  moreover have "filter (\<lambda>e. src_id e \<notin> src_id ` set (base @ [s])) xs = filter (\<lambda>e. src_id e \<notin> src_id ` set base) xs"
    using fresh by (auto simp: image_iff intro!: filter_cong)
  ultimately show ?thesis using new by (simp add: override_sources_def)
qed

lemma override_new_source:
  assumes "src_id raw \<notin> src_id ` set base" and "src_id raw \<notin> src_id ` set raws"
  shows "override_sources (base @ [default_source_platform platform raw]) (map (default_source_platform platform) raws)
     = override_sources base (map (default_source_platform platform) (raw # raws))"
  using override_append [of "default_source_platform platform raw" base "map (default_source_platform platform) raws"] assms
  by (auto simp: image_iff)

lemma override_known_source:
  assumes "distinct (map src_id base)" and "i < length base" "src_id (base ! i) = src_id raw" and "src_id raw \<notin> src_id ` set raws"
  shows "override_sources (base[i := default_source_platform platform raw]) (map (default_source_platform platform) raws)
     = override_sources base (map (default_source_platform platform) (raw # raws))"
  using override_replace [of base i "default_source_platform platform raw" "map (default_source_platform platform) raws"] assms
  by (auto simp: image_iff)

lemma add_explicit_iff:
  "positions_ok st \<Longrightarrow> distinct (map src_id (fst st)) \<Longrightarrow>
     (\<exists>st'. add_explicit platform seen raws st = Inr st' \<and> fst st' = ss) \<longleftrightarrow>
       explicit_ok platform raws \<and> src_id ` set raws \<inter> set seen = {}
       \<and> ss = override_sources (fst st) (map (default_source_platform platform) raws)"
proof (induction platform seen raws st rule: add_explicit.induct)
  case (1 platform seen st)
  then show ?case by (auto simp: explicit_ok_def override_sources_def)
next
  case (2 platform seen raw raws st)
  let ?s = "default_source_platform platform raw"
  show ?case
  proof (cases "src_id raw = [] \<or> src_image raw = [] \<or> src_id raw \<in> set seen
      \<or> validate_platform (src_platform ?s) \<noteq> None")
    case True
    then show ?thesis by (auto simp: explicit_ok_def Let_def)
  next
    case False
    then have ok: "\<not> (src_id raw = [] \<or> src_image raw = [])" "src_id raw \<notin> set seen"
      "validate_platform (src_platform ?s) = None" by auto
    have cond: "explicit_ok platform (raw # raws) \<and> src_id ` set (raw # raws) \<inter> set seen = {} \<longleftrightarrow>
        explicit_ok platform raws \<and> src_id ` set raws \<inter> set (src_id ?s # seen) = {}"
      using ok by (auto simp: explicit_ok_def image_iff)
    show ?thesis
    proof (cases "map_of (snd st) (src_id ?s)")
      case None
      let ?st = "add_source ?s st"
      have new: "src_id ?s \<notin> src_id ` set (fst st)" using positions_ok_mem [OF 2(3)] None by blast
      have fst: "fst ?st = fst st @ [?s]" by (simp add: add_source_def split: prod.splits)
      have ih: "(\<exists>st'. add_explicit platform (src_id ?s # seen) raws ?st = Inr st' \<and> fst st' = ss) \<longleftrightarrow>
          explicit_ok platform raws \<and> src_id ` set raws \<inter> set (src_id ?s # seen) = {}
          \<and> ss = override_sources (fst st @ [?s]) (map (default_source_platform platform) raws)"
        using 2(1) [OF ok(1,2) refl ok(3) None] positions_ok_add [OF 2(3) new] 2(4) new
        unfolding fst by simp
      have "src_id ` set raws \<inter> set (src_id ?s # seen) = {} \<Longrightarrow>
          override_sources (fst st @ [?s]) (map (default_source_platform platform) raws)
            = override_sources (fst st) (map (default_source_platform platform) (raw # raws))"
        using override_new_source [of raw "fst st" raws platform] new by simp
      then show ?thesis using ih cond ok None by (auto simp: Let_def)
    next
      case (Some i)
      let ?st = "((fst st)[i := ?s], snd st)"
      have i: "i < length (fst st)" "src_id (fst st ! i) = src_id ?s"
        using 2(3) Some by (auto simp: positions_ok_def)
      have ids: "map src_id ((fst st)[i := ?s]) = map src_id (fst st)"
        using i by (simp add: map_update) (metis list_update_id nth_map)
      have ih: "(\<exists>st'. add_explicit platform (src_id ?s # seen) raws ?st = Inr st' \<and> fst st' = ss) \<longleftrightarrow>
          explicit_ok platform raws \<and> src_id ` set raws \<inter> set (src_id ?s # seen) = {}
          \<and> ss = override_sources ((fst st)[i := ?s]) (map (default_source_platform platform) raws)"
        using 2(2) [OF ok(1,2) refl ok(3) Some] positions_ok_set [OF 2(3) Some] 2(4) ids by simp
      have "src_id ` set raws \<inter> set (src_id ?s # seen) = {} \<Longrightarrow>
          override_sources ((fst st)[i := ?s]) (map (default_source_platform platform) raws)
            = override_sources (fst st) (map (default_source_platform platform) (raw # raws))"
        using override_known_source [OF 2(4) i(1), of raw raws platform] i(2) by simp
      then show ?thesis using ih cond ok Some by (auto simp: Let_def)
    qed
  qed
qed


section \<open>The sources of a configuration\<close>

lemma generate_sources_ok:
  assumes "distinct channels" "distinct names" "set names \<subseteq> dom (map_of built_in_catalogs)"
    and st: "st = generate_sources platform channels (catalog_table names)"
  shows "positions_ok st" "fst st = generated platform channels (catalog_table names)"
    and "distinct (map src_id (fst st))"
proof -
  let ?g = "generated platform channels (catalog_table names)"
  have d: "distinct (map src_id ?g)"
    using generated_ids_distinct assms(1) catalog_table_names [OF assms(2,3)] by blast
  have "positions_ok ([], [])" by (simp add: positions_ok_def)
  from positions_ok_fold [OF this d]
  show "positions_ok st" "fst st = ?g" by (simp_all add: st generate_as_fold)
  then show "distinct (map src_id (fst st))" using d by simp
qed

lemma expand_sources_iff:
  "expand_sources raw platform = Inr sources \<longleftrightarrow>
     (fc_channels raw \<noteq> [] \<or> (fc_sources raw \<noteq> [] \<and> fc_catalogs raw = []))
     \<and> distinct (fc_channels raw)
     \<and> distinct (fc_catalogs raw) \<and> set (fc_catalogs raw) \<subseteq> {''redhat'', ''certified'', ''community''}
     \<and> explicit_ok platform (fc_sources raw)
     \<and> sources = override_sources (generated platform (fc_channels raw) (catalog_table (fc_catalogs raw)))
                   (map (default_source_platform platform) (fc_sources raw))"
proof -
  have dom: "dom (map_of built_in_catalogs) = {''redhat'', ''certified'', ''community''}"
    by (simp add: dom_map_of_conv_image_fst built_in_catalogs_def)
  consider (bad) "\<not> (fc_channels raw \<noteq> [] \<or> (fc_sources raw \<noteq> [] \<and> fc_catalogs raw = []))"
    | (dup) "\<not> (distinct (fc_channels raw) \<and> distinct (fc_catalogs raw)
        \<and> set (fc_catalogs raw) \<subseteq> dom (map_of built_in_catalogs))"
    | (ok) "fc_channels raw \<noteq> [] \<or> (fc_sources raw \<noteq> [] \<and> fc_catalogs raw = [])"
        "distinct (fc_channels raw)" "distinct (fc_catalogs raw)"
        "set (fc_catalogs raw) \<subseteq> dom (map_of built_in_catalogs)" by blast
  then show ?thesis
  proof cases
    case bad
    then show ?thesis by (auto simp: expand_sources_def)
  next
    case dup
    then have "expand_sources raw platform \<noteq> Inr sources"
      by (auto simp: expand_sources_def check_channel_names_iff select_catalogs_iff split: sum.splits)
    then show ?thesis using dup dom by metis
  next
    case ok
    let ?st = "generate_sources platform (fc_channels raw) (catalog_table (fc_catalogs raw))"
    have "check_channel_names [] (fc_channels raw) = Inr (fc_channels raw)"
      using ok(2) by (simp add: check_channel_names_iff)
    moreover have "select_catalogs (fc_catalogs raw) = Inr (catalog_table (fc_catalogs raw))"
      using ok(3,4) by (simp add: select_catalogs_iff)
    ultimately have "expand_sources raw platform = Inr sources \<longleftrightarrow>
        (\<exists>st'. add_explicit platform [] (fc_sources raw) ?st = Inr st' \<and> fst st' = sources)"
      using ok(1) by (auto simp: expand_sources_def split: sum.splits)
    then show ?thesis
      using add_explicit_iff [OF generate_sources_ok(1,3) [OF ok(2,3,4) refl, of platform], where platform = platform
          and seen = "[]" and raws = "fc_sources raw" and ss = sources]
        generate_sources_ok(2) [OF ok(2,3,4) refl, of platform] ok dom by auto
  qed
qed

text \<open>
  C17: The sources of a configuration are exactly the product of its channels and catalogs, with
  the explicit sources of the same id put in place and the other explicit sources appended in file
  order, platforms defaulted; and the expansion succeeds exactly when something is configured,
  catalogs come with a channel, channels, catalogs and explicit ids are not repeated, the catalogs
  are known, and every explicit source has an id, an image and a valid platform.
\<close>

theorem expand_sources_spec:
  "expand_sources raw platform = Inr sources \<longleftrightarrow>
     (fc_channels raw \<noteq> [] \<or> (fc_sources raw \<noteq> [] \<and> fc_catalogs raw = []))
     \<and> distinct (fc_channels raw)
     \<and> distinct (fc_catalogs raw) \<and> set (fc_catalogs raw) \<subseteq> {''redhat'', ''certified'', ''community''}
     \<and> explicit_ok platform (fc_sources raw)
     \<and> sources = override_sources (generated platform (fc_channels raw) (catalog_table (fc_catalogs raw)))
                   (map (default_source_platform platform) (fc_sources raw))"
  by (rule expand_sources_iff)

lemma override_ids:
  "map src_id (override_sources base xs) = map src_id base @ map src_id (filter (\<lambda>e. src_id e \<notin> src_id ` set base) xs)"
  using source_by_id_Some by (auto simp: override_sources_def split: option.splits)

lemma override_mem: "s \<in> set (override_sources base xs) \<Longrightarrow> s \<in> set base \<or> s \<in> set xs"
  using source_by_id_Some by (fastforce simp: override_sources_def split: option.splits)

lemma distinct_keys_append:
  assumes "distinct (map f xs)" and "distinct (map f ys)"
  shows "distinct (map f xs @ map f (filter (\<lambda>e. f e \<notin> f ` set xs) ys))"
proof -
  have "x \<notin> f ` set xs" if "x \<in> set (map f (filter (\<lambda>e. f e \<notin> f ` set xs) ys))" for x
    using that by auto
  then show ?thesis
    unfolding distinct_append set_map [of f xs] using assms(1) distinct_map_filter [OF assms(2)] by blast
qed

lemma override_explicit:
  assumes d: "distinct (map src_id xs)" and s: "s \<in> set xs"
  shows "s \<in> set (override_sources base xs)"
proof (cases "src_id s \<in> src_id ` set base")
  case True
  then obtain g where g: "g \<in> set base" "src_id g = src_id s" unfolding image_iff by (metis (no_types))
  have "(case source_by_id xs (src_id g) of Some e \<Rightarrow> e | None \<Rightarrow> g) = s"
    unfolding g(2) source_by_id_distinct [OF d s] by simp
  then have "s \<in> (\<lambda>g. case source_by_id xs (src_id g) of Some e \<Rightarrow> e | None \<Rightarrow> g) ` set base"
    using g(1) by (rule image_eqI [OF sym])
  then show ?thesis by (simp add: override_sources_def)
next
  case False
  then show ?thesis using s by (simp add: override_sources_def)
qed

definition valid_source :: "source \<Rightarrow> bool" where
  "valid_source s \<longleftrightarrow> src_id s \<noteq> [] \<and> src_image s \<noteq> [] \<and> validate_platform (src_platform s) = None"

lemma expand_sources_valid:
  assumes e: "expand_sources raw platform = Inr sources" and p: "validate_platform platform = None"
  shows "sources \<noteq> [] \<and> distinct (map src_id sources) \<and> (\<forall>s \<in> set sources. valid_source s)"
proof -
  let ?names = "fc_catalogs raw" and ?chs = "fc_channels raw"
  let ?g = "generated platform ?chs (catalog_table ?names)"
  let ?x = "map (default_source_platform platform) (fc_sources raw)"
  have dom: "dom (map_of built_in_catalogs) = {''redhat'', ''certified'', ''community''}"
    by (simp add: dom_map_of_conv_image_fst built_in_catalogs_def)
  have h: "?chs \<noteq> [] \<or> fc_sources raw \<noteq> []" "distinct ?chs" "distinct ?names"
    "set ?names \<subseteq> dom (map_of built_in_catalogs)" "explicit_ok platform (fc_sources raw)"
    and s: "sources = override_sources ?g ?x"
    using iffD1 [OF expand_sources_iff e] dom by auto
  have dx: "distinct (map src_id ?x)" using h(5) by (simp add: explicit_ok_def comp_def)
  have dg: "distinct (map src_id ?g)"
    using generated_ids_distinct [OF h(2) catalog_table_names [OF h(3,4)]] .
  have ids: "distinct (map src_id sources)"
    unfolding s override_ids by (rule distinct_keys_append [OF dg dx])
  have "catalog_table ?names \<noteq> []" by (simp add: catalog_table_def built_in_catalogs_def)
  then have "?chs \<noteq> [] \<Longrightarrow> ?g \<noteq> []" by (cases ?chs) (auto simp: generated_def)
  then have ne: "sources \<noteq> []"
    using h(1) s override_explicit [OF dx] by (cases "?chs = []") (auto simp: override_sources_def generated_def)
  have "valid_source t" if t: "t \<in> set ?g" for t
    using t p by (auto simp: generated_def generated_source_def valid_source_def)
  moreover have "valid_source t" if "t \<in> set ?x" for t
    using that h(5) by (auto simp: explicit_ok_def valid_source_def)
  ultimately show ?thesis using ids ne override_mem s by blast
qed

lemma parse_positive: "parse_positive_duration dur name value d = Inr t \<Longrightarrow> 0 < nanos t"
  by (auto simp: parse_positive_duration_def split: sum.splits if_splits)

text \<open>
  C18: Every configuration that \<open>resolve\<close> accepts is one the service can run: at least one source,
  no id twice, every source with an id, an image and a valid platform, a positive refresh timeout,
  at least one parser, and a snapshot age that exceeds interval plus timeout as whole numbers; the
  64-bit subtraction in the check never wraps. Conversely the check rejects every smaller age.
\<close>

theorem resolve_sound:
  assumes r: "resolve dur raw = Inr cfg"
  defines "sc \<equiv> ac_service cfg"
  shows "sc_sources sc \<noteq> [] \<and> distinct (map src_id (sc_sources sc))
     \<and> (\<forall>s \<in> set (sc_sources sc). valid_source s)
     \<and> 0 < nanos (sc_refresh_timeout sc) \<and> 1 \<le> sc_parse_concurrency sc
     \<and> nanos (sc_refresh_timeout sc)
         + (if nanos (sc_refresh_interval sc) \<le> 0 then nanos (hours 6) else nanos (sc_refresh_interval sc))
       < nanos (sc_max_snapshot_age sc)"
proof -
  let ?p = "if fc_platform raw = [] then default_platform else fc_platform raw"
  from r obtain interval timeout age ostimeout sources where
    p: "validate_platform ?p = None"
    and t: "parse_positive_duration dur ''refreshTimeout'' (fc_refresh_timeout raw) (seconds 1800) = Inr timeout"
    and a: "parse_positive_duration dur ''maxSnapshotAge'' (fc_max_snapshot_age raw) default_max_snapshot_age = Inr age"
    and c: "\<not> nanos (age - timeout) \<le> nanos (if nanos interval \<le> 0 then hours 6 else interval)"
    and k: "\<not> (if fc_parse_concurrency raw = 0 then 2 else fc_parse_concurrency raw) < 1"
    and e: "expand_sources raw ?p = Inr sources"
    and cfg: "sc_sources sc = sources" "sc_refresh_interval sc = interval" "sc_refresh_timeout sc = timeout"
      "sc_max_snapshot_age sc = age"
      "sc_parse_concurrency sc = (if fc_parse_concurrency raw = 0 then 2 else fc_parse_concurrency raw)"
    unfolding resolve_def Let_def sc_def
    by (simp split: option.splits sum.splits if_split_asm) fastforce+
  have "nanos (age - timeout) = nanos age - nanos timeout"
    by (rule nanos_diff) (use parse_positive a t in blast)+
  then show ?thesis
    using cfg c k expand_sources_valid [OF e p] parse_positive [OF t] by (auto split: if_splits)
qed


section \<open>Canonical channels\<close>

text \<open>
  C19: A catalog channel of the file is accepted exactly when it is a string scalar of the form
  \<open>major.minor\<close> or \<open>vmajor.minor\<close> in canonical decimal, both spellings give the same
  canonical channel, and the canonical channel is accepted unchanged.
\<close>

theorem unmarshal_channel_canonical:
  "unmarshal_channel str_scalar value = Inr ch \<longleftrightarrow>
     str_scalar
     \<and> (\<exists>mj mn. (value = mj @ ''.'' @ mn \<or> value = ''v'' @ mj @ ''.'' @ mn)
          \<and> positive_number mj \<and> (mn = ''0'' \<or> positive_number mn) \<and> ch = ''v'' @ mj @ ''.'' @ mn
          \<and> unmarshal_channel True ch = Inr ch)"
proof
  assume "unmarshal_channel str_scalar value = Inr ch"
  then obtain mj mn where m: "str_scalar" "match_catalog_version value = Some (mj, mn)" "ch = ''v'' @ mj @ ''.'' @ mn"
    by (auto simp: unmarshal_channel_def split: if_splits option.splits)
  from m(2) have p: "value = mj @ ''.'' @ mn \<or> value = ''v'' @ mj @ ''.'' @ mn" "positive_number mj"
    "mn = ''0'' \<or> positive_number mn" using match_catalog_version_iff by blast+
  then have "match_catalog_version ch = Some (mj, mn)" using m(3) match_catalog_version_iff by blast
  then have "unmarshal_channel True ch = Inr ch" using m(3) by (simp add: unmarshal_channel_def)
  then show "str_scalar
     \<and> (\<exists>mj mn. (value = mj @ ''.'' @ mn \<or> value = ''v'' @ mj @ ''.'' @ mn)
          \<and> positive_number mj \<and> (mn = ''0'' \<or> positive_number mn) \<and> ch = ''v'' @ mj @ ''.'' @ mn
          \<and> unmarshal_channel True ch = Inr ch)" using m p by blast
next
  assume "str_scalar
     \<and> (\<exists>mj mn. (value = mj @ ''.'' @ mn \<or> value = ''v'' @ mj @ ''.'' @ mn)
          \<and> positive_number mj \<and> (mn = ''0'' \<or> positive_number mn) \<and> ch = ''v'' @ mj @ ''.'' @ mn
          \<and> unmarshal_channel True ch = Inr ch)"
  then obtain mj mn where "str_scalar" "match_catalog_version value = Some (mj, mn)" "ch = ''v'' @ mj @ ''.'' @ mn"
    using match_catalog_version_iff by blast
  then show "unmarshal_channel str_scalar value = Inr ch" by (simp add: unmarshal_channel_def)
qed

section \<open>A sample configuration\<close>

definition ex_file :: file_config where
  "ex_file = \<lparr>fc_listen_address = '':8080'', fc_debug = False, fc_refresh_interval = [], fc_refresh_timeout = ''10m'',
     fc_max_snapshot_age = [], fc_signature_policy = [], fc_parse_concurrency = 0, fc_refresh_token_file = [],
     fc_graph_url = [], fc_openshift_timeout = [], fc_platform = [], fc_channels = [''v4.18''],
     fc_catalogs = [''community'', ''redhat''],
     fc_sources = [\<lparr>src_id = ''mine'', src_image = ''reg/mine'', src_platform = []\<rparr>,
       \<lparr>src_id = ''redhat-v4.18'', src_image = ''mirror/redhat'', src_platform = ''linux/arm64''\<rparr>]\<rparr>"

definition ex_duration :: "string \<Rightarrow> string + duration" where
  "ex_duration s = (if s = ''10m'' then Inr (seconds 600) else Inl ''invalid duration'')"

definition ex_sources :: "source list" where
  "ex_sources =
     [\<lparr>src_id = ''community-v4.18'', src_image = ''registry.redhat.io/redhat/community-operator-index:v4.18'',
        src_platform = ''linux/amd64''\<rparr>,
      \<lparr>src_id = ''redhat-v4.18'', src_image = ''mirror/redhat'', src_platform = ''linux/arm64''\<rparr>,
      \<lparr>src_id = ''mine'', src_image = ''reg/mine'', src_platform = ''linux/amd64''\<rparr>]"

definition ex_config :: app_config where
  "ex_config = \<lparr>ac_listen_address = '':8080'', ac_debug = False, ac_service =
     \<lparr>sc_sources = ex_sources, sc_refresh_interval = hours 6, sc_refresh_timeout = seconds 600,
      sc_max_snapshot_age = default_max_snapshot_age, sc_signature_policy = [], sc_parse_concurrency = 2,
      sc_refresh_token_file = [], sc_graph_url = [], sc_openshift_timeout = seconds 30\<rparr>\<rparr>"

lemma ex_resolve: "resolve ex_duration ex_file = Inr ex_config"
  by code_simp

theorem resolve_sound_witness:
  "distinct (map src_id (sc_sources (ac_service ex_config)))
   \<and> nanos (seconds 600) + nanos (hours 6) < nanos default_max_snapshot_age"
  using resolve_sound [OF ex_resolve] by (simp add: ex_config_def default_max_snapshot_age_def)

lemma ex_expand: "expand_sources ex_file ''linux/amd64'' = Inr ex_sources"
  by code_simp

theorem expand_sources_spec_witness:
  "explicit_ok ''linux/amd64'' (fc_sources ex_file)
   \<and> ex_sources = override_sources (generated ''linux/amd64'' [''v4.18''] (catalog_table [''community'', ''redhat'']))
        (map (default_source_platform ''linux/amd64'') (fc_sources ex_file))"
  using iffD1 [OF expand_sources_spec ex_expand] by (simp add: ex_file_def)

end
