(* ===== verification/Service_Safety.thy ===== *)
theory Service_Safety
  imports Service_Refresh Config_Resolve
begin

text \<open>
  Properties of the refresh: exclusion of refreshes, snapshots of configured sources only, honest
  \<open>refreshing\<close> flags, completion of all background work, the outcome of one refresh, and the effect
  of a reload; and two interleavings that lose or repeat a refresh.
\<close>

section \<open>Concurrency\<close>

text \<open>
  C20: At every moment at most one goroutine is refreshing a catalog, and the semaphore is filled
  exactly while one is: no slot is lost and none is released twice, on the paths with an error, a
  cancelled context or a requeue included.
\<close>

theorem refresh_exclusive:
  assumes "reachable (reader_reads cd iter) w"
  shows "size (filter_mset holding (w_threads w)) = of_bool (w_sem w)"
  using fs_reader.reachable_ok [OF assms] by (simp add: world_ok_def)

text \<open>
  C21: Whatever the interleaving of refreshes and reloads, a stored snapshot was read for a source
  that is configured now, unchanged, and is stored under the id of that source; the same holds of
  every status. And a source reported as refreshing has a goroutine that is waiting or running for
  it, so the flag never stays behind.
\<close>

theorem served_current:
  assumes "reachable (reader_reads cd iter) w"
  shows "(\<forall>i snap. map_of (sv_snapshots (w_svc w)) i = Some snap \<longrightarrow>
            src_id (sn_source snap) = i \<and> sn_source snap \<in> set (sc_sources (sv_cfg (w_svc w))))
       \<and> (\<forall>i st. map_of (sv_statuses (w_svc w)) i = Some st \<longrightarrow>
            src_id (st_source st) = i \<and> st_source st \<in> set (sc_sources (sv_cfg (w_svc w)))
            \<and> (st_refreshing st \<longrightarrow> (\<exists>th \<in># w_threads w. runs_for i th \<or> waits_for i th)))"
proof -
  have ok: "state_ok (w_svc w)" "responsible w"
    using fs_reader.reachable_ok [OF assms] by (simp_all add: world_ok_def)
  have "\<exists>th \<in># w_threads w. runs_for i th \<or> waits_for i th" if "active (w_svc w) i" for i
    using that ok(2) by (auto simp: active_def responsible_def)
  then show ?thesis using ok(1) by (auto simp: state_ok_def current_source_locked_def)
qed

text \<open>
  C22: Refresh work always completes. From every reachable state the goroutines can take at most
  \<open>load w\<close> steps before a new call or reload, however they are scheduled and whatever the reader
  answers, and they are never stuck; once none can step, no goroutine is left, the semaphore is
  free, nothing is queued or running, and no source is reported as refreshing.
\<close>

theorem refresh_completes:
  assumes "reachable (reader_reads cd iter) w" and "(thread_step (reader_reads cd iter) ^^ n) w w'"
  shows "n \<le> load w
     \<and> ((\<nexists>w''. thread_step (reader_reads cd iter) w' w'') \<longrightarrow>
          w_threads w' = {#} \<and> \<not> w_sem w' \<and> sv_queued (w_svc w') = {} \<and> sv_running (w_svc w') = {}
          \<and> (\<forall>i st. map_of (sv_statuses (w_svc w')) i = Some st \<longrightarrow> \<not> st_refreshing st))"
proof -
  have "reachable (reader_reads cd iter) w'"
    using assms(2,1) by (induction n arbitrary: w') (auto intro: reachable_thread)
  then have ok: "world_ok w'" by (rule fs_reader.reachable_ok)
  have "n \<le> load w" using thread_steps_load [OF assms(2)] by simp
  moreover have "w_threads w' = {#}" if "\<nexists>w''. thread_step (reader_reads cd iter) w' w''"
    using thread_step_enabled [OF ok] that by blast
  moreover have "\<not> w_sem w' \<and> sv_queued (w_svc w') = {} \<and> sv_running (w_svc w') = {}
      \<and> (\<forall>i st. map_of (sv_statuses (w_svc w')) i = Some st \<longrightarrow> \<not> st_refreshing st)"
    if "w_threads w' = {#}"
    using ok that by (auto simp: world_ok_def responsible_def state_ok_def active_def)
  ultimately show ?thesis by blast
qed

section \<open>One refresh\<close>

text \<open>
  C23: The outcome of one refresh. A source that is no longer configured changes nothing. A failed
  read keeps every snapshot, records the attempt and the error, and reports the source as
  available exactly if an earlier snapshot exists. A complete read replaces the snapshot of this
  source only, stamped with the time of publication, and clears the error.
\<close>

theorem refresh_outcome:
  "(case refresh src now1 res now2 s of
      (err, s') \<Rightarrow>
        sv_cfg s' = sv_cfg s \<and> sv_queued s' = sv_queued s \<and> sv_running s' = sv_running s
        \<and> (case res of Inl e \<Rightarrow> err = Some e | Inr snap \<Rightarrow> err = None)
        \<and> (if src \<notin> set (sc_sources (sv_cfg s)) then s' = s
           else (\<forall>i. i \<noteq> src_id src \<longrightarrow> map_of (sv_statuses s') i = map_of (sv_statuses s) i
                      \<and> map_of (sv_snapshots s') i = map_of (sv_snapshots s) i)
             \<and> st_source (status_of s' (src_id src)) = src
             \<and> st_last_attempt (status_of s' (src_id src)) = now1
             \<and> st_refreshing (status_of s' (src_id src)) = active s (src_id src)
             \<and> (case res of
                  Inl e \<Rightarrow> map_of (sv_snapshots s') (src_id src) = map_of (sv_snapshots s) (src_id src)
                    \<and> st_last_error (status_of s' (src_id src)) = e
                    \<and> st_available (status_of s' (src_id src)) = (map_of (sv_snapshots s) (src_id src) \<noteq> None)
                    \<and> st_last_success (status_of s' (src_id src)) = st_last_success (status_of s (src_id src))
                | Inr snap \<Rightarrow> map_of (sv_snapshots s') (src_id src) = Some (snap\<lparr>sn_generated_at := now2\<rparr>)
                    \<and> st_last_error (status_of s' (src_id src)) = []
                    \<and> st_available (status_of s' (src_id src))
                    \<and> st_last_success (status_of s' (src_id src)) = now2)))"
proof (cases "src \<in> set (sc_sources (sv_cfg s))")
  case False
  then show ?thesis
    by (cases res) (simp_all add: refresh_def mark_attempt_def mark_failure_def publish_def current_source_locked_def)
next
  case True
  then have "current_source_locked s src" by (simp add: current_source_locked_def)
  then show ?thesis using True
    by (cases res) (auto simp: refresh_def mark_attempt_def mark_failure_def publish_def status_of_def
        put_status_def current_source_locked_def active_def)
qed


section \<open>Reloading\<close>

text \<open>
  C24: A reload takes the new configuration and keeps exactly the snapshots and statuses of sources
  that are configured unchanged. It then refreshes every source when the signature policy or the
  number of parsers changed, and otherwise exactly the sources that are new or changed, in the order
  of the file. The cached OpenShift results are dropped, and lookups under way invalidated, exactly
  when the graph URL changed.
\<close>

theorem reload_effect:
  assumes r: "reload cfg s = (s', todo)"
    and m: "map_ok (sv_snapshots s)" "map_ok (sv_statuses s)"
    and d: "distinct (map src_id (sc_sources (sv_cfg s)))"
  shows "sv_cfg s' = cfg
     \<and> (\<forall>i snap. map_of (sv_snapshots s') i = Some snap \<longleftrightarrow>
          map_of (sv_snapshots s) i = Some snap \<and> sn_source snap \<in> set (sc_sources cfg))
     \<and> (\<forall>i st. map_of (sv_statuses s') i = Some st \<longleftrightarrow>
          map_of (sv_statuses s) i = Some st \<and> st_source st \<in> set (sc_sources cfg))
     \<and> (todo = (if sc_signature_policy cfg \<noteq> sc_signature_policy (sv_cfg s)
                   \<or> sc_parse_concurrency cfg \<noteq> sc_parse_concurrency (sv_cfg s) then None
                else Some (map src_id (filter (\<lambda>c. c \<notin> set (sc_sources (sv_cfg s))) (sc_sources cfg)))))
     \<and> (if sc_graph_url cfg = sc_graph_url (sv_cfg s)
        then sv_os_snapshots s' = sv_os_snapshots s \<and> sv_generation s' = sv_generation s
        else sv_os_snapshots s' = [] \<and> sv_generation s' = wrap64 (sv_generation s + 1))"
proof -
  have "s' = fst (reload cfg s)" "todo = snd (reload cfg s)" using r by simp_all
  moreover have "sv_cfg (fst (reload cfg s)) = cfg" by (simp add: reload_def Let_def)
  moreover have "map_of (sv_snapshots (fst (reload cfg s))) i = Some snap \<longleftrightarrow>
      map_of (sv_snapshots s) i = Some snap \<and> sn_source snap \<in> set (sc_sources cfg)" for i snap
    by (auto simp: reload_def Let_def map_of_filter_entry [OF m(1)] current_source_locked_def split: option.splits if_splits)
  moreover have "map_of (sv_statuses (fst (reload cfg s))) i = Some st \<longleftrightarrow>
      map_of (sv_statuses s) i = Some st \<and> st_source st \<in> set (sc_sources cfg)" for i st
    by (auto simp: reload_def Let_def map_of_filter_entry [OF m(2)] current_source_locked_def split: option.splits if_splits)
  moreover have "snd (reload cfg s) = (if sc_signature_policy cfg \<noteq> sc_signature_policy (sv_cfg s)
                   \<or> sc_parse_concurrency cfg \<noteq> sc_parse_concurrency (sv_cfg s) then None
                else Some (map src_id (filter (\<lambda>c. c \<notin> set (sc_sources (sv_cfg s))) (sc_sources cfg))))"
    by (auto simp: reload_def Let_def source_changes_distinct [OF d])
  moreover have "if sc_graph_url cfg = sc_graph_url (sv_cfg s)
        then sv_os_snapshots (fst (reload cfg s)) = sv_os_snapshots s \<and> sv_generation (fst (reload cfg s)) = sv_generation s
        else sv_os_snapshots (fst (reload cfg s)) = [] \<and> sv_generation (fst (reload cfg s)) = wrap64 (sv_generation s + 1)"
    by (auto simp: reload_def Let_def)
  ultimately show ?thesis by simp
qed

section \<open>Sample runs\<close>

text \<open>A scheduler for sample runs: the index of the goroutine that steps, and its input.\<close>

fun own_read :: "input \<Rightarrow> thread \<Rightarrow> bool" where
  "own_read (ReadOk snap) (Reading j src rd) = (sn_source snap = src)"
| "own_read _ _ = True"

fun exec :: "(nat \<times> input) list \<Rightarrow> bool \<times> service \<times> thread list \<Rightarrow> (bool \<times> service \<times> thread list) option" where
  "exec [] st = Some st"
| "exec ((k, inp) # tr) (sem, s, ths) =
     (if length ths \<le> k \<or> \<not> own_read inp (ths ! k) then None
      else (case run_thread inp (ths ! k) sem s of
              None \<Rightarrow> None
            | Some (sem', s', new) \<Rightarrow> exec tr (sem', s', take k ths @ drop (Suc k) ths @ new)))"

definition world_of :: "bool \<times> service \<times> thread list \<Rightarrow> world" where
  "world_of st = (case st of (sem, s, ths) \<Rightarrow> \<lparr>w_sem = sem, w_svc = s, w_threads = mset ths\<rparr>)"

lemma world_of_sel [simp]:
  "w_sem (world_of st) = fst st" "w_svc (world_of st) = fst (snd st)"
  "w_threads (world_of st) = mset (snd (snd st))"
  by (simp_all add: world_of_def split: prod.split)

lemma exec_steps:
  assumes "exec tr st = Some st'"
    and "\<forall>k snap. (k, ReadOk snap) \<in> set tr \<longrightarrow> reads (sn_source snap) snap"
  shows "(thread_step reads ^^ length tr) (world_of st) (world_of st')"
  using assms
proof (induction tr st rule: exec.induct)
  case (2 k inp tr sem s ths)
  then obtain sem' s' new where k: "k < length ths" and own: "own_read inp (ths ! k)"
    and run: "run_thread inp (ths ! k) sem s = Some (sem', s', new)"
    and rest: "exec tr (sem', s', take k ths @ drop (Suc k) ths @ new) = Some st'"
    by (auto split: if_splits option.splits)
  have "ths = take k ths @ ths ! k # drop (Suc k) ths" using k by (simp add: id_take_nth_drop)
  then have m: "mset ths = add_mset (ths ! k) (mset (take k ths) + mset (drop (Suc k) ths))"
    by (metis mset.simps(2) mset_append union_mset_add_mset_right)
  let ?w = "world_of (sem, s, ths)" and ?w' = "world_of (sem', s', take k ths @ drop (Suc k) ths @ new)"
  have "reads src snap" if "inp = ReadOk snap" "ths ! k = Reading j src rd" for snap j src rd
    using 2(3) own that by auto
  then have "thread_step reads ?w
      \<lparr>w_sem = sem', w_svc = s', w_threads = w_threads ?w - {#ths ! k#} + mset new\<rparr>"
    by (intro thread_step.intros) (use k run in \<open>auto simp: world_of_def\<close>)
  moreover have "\<lparr>w_sem = sem', w_svc = s', w_threads = w_threads ?w - {#ths ! k#} + mset new\<rparr> = ?w'"
    using m by (simp add: world_of_def add.assoc)
  ultimately have "thread_step reads ?w ?w'" by simp
  moreover have "\<not> (length ths \<le> k \<or> \<not> own_read inp (ths ! k))" using k own by simp
  then have "(thread_step reads ^^ length tr) ?w' (world_of st')"
    using 2(1) [OF _ run refl refl rest] 2(3) by auto
  ultimately show ?case unfolding list.size by (metis add_0_right add_Suc_right relpowp_Suc_I2)
qed simp

lemma reachable_steps:
  "(thread_step reads ^^ n) w w' \<Longrightarrow> reachable reads w \<Longrightarrow> reachable reads w'"
  by (induction n arbitrary: w') (auto intro: reachable_thread)

definition ex_cfg :: "source list \<Rightarrow> string \<Rightarrow> service_config" where
  "ex_cfg sources policy = \<lparr>sc_sources = sources, sc_refresh_interval = hours 6, sc_refresh_timeout = seconds 1800,
     sc_max_snapshot_age = default_max_snapshot_age, sc_signature_policy = policy, sc_parse_concurrency = 2,
     sc_refresh_token_file = [], sc_graph_url = [], sc_openshift_timeout = seconds 30\<rparr>"

abbreviation ex_reads :: "source \<Rightarrow> snapshot \<Rightarrow> bool" where
  "ex_reads \<equiv> reader_reads ex_codec (\<lambda>xs. xs)"

definition ex_start :: "bool \<times> service \<times> thread list" where
  "ex_start = (False, new_service (ex_cfg [ex_source] ''old''), [CallAll])"

definition done_with :: "(nat \<times> input) list \<Rightarrow> bool \<times> service \<times> thread list \<Rightarrow> bool \<times> service \<times> thread list" where
  "done_with tr st = (case exec tr st of Some st' \<Rightarrow> st' | None \<Rightarrow> st)"

definition only_reads :: "snapshot \<Rightarrow> (nat \<times> input) list \<Rightarrow> bool" where
  "only_reads snap0 tr \<longleftrightarrow> list_all (\<lambda>(k, inp). case inp of ReadOk snap \<Rightarrow> snap = snap0 | _ \<Rightarrow> True) tr"

lemma ex_start_reachable: "reachable reads (world_of ex_start)"
proof -
  have "client_step (initial_world (ex_cfg [ex_source] ''old'')) (world_of ex_start)"
    using client_step.client_call [of CallAll "initial_world (ex_cfg [ex_source] ''old'')"]
    by (simp add: initial_world_def ex_start_def world_of_def)
  then show ?thesis using reachable_client reachable_start by blast
qed

lemma ex_reads_snapshot: "ex_reads (sn_source ex_snapshot) ex_snapshot"
proof -
  have "sn_source ex_snapshot = ex_source" by (simp add: ex_snapshot_def)
  then show ?thesis unfolding reader_reads_def using ex_read by metis
qed

lemma done_with_steps:
  assumes "exec tr st \<noteq> None" and "only_reads ex_snapshot tr"
  shows "(thread_step ex_reads ^^ length tr) (world_of st) (world_of (done_with tr st))"
proof -
  obtain st' where st': "exec tr st = Some st'" using assms(1) by blast
  have "\<forall>k snap. (k, ReadOk snap) \<in> set tr \<longrightarrow> ex_reads (sn_source snap) snap"
    using assms(2) ex_reads_snapshot by (fastforce simp: only_reads_def list_all_iff)
  then show ?thesis using exec_steps [where reads = ex_reads, OF st'] st' by (simp add: done_with_def)
qed

text \<open>One complete refresh, up to the read and then to the end.\<close>

definition ex_trace1 :: "(nat \<times> input) list" where
  "ex_trace1 = [(0, Go 1), (0, Go 2), (0, Go 3), (0, Go 4), (0, Go 5), (0, Go 6), (0, Go 7)]"

definition ex_trace2 :: "(nat \<times> input) list" where
  "ex_trace2 = [(0, ReadOk ex_snapshot), (0, Go 8), (0, Go 9), (0, Go 10)]"

definition ex_mid :: "bool \<times> service \<times> thread list" where
  "ex_mid = done_with ex_trace1 ex_start"

definition ex_end :: "bool \<times> service \<times> thread list" where
  "ex_end = done_with ex_trace2 ex_mid"

definition runs_through :: "(nat \<times> input) list \<Rightarrow> bool \<times> service \<times> thread list \<Rightarrow> bool" where
  "runs_through tr st \<longleftrightarrow> \<not> Option.is_none (exec tr st) \<and> only_reads ex_snapshot tr"

lemma runs_through_steps:
  "runs_through tr st \<Longrightarrow> (thread_step ex_reads ^^ length tr) (world_of st) (world_of (done_with tr st))"
  using done_with_steps [of tr st] by (simp add: runs_through_def Option.is_none_def)

lemma runs_through_reachable:
  "reachable ex_reads (world_of st) \<Longrightarrow> runs_through tr st \<Longrightarrow> reachable ex_reads (world_of (done_with tr st))"
  using runs_through_steps reachable_steps by blast

lemma ex_runs: "runs_through ex_trace1 ex_start" "runs_through ex_trace2 ex_mid"
  by code_simp+

lemma ex_mid_reachable: "reachable ex_reads (world_of ex_mid)"
  unfolding ex_mid_def by (rule runs_through_reachable [OF ex_start_reachable ex_runs(1)])

lemma ex_end_reachable: "reachable ex_reads (world_of ex_end)"
  unfolding ex_end_def by (rule runs_through_reachable [OF ex_mid_reachable ex_runs(2)])

lemma ex_mid_threads: "snd (snd ex_mid) = [Reading (Background ''ops'') ex_source \<lparr>rd_signature_policy = ''old'', rd_parse_concurrency = 2\<rparr>]"
  by code_simp

theorem refresh_exclusive_witness:
  "\<exists>w. reachable ex_reads w \<and> w_sem w \<and> size (filter_mset holding (w_threads w)) = 1"
proof -
  have "fst ex_mid" by code_simp
  then have "w_sem (world_of ex_mid)" by simp
  then show ?thesis using refresh_exclusive [OF ex_mid_reachable] ex_mid_reachable by auto
qed

lemma ex_end_snapshots: "map_of (sv_snapshots (fst (snd ex_end))) ''ops'' = Some (ex_snapshot\<lparr>sn_generated_at := 8\<rparr>)"
  by code_simp

theorem served_current_witness:
  "\<exists>w. reachable ex_reads w \<and> map_of (sv_snapshots (w_svc w)) ''ops'' \<noteq> None
     \<and> (\<forall>i snap. map_of (sv_snapshots (w_svc w)) i = Some snap \<longrightarrow> sn_source snap \<in> set (sc_sources (sv_cfg (w_svc w))))"
proof (intro exI conjI)
  show "reachable ex_reads (world_of ex_end)" by (rule ex_end_reachable)
  show "map_of (sv_snapshots (w_svc (world_of ex_end))) ''ops'' \<noteq> None" using ex_end_snapshots by simp
  show "\<forall>i snap. map_of (sv_snapshots (w_svc (world_of ex_end))) i = Some snap \<longrightarrow>
      sn_source snap \<in> set (sc_sources (sv_cfg (w_svc (world_of ex_end))))"
    using served_current [OF ex_end_reachable] by blast
qed

theorem refresh_completes_witness:
  "4 \<le> load (world_of ex_mid) \<and> w_threads (world_of ex_end) = {#} \<and> \<not> w_sem (world_of ex_end)"
proof -
  have n: "(thread_step ex_reads ^^ 4) (world_of ex_mid) (world_of ex_end)"
  proof -
    have "length ex_trace2 = 4" by (simp add: ex_trace2_def)
    then show ?thesis using runs_through_steps [OF ex_runs(2)] unfolding ex_end_def by metis
  qed
  have "snd (snd ex_end) = []" by code_simp
  then have e: "w_threads (world_of ex_end) = {#}" by simp
  have "\<nexists>w. thread_step ex_reads (world_of ex_end) w" using e by (auto elim: thread_stepE)
  then show ?thesis using refresh_completes [OF ex_mid_reachable n] e by blast
qed

theorem reload_effect_witness:
  "map_of (sv_snapshots (fst (reload (ex_cfg [] ''old'') (fst (snd ex_end))))) ''ops'' = None
   \<and> snd (reload (ex_cfg [] ''old'') (fst (snd ex_end))) = Some []"
proof -
  have ok: "state_ok (fst (snd ex_end))"
    using fs_reader.reachable_ok [OF ex_end_reachable] by (simp add: world_ok_def)
  have c: "sv_cfg (fst (snd ex_end)) = ex_cfg [ex_source] ''old''" by code_simp
  show ?thesis
    using reload_effect [of "ex_cfg [] ''old''" "fst (snd ex_end)" "fst (reload (ex_cfg [] ''old'') (fst (snd ex_end)))"
        "snd (reload (ex_cfg [] ''old'') (fst (snd ex_end)))"] ok c ex_end_snapshots
    by (auto simp: state_ok_def ex_cfg_def)
qed


theorem refresh_outcome_witness:
  "map_of (sv_snapshots (snd (refresh ex_source 20 (Inl ''timeout'') 21 (fst (snd ex_end))))) ''ops''
     = Some (ex_snapshot\<lparr>sn_generated_at := 8\<rparr>)
   \<and> st_last_error (status_of (snd (refresh ex_source 20 (Inl ''timeout'') 21 (fst (snd ex_end)))) ''ops'') = ''timeout''"
proof -
  have "sv_cfg (fst (snd ex_end)) = ex_cfg [ex_source] ''old''" by code_simp
  then show ?thesis
    using refresh_outcome [of "fst (snd ex_end)" "Inl ''timeout''" ex_source 20 21] ex_end_snapshots
    by (simp add: split_beta) (simp add: ex_cfg_def ex_source_def)
qed

section \<open>Two interleavings\<close>

definition with_reload :: "service_config \<Rightarrow> bool \<times> service \<times> thread list \<Rightarrow> bool \<times> service \<times> thread list" where
  "with_reload cfg st = (case st of (sem, s, ths) \<Rightarrow>
     (case reload cfg s of (s', todo) \<Rightarrow>
        (sem, s', ths @ [case todo of None \<Rightarrow> CallAll | Some ids \<Rightarrow> CallQueue ids])))"

definition with_call :: "string list \<Rightarrow> bool \<times> service \<times> thread list \<Rightarrow> bool \<times> service \<times> thread list" where
  "with_call ids st = (case st of (sem, s, ths) \<Rightarrow> (sem, s, ths @ [CallQueue ids]))"

lemma reachable_reload:
  assumes "reachable reads (world_of st)"
  shows "reachable reads (world_of (with_reload cfg st))"
proof -
  obtain sem s ths where st: "st = (sem, s, ths)" by (cases st)
  obtain s' todo where r: "reload cfg s = (s', todo)" by fastforce
  have "client_step (world_of st) (world_of (with_reload cfg st))"
    using client_step.client_reload [where w = "world_of st", unfolded world_of_sel, of cfg s' todo] r
    by (simp add: st with_reload_def) (simp add: world_of_def)
  then show ?thesis using assms reachable_client by blast
qed

lemma reachable_call:
  assumes "reachable reads (world_of st)"
  shows "reachable reads (world_of (with_call ids st))"
proof -
  obtain sem s ths where st: "st = (sem, s, ths)" by (cases st)
  have "client_step (world_of st) (world_of (with_call ids st))"
    using client_step.client_call [of "CallQueue ids" "world_of st"]
    by (simp add: st with_call_def) (simp add: world_of_def)
  then show ?thesis using assms reachable_client by blast
qed

text \<open>
  A goroutine that finds its source removed clears the queued mark a second time, in
  \<open>finishQueued\<close>, after it released the mutex. When the source is configured again in between, it
  clears the mark of the goroutine that the second reload started, and the next call starts
  another one: the same source is queued twice.
\<close>

definition race1 :: "bool \<times> service \<times> thread list" where
  "race1 = done_with [(0, Go 1), (0, Go 2), (0, Go 3)] ex_start"

definition race2 :: "bool \<times> service \<times> thread list" where
  "race2 = done_with [(1, Go 4), (0, Go 5), (0, Go 6)] (with_reload (ex_cfg [] ''old'') race1)"

definition race3 :: "bool \<times> service \<times> thread list" where
  "race3 = done_with [(1, Go 7), (1, Go 8), (0, Go 9)] (with_reload (ex_cfg [ex_source] ''old'') race2)"

definition race4 :: "bool \<times> service \<times> thread list" where
  "race4 = done_with [(2, Go 10), (2, Go 11)] (with_call [''ops''] race3)"

lemma race_runs:
  "runs_through [(0, Go 1), (0, Go 2), (0, Go 3)] ex_start"
  "runs_through [(1, Go 4), (0, Go 5), (0, Go 6)] (with_reload (ex_cfg [] ''old'') race1)"
  "runs_through [(1, Go 7), (1, Go 8), (0, Go 9)] (with_reload (ex_cfg [ex_source] ''old'') race2)"
  "runs_through [(2, Go 10), (2, Go 11)] (with_call [''ops''] race3)"
  by code_simp+

lemma race_reachable: "reachable ex_reads (world_of race4)"
proof -
  have "reachable ex_reads (world_of race1)"
    unfolding race1_def by (rule runs_through_reachable [OF ex_start_reachable race_runs(1)])
  then have "reachable ex_reads (world_of race2)"
    unfolding race2_def by (rule runs_through_reachable [OF reachable_reload race_runs(2)])
  then have "reachable ex_reads (world_of race3)"
    unfolding race3_def by (rule runs_through_reachable [OF reachable_reload race_runs(3)])
  then show ?thesis
    unfolding race4_def by (rule runs_through_reachable [OF reachable_call race_runs(4)])
qed

lemma queue_race:
  "\<exists>w. reachable ex_reads w \<and> {#QueuedWait ''ops'', QueuedWait ''ops''#} \<subseteq># w_threads w"
proof -
  have "snd (snd race4) = [QueuedWait ''ops'', Release, QueuedWait ''ops'']" by code_simp
  then have "{#QueuedWait ''ops'', QueuedWait ''ops''#} \<subseteq># w_threads (world_of race4)" by simp
  then show ?thesis using race_reachable by blast
qed

text \<open>
  A reload that changes the signature policy while a source is being read does not read that source
  again: \<open>QueueRefresh\<close> finds it running, and the end of the run compares the source only. The
  snapshot read under the old policy is published under the new one.
\<close>

definition policy1 :: "bool \<times> service \<times> thread list" where
  "policy1 = with_reload (ex_cfg [ex_source] ''new'') ex_mid"

definition policy2 :: "bool \<times> service \<times> thread list" where
  "policy2 = done_with [(1, Go 12), (1, Go 13), (1, Go 14), (0, ReadOk ex_snapshot), (0, Go 15), (0, Go 16), (0, Go 17)] policy1"

lemma policy_run:
  "runs_through [(1, Go 12), (1, Go 13), (1, Go 14), (0, ReadOk ex_snapshot), (0, Go 15), (0, Go 16), (0, Go 17)] policy1"
  by code_simp

lemma policy_not_applied:
  "\<exists>w rd w'. reachable ex_reads w \<and> Reading (Background ''ops'') ex_source rd \<in># w_threads w
     \<and> rd_signature_policy rd = ''old'' \<and> sc_signature_policy (sv_cfg (w_svc w)) = ''new''
     \<and> (thread_step ex_reads ^^ 7) w w'
     \<and> w_threads w' = {#} \<and> map_of (sv_snapshots (w_svc w')) ''ops'' \<noteq> None
     \<and> sc_signature_policy (sv_cfg (w_svc w')) = ''new''"
proof (intro exI conjI)
  let ?w = "world_of policy1" and ?w' = "world_of policy2"
  show "reachable ex_reads ?w" unfolding policy1_def by (rule reachable_reload [OF ex_mid_reachable])
  have "snd (snd policy1) = [Reading (Background ''ops'') ex_source \<lparr>rd_signature_policy = ''old'', rd_parse_concurrency = 2\<rparr>, CallAll]"
    by code_simp
  then show "Reading (Background ''ops'') ex_source \<lparr>rd_signature_policy = ''old'', rd_parse_concurrency = 2\<rparr> \<in># w_threads ?w"
    by simp
  show "rd_signature_policy \<lparr>rd_signature_policy = ''old'', rd_parse_concurrency = 2\<rparr> = ''old''" by simp
  have "sc_signature_policy (sv_cfg (fst (snd policy1))) = ''new''" by code_simp
  then show "sc_signature_policy (sv_cfg (w_svc ?w)) = ''new''" by simp
  have "length [(1, Go 12), (1, Go 13), (1, Go 14), (0, ReadOk ex_snapshot), (0, Go 15), (0, Go 16), (0 :: nat, Go 17)] = 7"
    by simp
  then show "(thread_step ex_reads ^^ 7) ?w ?w'"
    using runs_through_steps [OF policy_run] unfolding policy2_def by metis
  have "snd (snd policy2) = []" by code_simp
  then show "w_threads ?w' = {#}" by simp
  have "map_of (sv_snapshots (fst (snd policy2))) ''ops'' = Some (ex_snapshot\<lparr>sn_generated_at := 15\<rparr>)" by code_simp
  then show "map_of (sv_snapshots (w_svc ?w')) ''ops'' \<noteq> None" by simp
  have "sc_signature_policy (sv_cfg (fst (snd policy2))) = ''new''" by code_simp
  then show "sc_signature_policy (sv_cfg (w_svc ?w')) = ''new''" by simp
qed

end
