(* ===== verification/Service_Api.thy ===== *)
theory Service_Api
  imports Service_Http Service_Safety
begin

text \<open>
  Properties of the catalog API: who may refresh, what a listing contains, which routes agree, and which
  snapshot a query is answered from.
\<close>

section \<open>Authorisation\<close>

definition authorized :: "'v env \<Rightarrow> request \<Rightarrow> service \<Rightarrow> bool" where
  "authorized env r s \<longleftrightarrow>
     sc_refresh_token_file (sv_cfg s) \<noteq> []
     \<and> (\<exists>text scheme credential.
          en_read_file env (sc_refresh_token_file (sv_cfg s)) = Some text \<and> trim_text text \<noteq> []
          \<and> http_authorization r = scheme @ '' '' @ credential \<and> to_lower scheme = ''bearer'' \<and> credential \<noteq> []
          \<and> en_sha env credential = en_sha env (trim_text text))"

lemma bearer_chars: "to_lower s = ''bearer'' \<Longrightarrow> CHR '' '' \<notin> set s"
proof
  assume a: "to_lower s = ''bearer''" "CHR '' '' \<in> set s"
  then have "ascii_lower (CHR '' '') \<in> set ''bearer''" unfolding to_lower_def by (metis image_eqI set_map)
  then show False by (simp add: ascii_lower_def)
qed

lemma authorize_refresh_iff: "authorize_refresh env r s = None \<longleftrightarrow> authorized env r s"
proof
  assume "authorize_refresh env r s = None"
  then obtain content scheme credential where
    a: "sc_refresh_token_file (sv_cfg s) \<noteq> []" "en_read_file env (sc_refresh_token_file (sv_cfg s)) = Some content"
      "trim_text content \<noteq> []" "cut_byte (CHR '' '') (http_authorization r) = (scheme, Some credential)"
      "to_lower scheme = to_lower ''Bearer''" "credential \<noteq> []"
      "en_sha env (trim_text content) = en_sha env credential"
    by (auto simp: authorize_refresh_def Let_def equal_fold_ascii_def constant_time_equal_def
        split: if_splits option.splits prod.splits)
  moreover have "to_lower ''Bearer'' = ''bearer''" by code_simp
  ultimately show "authorized env r s"
    using cut_byte_Some [of "CHR '' ''" "http_authorization r" scheme credential] unfolding authorized_def by auto
next
  assume "authorized env r s"
  then obtain content scheme credential where
    a: "sc_refresh_token_file (sv_cfg s) \<noteq> []" "en_read_file env (sc_refresh_token_file (sv_cfg s)) = Some content"
      "trim_text content \<noteq> []" "http_authorization r = scheme @ '' '' @ credential" "to_lower scheme = ''bearer''"
      "credential \<noteq> []" "en_sha env credential = en_sha env (trim_text content)"
    unfolding authorized_def by blast
  have "cut_byte (CHR '' '') (http_authorization r) = (scheme, Some credential)"
    using a(4) cut_byte_found [OF bearer_chars [OF a(5)], of credential] by simp
  moreover have "to_lower ''Bearer'' = ''bearer''" by code_simp
  ultimately show "authorize_refresh env r s = None"
    using a by (simp add: authorize_refresh_def Let_def equal_fold_ascii_def constant_time_equal_def)
qed

text \<open>What a handler may do: either it only saw the others' steps, or it queued refreshes with a valid token.\<close>

definition denied_or_authorized :: "'v env \<Rightarrow> request \<Rightarrow> service \<Rightarrow> outcome \<Rightarrow> bool" where
  "denied_or_authorized env r s out = (case out of (s', rsp, threads) \<Rightarrow>
     if re_status rsp = 202
     then http_method r = ''POST'' \<and> (authorized env r s \<or> authorized env r (en_between env 1 s))
     else threads = [] \<and> s' \<in> {s, en_between env 1 s, en_between env 2 (en_between env 1 s)})"

lemma unchanged_denied: "re_status rsp \<noteq> 202 \<Longrightarrow> denied_or_authorized env r s (unchanged s rsp)"
  by (simp add: denied_or_authorized_def unchanged_def)

lemma authorize_refresh_status: "authorize_refresh env r s = Some rsp \<Longrightarrow> re_status rsp \<in> {401, 404, 503}"
  by (auto simp: authorize_refresh_def not_found_def http_error_def Let_def split: if_splits option.splits prod.splits)

lemma queue_refresh_missing: "queue_refresh i s = (s', (state, False), started) \<Longrightarrow> s' = s"
  by (auto simp: queue_refresh_def split: option.splits if_splits)

lemma refresh_http_result:
  "refresh_http i s = (s', rsp, threads) \<Longrightarrow> re_status rsp = 202 \<or> re_status rsp = 404 \<and> s' = s \<and> threads = []"
  by (auto simp: refresh_http_def http_error_def write_json_def dest: queue_refresh_missing split: prod.splits if_splits)

lemma refresh_one_denied:
  assumes "http_method r = ''POST''"
  shows "denied_or_authorized env r s (refresh_one_http env r i s)"
proof (cases "has_source s i")
  case True
  show ?thesis
  proof (cases "authorize_refresh env r (en_between env 1 s)")
    case None
    then have "authorized env r (en_between env 1 s)" by (simp add: authorize_refresh_iff)
    then show ?thesis using True None assms
      by (auto simp: refresh_one_http_def denied_or_authorized_def dest: refresh_http_result)
  next
    case (Some rsp)
    then show ?thesis using True authorize_refresh_status [OF Some]
      by (auto simp: refresh_one_http_def denied_or_authorized_def unchanged_def)
  qed
qed (simp add: refresh_one_http_def denied_or_authorized_def unchanged_def not_found_def http_error_def)

lemma refresh_all_denied: "denied_or_authorized env r s (refresh_all_http env r s)"
proof (cases "authorize_refresh env r s")
  case None
  then have "authorized env r s" by (simp add: authorize_refresh_iff)
  then show ?thesis using None
    by (auto simp: refresh_all_http_def denied_or_authorized_def unchanged_def method_not_allowed_def http_error_def
        write_json_def Let_def split: prod.splits)
next
  case (Some rsp)
  then show ?thesis using authorize_refresh_status [OF Some]
    by (auto simp: refresh_all_http_def denied_or_authorized_def unchanged_def method_not_allowed_def http_error_def)
qed

section \<open>Statuses of the read-only pages\<close>

named_theorems page_defs

lemmas [page_defs] = http_error_def not_found_def write_json_def method_not_allowed_def list_catalogs_def
  list_sources_v2_def list_catalogs_v2_def catalog_status_def list_packages_def answer_releases_def renovate_def
  version_updates_v2_def channel_releases_http_def channels_http_def bundles_http_def graph_http_def resolve_http_def
  package_details_def package_page_def Let_def

definition read_codes :: "nat set" where
  "read_codes = {200, 400, 404, 405, 422, 503}"

lemma served_snapshot_error: "served_snapshot env s i = Inl rsp \<Longrightarrow> rsp = http_error [] ''catalog has no acceptable snapshot'' 503"
  by (auto simp: served_snapshot_def split: option.splits if_splits)

lemma page_status:
  "re_status (package_page env hs r p action) \<in> {200, 404, 422}"
  "re_status (package_details env hs r p) \<in> {200, 400}"
  "re_status (version_updates_v2 env hs r p) \<in> {200, 422}"
  "re_status (channel_releases_http env hs r p) \<in> {200, 422}"
  "re_status (list_packages env r s i) \<in> {200, 503}"
  "re_status (catalog_status env s i) \<in> {200, 404}"
  by (auto simp: page_defs served_snapshot_def split: sum.splits option.splits prod.splits)

lemma with_package_status:
  assumes "\<And>hs p. re_status (page hs p) \<in> {200, 400, 404, 422}"
  shows "re_status (with_package env s i name page) \<in> {200, 400, 404, 422, 503}"
  using assms by (auto simp: with_package_def page_defs split: sum.splits option.splits prod.splits
      dest!: served_snapshot_error)

lemma status_not_202:
  "re_status rsp \<in> {200, 400, 404, 422, 503} \<Longrightarrow> re_status rsp \<noteq> 202"
  by auto

lemma package_v2_status: "re_status (package_v2 env r s i name action) \<in> {200, 400, 404, 422, 503}"
  unfolding package_v2_def
proof (rule with_package_status)
  fix hs p
  show "re_status (if length action = 0 then package_details env hs r p
       else if length action \<noteq> 1 then not_found hs
       else if action ! 0 = ''updates'' then version_updates_v2 env hs r p
       else if action ! 0 = ''channel-updates'' then channel_releases_http env hs r p
       else not_found hs) \<in> {200, 400, 404, 422}"
    using page_status(2) [of env hs r p] page_status(3) [of env hs r p] page_status(4) [of env hs r p]
    by (auto simp: not_found_def http_error_def)
qed

lemma source_v2_resource_denied: "denied_or_authorized env r s (source_v2_resource env r i route s)"
proof -
  have "re_status (catalog_status env s i) \<noteq> 202" "re_status (list_packages env r s i) \<noteq> 202"
    "re_status (package_v2 env r s i (route ! 1) (drop 2 route)) \<noteq> 202"
    using page_status(5) [of env r s i] page_status(6) [of env s i]
      package_v2_status [of env r s i "route ! 1" "drop 2 route"] by auto
  then show ?thesis
    by (auto simp: source_v2_resource_def refresh_one_denied unchanged_denied method_not_allowed_def not_found_def
        http_error_def)
qed

lemma catalog_v1_denied: "denied_or_authorized env r s (catalog_v1 env r s)"
proof -
  have p: "re_status (with_package env s i name (\<lambda>hs p. package_page env hs r p action)) \<noteq> 202" for i name action
  proof -
    have "re_status (with_package env s i name (\<lambda>hs p. package_page env hs r p action)) \<in> {200, 400, 404, 422, 503}"
      by (rule with_package_status) (use page_status(1) in blast)
    then show ?thesis by (rule status_not_202)
  qed
  have "re_status (catalog_status env s i) \<noteq> 202" "re_status (list_packages env r s i) \<noteq> 202" for i
    using page_status(5) [of env r s i] page_status(6) [of env s i] by auto
  moreover have "re_status (list_catalogs env s) \<noteq> 202" by (simp add: list_catalogs_def write_json_def)
  ultimately show ?thesis using p
    by (auto simp: catalog_v1_def Let_def refresh_one_denied unchanged_denied method_not_allowed_def not_found_def
        http_error_def)
qed

lemma catalog_v2_denied: "denied_or_authorized env r s (catalog_v2 env r s)"
  by (auto simp: catalog_v2_def Let_def refresh_all_denied source_v2_resource_denied unchanged_denied
      method_not_allowed_def not_found_def http_error_def list_catalogs_v2_def write_json_def split: option.split)

lemma source_v2_denied: "denied_or_authorized env r s (source_v2 env r s)"
  by (auto simp: source_v2_def Let_def source_v2_resource_denied unchanged_denied
      method_not_allowed_def not_found_def http_error_def list_sources_v2_def write_json_def split: option.split)

section \<open>Refreshing every source\<close>

text \<open>
  What a section of \<open>QueueRefresh\<close> finds for an id and leaves behind: the state it reports, whether it
  starts a goroutine, and the service with the id queued and its status refreshing.
\<close>

definition found_state :: "service \<Rightarrow> string \<Rightarrow> string" where
  "found_state s i =
     (if i \<notin> set (source_ids s) then [] else if i \<in> sv_running s then ''running'' else ''queued'')"

definition newly_queued :: "service \<Rightarrow> string \<Rightarrow> bool" where
  "newly_queued s i \<longleftrightarrow> i \<in> set (source_ids s) \<and> i \<notin> sv_running s \<and> i \<notin> sv_queued s"

definition after_queue :: "service \<Rightarrow> string \<Rightarrow> service" where
  "after_queue s i =
     (if newly_queued s i
      then s\<lparr>sv_queued := sv_queued s \<union> {i},
             sv_statuses := AList.update i
               ((status_of s i)\<lparr>st_source := hd (filter (\<lambda>c. src_id c = i) (sc_sources (sv_cfg s))), st_refreshing := True\<rparr>)
               (sv_statuses s)\<rparr>
      else s)"

lemma source_locked_hd:
  "source_locked s i = (if i \<in> set (source_ids s) then Some (hd (filter (\<lambda>c. src_id c = i) (sc_sources (sv_cfg s)))) else None)"
proof -
  have "source_by_id cs i = (if i \<in> src_id ` set cs then Some (hd (filter (\<lambda>c. src_id c = i) cs)) else None)" for cs
    by (induction cs) auto
  then show ?thesis by (simp add: source_locked_def source_ids_def)
qed

lemma queue_refresh_section:
  "queue_refresh i s = (after_queue s i, (found_state s i, i \<in> set (source_ids s)), newly_queued s i)"
  by (simp add: queue_refresh_def source_locked_hd after_queue_def found_state_def newly_queued_def put_status_def status_of_def)

lemma call_queue_step:
  "run_thread (Go now) (CallQueue (i # is)) sem s =
     Some (sem, after_queue s i, CallQueue is # (if newly_queued s i then [QueuedWait i] else []))"
  by (simp add: on_go_def spawned_def queue_refresh_section)

text \<open>The states after each section, with the other goroutines' steps before it.\<close>

lemma queue_each_sections:
  "queue_each between n is s = (s', results, threads) \<Longrightarrow>
     \<exists>after. after 0 = s \<and> after (length is) = s' \<and> length results = length is
       \<and> (\<forall>k < length is. results ! k = (is ! k, found_state (between (n + k) (after k)) (is ! k))
            \<and> after (Suc k) = after_queue (between (n + k) (after k)) (is ! k))
       \<and> threads = map ((!) is) (filter (\<lambda>k. newly_queued (between (n + k) (after k)) (is ! k)) [0..<length is])"
proof (induction "is" arbitrary: n s s' results threads)
  case Nil
  then show ?case by (intro exI [of _ "\<lambda>k. s"]) simp
next
  case (Cons i "is")
  let ?b = "between n s"
  obtain s2 res ths where r: "queue_each between (Suc n) is (after_queue ?b i) = (s2, res, ths)" by (metis prod.collapse)
  have e: "s' = s2" "results = (i, found_state ?b i) # res" "threads = (if newly_queued ?b i then [i] else []) @ ths"
    using Cons.prems r by (simp_all add: queue_refresh_section)
  obtain after where a: "after 0 = after_queue ?b i" "after (length is) = s2" "length res = length is"
    "\<forall>k < length is. res ! k = (is ! k, found_state (between (Suc n + k) (after k)) (is ! k))
       \<and> after (Suc k) = after_queue (between (Suc n + k) (after k)) (is ! k)"
    "ths = map ((!) is) (filter (\<lambda>k. newly_queued (between (Suc n + k) (after k)) (is ! k)) [0..<length is])"
    using Cons.IH [OF r] by blast
  let ?after = "case_nat s after"
  have up: "[0..<length (i # is)] = 0 # map Suc [0..<length is]" by (simp add: map_Suc_upt upt_conv_Cons del: upt_Suc)
  have t: "threads = map ((!) (i # is))
      (filter (\<lambda>k. newly_queued (between (n + k) (?after k)) ((i # is) ! k)) [0..<length (i # is)])"
    unfolding up e(3) a(5) by (simp add: filter_map comp_def)
  have "results ! k = ((i # is) ! k, found_state (between (n + k) (?after k)) ((i # is) ! k))
      \<and> ?after (Suc k) = after_queue (between (n + k) (?after k)) ((i # is) ! k)" if "k < length (i # is)" for k
    using that a(1,4) e(2) by (cases k) auto
  then show ?case using t a(2,3) e(1,2) by (intro exI [of _ ?after]) simp
qed

text \<open>
  C28: An accepted refresh of all sources. The answer lists every source that is configured when the
  ids are read, in the order of the configuration, each with the state found when its own section
  runs: nothing for a source that was removed in between, running or queued for one that already is,
  and queued for one that the request itself queues. Only the last gets a new waiting goroutine, one
  each; its section adds the id to the queued ones and marks the status of the configured source as
  refreshing, every other section leaves the service as it is. Each section is the step of the
  goroutine \<open>CallQueue\<close> of the refresh model at that point, with the other goroutines' steps in
  between.
\<close>

theorem refresh_all_refines:
  assumes "http_method r = ''POST''" and "authorized env r s"
  shows "\<exists>results threads after.
     (let s1 = en_between env 1 s;
          ids = map src_id (sc_sources (sv_cfg s1));
          before = (\<lambda>k. en_between env (2 + k) (after k))
      in refresh_all_http env r s = (after (length ids), write_json [] 202 (AcceptedAll results), threads)
       \<and> after 0 = s1 \<and> length results = length ids
       \<and> (\<forall>k < length ids. results ! k = (ids ! k, found_state (before k) (ids ! k))
            \<and> after (Suc k) = after_queue (before k) (ids ! k)
            \<and> run_thread (Go now) (CallQueue (drop k ids)) sem (before k)
                = Some (sem, after (Suc k), CallQueue (drop (Suc k) ids)
                    # (if newly_queued (before k) (ids ! k) then [QueuedWait (ids ! k)] else [])))
       \<and> threads = map ((!) ids) (filter (\<lambda>k. newly_queued (before k) (ids ! k)) [0..<length ids]))"
proof -
  define s1 where s1: "s1 = en_between env 1 s"
  define ids where ids: "ids = map src_id (sc_sources (sv_cfg s1))"
  obtain s' results threads where q: "queue_each (en_between env) 2 ids s1 = (s', results, threads)"
    by (metis prod.collapse)
  have "authorize_refresh env r s = None" using assms(2) by (simp add: authorize_refresh_iff)
  then have h: "refresh_all_http env r s = (s', write_json [] 202 (AcceptedAll results), threads)"
    using assms(1) q by (simp add: refresh_all_http_def source_ids_def Let_def s1 ids)
  have step: "run_thread (Go now) (CallQueue (drop k ids)) sem b = Some (sem, after_queue b (ids ! k),
      CallQueue (drop (Suc k) ids) # (if newly_queued b (ids ! k) then [QueuedWait (ids ! k)] else []))"
    if "k < length ids" for k b
    unfolding Cons_nth_drop_Suc [OF that, symmetric] by (rule call_queue_step)
  obtain after where "after 0 = s1" "after (length ids) = s'" "length results = length ids"
    "\<forall>k < length ids. results ! k = (ids ! k, found_state (en_between env (2 + k) (after k)) (ids ! k))
       \<and> after (Suc k) = after_queue (en_between env (2 + k) (after k)) (ids ! k)"
    "threads = map ((!) ids) (filter (\<lambda>k. newly_queued (en_between env (2 + k) (after k)) (ids ! k)) [0..<length ids])"
    using queue_each_sections [OF q] by blast
  then show ?thesis
    using h step unfolding Let_def s1 [symmetric] ids [symmetric]
    by (intro exI [of _ results] exI [of _ threads] exI [of _ after]) (simp del: run_thread.simps)
qed

section \<open>Listing packages\<close>

lemma sorted_by_str: "sorted_by (<) (xs :: string list) \<longleftrightarrow> sorted xs"
  by (simp add: sorted_by_def not_less)

lemma sort_slice_str: "sort_slice (<) xs = sort (xs :: string list)"
proof (rule sorted_by_unique [OF str_order.weak_order_axioms])
  show "sorted_by (<) (sort_slice (<) xs)" by (rule slice.sorted_srt [OF str_order.weak_order_axioms])
  show "sorted_by (<) (sort xs)" by (simp add: sorted_by_str)
qed (auto simp: sort_facts)

lemma sort_distinct_set: "distinct xs \<Longrightarrow> sort xs = sorted_list_of_set (set (xs :: string list))"
  by (simp add: sorted_list_of_set_sort_remdups distinct_remdups_id)

lemma package_items_take:
  assumes "int (length items) < limit"
  shows "package_items pre limit ps names items
     = items @ take (nat limit - length items) (map (\<lambda>n. package_item_of (the (map_of ps n))) (filter (\<lambda>n. has_prefix n pre) names))"
  using assms
proof (induction names arbitrary: items)
  case (Cons name names)
  show ?case
  proof (cases "has_prefix name pre \<and> int (length items) + 1 < limit")
    case True
    then have "nat limit - length items = Suc (nat limit - Suc (length items))" by linarith
    then show ?thesis using True Cons.IH [of "items @ [package_item_of (the (map_of ps name))]"] by (simp add: Let_def)
  next
    case False
    then consider "\<not> has_prefix name pre" | "has_prefix name pre" "int (length items) + 1 = limit"
      using Cons.prems by linarith
    then show ?thesis
    proof cases
      case 1
      then show ?thesis using Cons by simp
    next
      case 2
      then have "nat limit - length items = Suc 0" by linarith
      then show ?thesis using 2 by (simp add: Let_def)
    qed
  qed
qed simp

lemma query_limit_bounds: "1 \<le> query_limit r 100 1000 \<and> query_limit r 100 1000 \<le> 1000"
  by (auto simp: query_limit_def split: option.split)

text \<open>
  C29: A package listing is a page of the snapshot that is served: the packages whose names start
  with the requested prefix, in the order of their names, cut after the limit. The limit is the
  requested one when that is a number from 1 to 1000, 1000 when it is a greater 64-bit number, and
  100 otherwise; so no request makes the page longer than 1000 entries, and the order of the map does
  not matter.
\<close>

theorem list_packages_page:
  assumes it: "is_iter (en_iter env)" and snap: "served_snapshot env s i = Inr (snap, hs)"
    and ok: "map_ok (sn_packages snap)"
  shows "\<exists>limit. 1 \<le> limit \<and> limit \<le> 1000
     \<and> limit = (case atoi (arg r ''limit'') of None \<Rightarrow> 100 | Some v \<Rightarrow> if v < 1 then 100 else min v 1000)
     \<and> list_packages env r s i = write_json hs 200 (Packages
          (map (\<lambda>n. package_item_of (the (map_of (sn_packages snap) n)))
            (take (nat limit) (sorted_list_of_set
              {n. map_of (sn_packages snap) n \<noteq> None \<and> has_prefix n (arg r ''prefix'')}))) limit)"
proof -
  let ?keys = "map_keys (sn_packages snap)" and ?pre = "arg r ''prefix''"
  let ?limit = "query_limit r 100 1000"
  have b: "1 \<le> ?limit" "?limit \<le> 1000" using query_limit_bounds by auto
  have "?limit = (case atoi (arg r ''limit'') of None \<Rightarrow> 100 | Some v \<Rightarrow> if v < 1 then 100 else min v 1000)"
    by (auto simp: query_limit_def split: option.split)
  moreover have "filter (\<lambda>n. has_prefix n ?pre) (sorted_package_names env (sn_packages snap))
      = sorted_list_of_set {n. map_of (sn_packages snap) n \<noteq> None \<and> has_prefix n ?pre}"
  proof -
    have d: "distinct (en_iter env ?keys)" "set (en_iter env ?keys) = set ?keys"
      using ok is_iter_distinct [OF it] is_iter_set [OF it] by auto
    have "filter (\<lambda>n. has_prefix n ?pre) (sort (en_iter env ?keys)) = sort (filter (\<lambda>n. has_prefix n ?pre) (en_iter env ?keys))"
      by (simp add: filter_sort)
    also have "\<dots> = sorted_list_of_set (set (filter (\<lambda>n. has_prefix n ?pre) (en_iter env ?keys)))"
      using sort_distinct_set [OF distinct_filter [OF d(1)]] by blast
    also have "set (filter (\<lambda>n. has_prefix n ?pre) (en_iter env ?keys))
        = {n. map_of (sn_packages snap) n \<noteq> None \<and> has_prefix n ?pre}"
      using d(2) by (auto simp: map_of_eq_None_iff)
    finally show ?thesis by (simp add: sorted_package_names_def sort_slice_str)
  qed
  then have "list_packages env r s i = write_json hs 200 (Packages
          (map (\<lambda>n. package_item_of (the (map_of (sn_packages snap) n)))
            (take (nat ?limit) (sorted_list_of_set
              {n. map_of (sn_packages snap) n \<noteq> None \<and> has_prefix n ?pre}))) ?limit)"
    using snap b by (simp add: list_packages_def Let_def package_items_take take_map)
  ultimately show ?thesis using b by blast
qed

section \<open>Catalog references\<close>

lemma cut_last_dash_v_none: "CHR ''-'' \<notin> set s \<Longrightarrow> cut_last_dash_v s = None"
  by (induction s) (auto simp: has_prefix_def)

lemma cut_last_dash_v_append: "CHR ''-'' \<notin> set b \<Longrightarrow> cut_last_dash_v (a @ ''-v'' @ b) = Some (a, b)"
  by (induction a) (auto simp: has_prefix_def cut_last_dash_v_none)

lemma cut_last_dash_v_Some: "cut_last_dash_v s = Some (a, b) \<Longrightarrow> s = a @ ''-v'' @ b"
proof (induction s arbitrary: a)
  case (Cons c cs)
  show ?case
  proof (cases "cut_last_dash_v cs")
    case None
    then have "has_prefix (c # cs) ''-v''" "a = []" "b = drop 1 cs" using Cons.prems by (auto split: if_splits)
    then show ?thesis by (cases cs) (auto simp: has_prefix_def)
  next
    case (Some ab)
    then show ?thesis using Cons by (cases ab) auto
  qed
qed simp

lemma number_chars: "positive_number n \<or> n = ''0'' \<Longrightarrow> CHR ''-'' \<notin> set n \<and> CHR ''.'' \<notin> set n \<and> CHR ''/'' \<notin> set n"
  by (cases n) (auto simp: positive_number_def is_digit_def list_all_iff)

text \<open>
  C30: Catalog routes and source identifiers translate back and forth. The pair that a listing shows
  for a source addresses exactly that source; the route of a catalog and a version, written with or
  without the letter v, leads to one identifier, whose listed pair is the catalog with the version in
  the form without the letter.
\<close>

theorem catalog_reference_roundtrip:
  "(catalog_reference i = Some (name, version) \<longrightarrow> catalog_source_id name version = Some i)
   \<and> (catalog_source_id name version = Some i \<longrightarrow>
        catalog_reference i = Some (name, trim_prefix version ''v'')
        \<and> catalog_source_id name (trim_prefix version ''v'') = Some i)"
proof (intro conjI impI)
  assume "catalog_reference i = Some (name, version)"
  then obtain rest mj mn where c: "cut_last_dash_v i = Some (name, rest)" "name \<noteq> []"
    "match_catalog_version (''v'' @ rest) = Some (mj, mn)" "version = mj @ ''.'' @ mn"
    by (auto simp: catalog_reference_def split: option.splits if_splits)
  have n: "positive_number mj" "mn = ''0'' \<or> positive_number mn"
    and r: "''v'' @ rest = mj @ ''.'' @ mn \<or> ''v'' @ rest = ''v'' @ mj @ ''.'' @ mn"
    using c(3) unfolding match_catalog_version_iff by auto
  have "rest = mj @ ''.'' @ mn" using r positive_number_chars [OF n(1)] by (cases mj) auto
  moreover have "match_catalog_version version = Some (mj, mn)" unfolding match_catalog_version_iff using c(4) n by blast
  ultimately show "catalog_source_id name version = Some i"
    using c(2) cut_last_dash_v_Some [OF c(1)] by (simp add: catalog_source_id_def)
next
  assume "catalog_source_id name version = Some i"
  then obtain mj mn where m: "match_catalog_version version = Some (mj, mn)" "name \<noteq> []"
    "i = name @ ''-v'' @ mj @ ''.'' @ mn"
    by (auto simp: catalog_source_id_def split: option.splits if_splits)
  have n: "positive_number mj" "mn = ''0'' \<or> positive_number mn"
    and v: "version = mj @ ''.'' @ mn \<or> version = ''v'' @ mj @ ''.'' @ mn"
    using m(1) unfolding match_catalog_version_iff by auto
  have "CHR ''-'' \<notin> set (mj @ ''.'' @ mn)" using number_chars n by auto
  then have cut: "cut_last_dash_v i = Some (name, mj @ ''.'' @ mn)" using m(3) cut_last_dash_v_append by simp
  have t: "trim_prefix version ''v'' = mj @ ''.'' @ mn"
    using v positive_number_chars [OF n(1)] by (cases mj) (auto simp: trim_prefix_def has_prefix_def)
  have mv: "match_catalog_version (''v'' @ mj @ ''.'' @ mn) = Some (mj, mn)"
    "match_catalog_version (mj @ ''.'' @ mn) = Some (mj, mn)"
    unfolding match_catalog_version_iff using n by blast+
  show "catalog_reference i = Some (name, trim_prefix version ''v'')"
    using cut m(2) mv(1) t by (simp add: catalog_reference_def)
  show "catalog_source_id name (trim_prefix version ''v'') = Some i"
    using m(2,3) mv(2) t by (simp add: catalog_source_id_def)
qed

section \<open>One package, three routes\<close>

lemma plain_words [simp]:
  "plain_elem ''v1''" "plain_elem ''v2''" "plain_elem ''catalogs''" "plain_elem ''sources''" "plain_elem ''packages''"
  "plain_elem ''updates''" "plain_elem ''channel-updates''" "plain_elem ''channel-releases''" "plain_elem ''refresh''"
  "plain_elem ''status''"
  by (simp_all add: plain_elem_def)

lemma source_id_plain:
  assumes "catalog_source_id name version = Some i" and "plain_elem name"
  shows "plain_elem i \<and> plain_elem version"
proof -
  obtain mj mn where m: "match_catalog_version version = Some (mj, mn)" "name \<noteq> []"
    "i = name @ ''-v'' @ mj @ ''.'' @ mn"
    using assms(1) by (auto simp: catalog_source_id_def split: option.splits if_splits)
  have n: "positive_number mj" "mn = ''0'' \<or> positive_number mn"
    and v: "version = mj @ ''.'' @ mn \<or> version = ''v'' @ mj @ ''.'' @ mn"
    using m(1) unfolding match_catalog_version_iff by auto
  have "CHR ''/'' \<notin> set mj" "CHR ''/'' \<notin> set mn" "CHR ''.'' \<notin> set mn" "mj \<noteq> []" "mn \<noteq> []" "CHR ''.'' \<notin> set mj"
    using number_chars [of mj] number_chars [of mn] n by (auto simp: positive_number_def)
  moreover have "CHR ''v'' \<in> set i" using m(3) by simp
  then have "i \<noteq> ''.''" "i \<noteq> ''..''" by auto
  moreover have "\<not> set version \<subseteq> {CHR ''.''}" using v \<open>mj \<noteq> []\<close> \<open>CHR ''.'' \<notin> set mj\<close> by (cases mj) auto
  then have "version \<noteq> ''.''" "version \<noteq> ''..''" "version \<noteq> []" by auto
  ultimately show ?thesis using v m(3) assms(2) by (auto simp: plain_elem_def)
qed

lemma package_page_routes:
  "package_page env hs r p ''channel-releases'' = channel_releases_http env hs r p"
  "package_page env hs r p ''updates'' = renovate env hs r p ''updates''"
  by (simp_all add: package_page_def)

lemma catalog_v1_package:
  assumes "http_method r = ''GET''" and "list_all plain_elem [i, pkg, action]"
    and "http_path r = render_path [''v1'', ''catalogs'', i, ''packages'', pkg, action]"
  shows "catalog_v1 env r s = unchanged s (with_package env s i pkg (\<lambda>hs p. package_page env hs r p action))"
proof -
  have "path_parts (http_path r) = [''v1'', ''catalogs'', i, ''packages'', pkg, action]"
    unfolding assms(3) by (rule path_parts_render) (use assms(2) in simp_all)
  then show ?thesis using assms(1) by (simp add: catalog_v1_def)
qed

lemma catalog_v2_resource:
  assumes "catalog_source_id name version = Some i" and "plain_elem name"
    and "route \<noteq> []" and "list_all plain_elem route"
    and "http_path r = render_path (''v2'' # ''catalogs'' # name # version # route)"
  shows "catalog_v2 env r s = source_v2_resource env r i route s"
proof -
  have "path_parts (http_path r) = ''v2'' # ''catalogs'' # name # version # route"
    unfolding assms(5) by (rule path_parts_render) (use assms(2,4) source_id_plain [OF assms(1,2)] in simp_all)
  then show ?thesis using assms(1) by (simp add: catalog_v2_def)
qed

lemma source_v2_resource_path:
  assumes "path_unescape esc = Some i" and "list_all plain_elem (esc # route)"
    and "http_escaped_path r = render_path (''v2'' # ''sources'' # esc # route)"
  shows "source_v2 env r s = source_v2_resource env r i route s"
proof -
  have "path_parts (http_escaped_path r) = ''v2'' # ''sources'' # esc # route"
    unfolding assms(3) by (rule path_parts_render) (use assms(2) in simp_all)
  then show ?thesis using assms(1) by (simp add: source_v2_def)
qed

text \<open>
  C31: The three routes to a package agree. For a catalog and version that name the source \<open>i\<close>, and
  plain path segments, channel updates are the same answer under \<^verbatim>\<open>/v1/catalogs/i\<close>,
  \<^verbatim>\<open>/v2/catalogs/name/version\<close> and \<^verbatim>\<open>/v2/sources/i\<close> with any escaping of \<open>i\<close>; so are version updates, when
  v1's \<^verbatim>\<open>channel\<close> and v2's \<^verbatim>\<open>operatorChannel\<close> carry the same channel.
\<close>

theorem routes_agree:
  assumes i: "catalog_source_id name version = Some i" and plain: "list_all plain_elem [name, pkg, esc]"
    and esc: "path_unescape esc = Some i"
    and get: "http_method r1 = ''GET''" "http_method r2 = ''GET''" "http_method r3 = ''GET''"
    and action: "(a1, a2) \<in> {(''channel-releases'', ''channel-updates''), (''updates'', ''updates'')}"
    and p1: "http_path r1 = render_path [''v1'', ''catalogs'', i, ''packages'', pkg, a1]"
    and p2: "http_path r2 = render_path [''v2'', ''catalogs'', name, version, ''packages'', pkg, a2]"
    and p3: "http_escaped_path r3 = render_path [''v2'', ''sources'', esc, ''packages'', pkg, a2]"
    and args: "\<forall>k \<in> {''currentChannel'', ''currentVersion'', ''currentBundle'', ''selection'', ''mode''}.
        arg r1 k = arg r2 k \<and> arg r2 k = arg r3 k"
      "arg r1 ''channel'' = arg r2 ''operatorChannel''" "arg r2 ''operatorChannel'' = arg r3 ''operatorChannel''"
  shows "catalog_v1 env r1 s = catalog_v2 env r2 s \<and> catalog_v2 env r2 s = source_v2 env r3 s"
proof -
  have pn: "plain_elem name" "plain_elem pkg" "plain_elem esc" using plain by simp_all
  have pi: "plain_elem i" using source_id_plain [OF i pn(1)] by simp
  have pa: "plain_elem a1" "plain_elem a2" using action by auto
  have req: "channel_request r1 = channel_request r2" "channel_request r2 = channel_request r3"
    "version_request ''channel'' r1 = version_request ''operatorChannel'' r2"
    "version_request ''operatorChannel'' r2 = version_request ''operatorChannel'' r3"
    using args by (simp_all add: channel_request_def version_request_def)
  have v1: "catalog_v1 env r1 s = unchanged s (with_package env s i pkg (\<lambda>hs p. package_page env hs r1 p a1))"
    by (rule catalog_v1_package [OF get(1) _ p1]) (use pi pn pa in simp)
  have v2: "catalog_v2 env r2 s = source_v2_resource env r2 i [''packages'', pkg, a2] s"
    by (rule catalog_v2_resource [OF i pn(1) _ _ p2]) (use pn pa in simp_all)
  have v3: "source_v2 env r3 s = source_v2_resource env r3 i [''packages'', pkg, a2] s"
    by (rule source_v2_resource_path [OF esc _ p3]) (use pn pa in simp)
  show ?thesis unfolding v1 v2 v3 using action get req
    by (auto simp: source_v2_resource_def package_v2_def package_page_routes renovate_def version_updates_v2_def
        channel_releases_http_def)
qed

text \<open>
  Only the source identifier of an exact-source route is unescaped: a package name that needs escaping
  is found under the catalog route and not under the source route.
\<close>

lemma source_route_escaped_package:
  assumes "served_snapshot env s ''ops-v4.18'' = Inr (snap, hs)"
    and "map_of (sn_packages snap) ''a b'' = Some p" and "map_of (sn_packages snap) ''a%20b'' = None"
    and "http_method r = ''GET''" and "http_path r = render_path [''v2'', ''catalogs'', ''ops'', ''4.18'', ''packages'', ''a b'']"
    and "http_method r' = ''GET''" and "http_escaped_path r' = render_path [''v2'', ''sources'', ''ops-v4.18'', ''packages'', ''a%20b'']"
  shows "catalog_v2 env r s = unchanged s (package_details env hs r p) \<and> source_v2 env r' s = unchanged s (not_found hs)"
proof -
  have "catalog_v2 env r s = source_v2_resource env r ''ops-v4.18'' [''packages'', ''a b''] s"
    by (rule catalog_v2_resource [OF _ _ _ _ assms(5)]) (code_simp | simp add: plain_elem_def)+
  moreover have "source_v2 env r' s = source_v2_resource env r' ''ops-v4.18'' [''packages'', ''a%20b''] s"
    by (rule source_v2_resource_path [OF _ _ assms(7)]) (code_simp | simp add: plain_elem_def)+
  ultimately show ?thesis
    using assms by (simp add: source_v2_resource_def package_v2_def with_package_def)
qed

section \<open>What a package query is answered\<close>

lemma answer_headers: "re_headers (answer_releases hs res) = hs"
  by (simp add: answer_releases_def write_json_def split: sum.split)

lemma page_headers: "re_headers (package_page env hs r p action) = hs"
  by (auto simp: package_page_def answer_headers renovate_def channel_releases_http_def channels_http_def bundles_http_def
      graph_http_def resolve_http_def not_found_def http_error_def write_json_def Let_def split: option.split)

lemma page_not_503: "re_status (package_page env hs r p action) \<noteq> 503"
  using page_status(1) [of env hs r p action] by auto

lemma state_ok_snapshot:
  assumes "state_ok s" and "map_of (sv_snapshots s) i = Some snap"
  shows "sn_source snap \<in> set (sc_sources (sv_cfg s))" "src_id (sn_source snap) = i"
  using assms by (auto simp: state_ok_def current_source_locked_def)

text \<open>The two outcomes of looking up the snapshot: a page of an acceptable one, or 503.\<close>

lemma with_package_accepted:
  assumes "map_of (sv_snapshots s) i = Some snap"
    and "snapshot_acceptable (sv_cfg s) (en_check env i) (sn_generated_at snap)"
    and rsp: "rsp = with_package env s i pkg (\<lambda>hs q. package_page env hs r q action)"
  shows "re_status rsp \<noteq> 503"
    "re_headers rsp = [GeneratedAt (sn_generated_at snap), SnapshotAge (max 0 (time_sub (en_age env i) (sn_generated_at snap)))]"
    "rsp = (case map_of (sn_packages snap) pkg of
        None \<Rightarrow> not_found (re_headers rsp)
      | Some q \<Rightarrow> package_page env (re_headers rsp) r q action)"
proof -
  let ?hs = "snapshot_headers (sn_generated_at snap) (en_age env i)"
  have r: "rsp = (case map_of (sn_packages snap) pkg of None \<Rightarrow> not_found ?hs | Some q \<Rightarrow> package_page env ?hs r q action)"
    using assms by (simp add: with_package_def served_snapshot_def)
  then have h: "re_headers rsp = ?hs" "re_status rsp \<noteq> 503"
    by (auto simp: page_headers page_not_503 not_found_def http_error_def split: option.splits)
  show "re_status rsp \<noteq> 503" by (rule h(2))
  show "re_headers rsp = [GeneratedAt (sn_generated_at snap), SnapshotAge (max 0 (time_sub (en_age env i) (sn_generated_at snap)))]"
    unfolding h(1) by (simp add: snapshot_headers_def)
  show "rsp = (case map_of (sn_packages snap) pkg of
      None \<Rightarrow> not_found (re_headers rsp) | Some q \<Rightarrow> package_page env (re_headers rsp) r q action)"
    unfolding h(1) by (rule r)
qed

lemma with_package_refused:
  assumes "\<And>snap. map_of (sv_snapshots s) i = Some snap \<Longrightarrow> \<not> snapshot_acceptable (sv_cfg s) (en_check env i) (sn_generated_at snap)"
  shows "re_status (with_package env s i pkg f) = 503"
  using assms by (auto simp: with_package_def served_snapshot_def http_error_def split: option.split)

text \<open>
  C32: A package query never shows data of a source that is not configured, and never expired data.
  In every state the refreshes and reloads can reach, a query of a package is answered from a
  snapshot that was read for the source configured under this id, taken at a set time not further
  back than the allowed age, and the headers state that time and the age, never negative; or it is
  answered 503. An id that is not configured is answered 503 too.
\<close>

theorem package_served:
  assumes w: "reachable (reader_reads cd iter) w" and s: "s = w_svc w"
    and get: "http_method r = ''GET''" and plain: "list_all plain_elem [i, pkg, action]"
    and p: "http_path r = render_path [''v1'', ''catalogs'', i, ''packages'', pkg, action]"
  shows "\<exists>rsp. catalog_v1 env r s = (s, rsp, [])
     \<and> (if re_status rsp = 503
        then \<forall>snap. map_of (sv_snapshots s) i = Some snap \<longrightarrow> sn_generated_at snap = zero_time
               \<or> time_sub (en_check env i) (sn_generated_at snap) > nanos (effective_max_age (sv_cfg s))
        else \<exists>snap. map_of (sv_snapshots s) i = Some snap
               \<and> sn_source snap \<in> set (sc_sources (sv_cfg s)) \<and> src_id (sn_source snap) = i
               \<and> sn_generated_at snap \<noteq> zero_time
               \<and> time_sub (en_check env i) (sn_generated_at snap) \<le> nanos (effective_max_age (sv_cfg s))
               \<and> re_headers rsp = [GeneratedAt (sn_generated_at snap),
                    SnapshotAge (max 0 (time_sub (en_age env i) (sn_generated_at snap)))]
               \<and> rsp = (case map_of (sn_packages snap) pkg of
                    None \<Rightarrow> not_found (re_headers rsp)
                  | Some q \<Rightarrow> package_page env (re_headers rsp) r q action))
     \<and> (source_by_id (sc_sources (sv_cfg s)) i = None \<longrightarrow> re_status rsp = 503)"
proof -
  define rsp where "rsp = with_package env s i pkg (\<lambda>hs q. package_page env hs r q action)"
  have ok: "state_ok s" using fs_reader.reachable_ok [OF w] s by (simp add: world_ok_def)
  have c: "catalog_v1 env r s = (s, rsp, [])"
    using catalog_v1_package [OF get plain p] by (simp add: unchanged_def rsp_def)
  show ?thesis
  proof (cases "\<exists>snap. map_of (sv_snapshots s) i = Some snap \<and> snapshot_acceptable (sv_cfg s) (en_check env i) (sn_generated_at snap)")
    case True
    then obtain snap where a: "map_of (sv_snapshots s) i = Some snap"
      "snapshot_acceptable (sv_cfg s) (en_check env i) (sn_generated_at snap)" by blast
    note conf = state_ok_snapshot [OF ok a(1)] and page = with_package_accepted [OF a rsp_def]
    have "source_by_id (sc_sources (sv_cfg s)) i \<noteq> None" using conf by (auto simp: source_by_id_None)
    moreover have "sn_generated_at snap \<noteq> zero_time"
      "time_sub (en_check env i) (sn_generated_at snap) \<le> nanos (effective_max_age (sv_cfg s))"
      using a(2) by (simp_all add: snapshot_acceptable_def)
    ultimately show ?thesis
      by (intro exI [of _ rsp], unfold if_not_P [OF page(1)]) (use a(1) conf c page in blast)
  next
    case False
    then have "re_status rsp = 503" unfolding rsp_def by (intro with_package_refused) blast
    then show ?thesis using c False by (intro exI [of _ rsp]) (auto simp: snapshot_acceptable_def)
  qed
qed

section \<open>The access log\<close>

text \<open>However a handler writes, the client gets one status, and the log records that one and every byte.\<close>

datatype write_call = WriteHeader nat | Write nat

fun record_call :: "write_call \<Rightarrow> recorder \<Rightarrow> recorder" where
  "record_call (WriteHeader n) w = write_header n w"
| "record_call (Write n) w = recorder_write n w"

fun bytes_of :: "write_call \<Rightarrow> nat" where
  "bytes_of (WriteHeader n) = 0"
| "bytes_of (Write n) = n"

lemma record_started:
  "rec_status w \<noteq> 0 \<Longrightarrow>
     rec_status (fold record_call cs w) = rec_status w \<and> rec_sent (fold record_call cs w) = rec_sent w
     \<and> rec_bytes (fold record_call cs w) = rec_bytes w + sum_list (map bytes_of cs)"
proof (induction cs arbitrary: w)
  case (Cons c cs)
  have "rec_status (record_call c w) = rec_status w" "rec_sent (record_call c w) = rec_sent w"
    "rec_bytes (record_call c w) = rec_bytes w + bytes_of c"
    using Cons.prems by (cases c; simp add: write_header_def recorder_write_def)+
  then show ?case using Cons by simp
qed simp

lemma access_log_exact:
  assumes "\<forall>n. WriteHeader n \<in> set (c # cs) \<longrightarrow> n \<noteq> 0"
  shows "rec_sent (fold record_call (c # cs) new_recorder) = [status_code (fold record_call (c # cs) new_recorder)]
     \<and> status_code (fold record_call (c # cs) new_recorder) = (case c of WriteHeader n \<Rightarrow> n | Write n \<Rightarrow> 200)
     \<and> rec_bytes (fold record_call (c # cs) new_recorder) = sum_list (map bytes_of (c # cs))"
proof -
  let ?w = "record_call c new_recorder"
  have "rec_status ?w = (case c of WriteHeader n \<Rightarrow> n | Write n \<Rightarrow> 200)" "rec_sent ?w = [rec_status ?w]"
    "rec_bytes ?w = bytes_of c" "rec_status ?w \<noteq> 0"
    using assms by (cases c; simp add: write_header_def recorder_write_def new_recorder_def)+
  then show ?thesis using record_started [of ?w cs] by (simp add: status_code_def)
qed

section \<open>Samples\<close>

definition ex_env :: "version env" where
  "ex_env = \<lparr>en_semver = std_semver, en_iter = rev, en_check = (\<lambda>_. 100), en_age = (\<lambda>_. 108),
     en_read_file = (\<lambda>f. if f = ''/token'' then Some (''secret'' @ [CHR 0x0A]) else None), en_sha = (\<lambda>t. t),
     en_between = (\<lambda>n s. s), en_mux = (\<lambda>r. not_found [])\<rparr>"

definition ex_http :: "string \<Rightarrow> string list \<Rightarrow> (string \<times> string) list \<Rightarrow> request" where
  "ex_http m segs q = \<lparr>http_method = m, http_path = render_path segs, http_escaped_path = render_path segs,
     http_query = q, http_authorization = ''bearer secret''\<rparr>"

definition ex_loaded :: service where
  "ex_loaded = fst (snd ex_end)"

definition ex_token_service :: service where
  "ex_token_service = new_service ((ex_cfg [ex_source] ''old'')\<lparr>sc_refresh_token_file := ''/token''\<rparr>)"

lemma ex_authorized: "authorized ex_env (ex_http ''POST'' segs q) ex_token_service"
proof -
  have "authorize_refresh ex_env (ex_http ''POST'' [] []) ex_token_service = None" by code_simp
  then have "authorized ex_env (ex_http ''POST'' [] []) ex_token_service" by (simp add: authorize_refresh_iff)
  then show ?thesis by (simp add: authorized_def ex_http_def)
qed

text \<open>Two sources, of which one is being refreshed.\<close>

definition ex_busy_service :: service where
  "ex_busy_service = (new_service ((ex_cfg [ex_source, ex_source\<lparr>src_id := ''other''\<rparr>] ''old'')
     \<lparr>sc_refresh_token_file := ''/token''\<rparr>))\<lparr>sv_running := {''ops''}\<rparr>"

theorem refresh_all_refines_witness:
  "\<exists>s'. refresh_all_http ex_env (ex_http ''POST'' [] []) ex_busy_service
     = (s', write_json [] 202 (AcceptedAll [(''ops'', ''running''), (''other'', ''queued'')]), [''other''])"
proof -
  let ?r = "ex_http ''POST'' [] []" and ?s = "ex_busy_service"
  have b: "en_between ex_env = (\<lambda>n s. s)" "http_method ?r = ''POST''" by (simp_all add: ex_env_def ex_http_def)
  have "authorized ex_env ?r ex_token_service" by (rule ex_authorized)
  then have au: "authorized ex_env ?r ?s"
    by (simp add: authorized_def ex_token_service_def ex_busy_service_def new_service_def)
  have ids: "map src_id (sc_sources (sv_cfg ?s)) = [''ops'', ''other'']" by code_simp
  have len: "length [''ops'', ''other''] = 2" by simp
  have f: "found_state ?s ''ops'' = ''running''" "\<not> newly_queued ?s ''ops''"
    "found_state ?s ''other'' = ''queued''" "newly_queued ?s ''other''" by code_simp+
  then have q: "after_queue ?s ''ops'' = ?s" by (simp add: after_queue_def)
  obtain results threads after where
    h: "refresh_all_http ex_env ?r ?s = (after 2, write_json [] 202 (AcceptedAll results), threads)" "after 0 = ?s" "length results = 2"
    and k: "\<forall>k < 2. results ! k = ([''ops'', ''other''] ! k, found_state (after k) ([''ops'', ''other''] ! k))
        \<and> after (Suc k) = after_queue (after k) ([''ops'', ''other''] ! k)"
    and t: "threads = map ((!) [''ops'', ''other'']) (filter (\<lambda>k. newly_queued (after k) ([''ops'', ''other''] ! k)) [0..<2])"
    using refresh_all_refines [OF b(2) au, of 0 True] unfolding Let_def b(1) ids len by blast
  have a1: "after (Suc 0) = ?s" using k h(2) q by auto
  have "results ! 0 = (''ops'', ''running'')" "results ! Suc 0 = (''other'', ''queued'')"
    using k f a1 h(2) by simp_all
  then have "results = [(''ops'', ''running''), (''other'', ''queued'')]"
    using h(3) by (auto simp: length_Suc_conv numeral_2_eq_2)
  moreover have "threads = [''other'']" unfolding t using f a1 h(2) by (simp add: numeral_2_eq_2)
  ultimately show ?thesis using h(1) by simp
qed

theorem list_packages_page_witness:
  "\<exists>items. list_packages ex_env (ex_http ''GET'' [] []) ex_loaded ''ops''
     = write_json [GeneratedAt 8, SnapshotAge 100] 200 (Packages items 100)"
proof -
  have a: "atoi (arg (ex_http ''GET'' [] []) ''limit'') = None" by code_simp
  have s: "served_snapshot ex_env ex_loaded ''ops''
      = Inr (ex_snapshot\<lparr>sn_generated_at := 8\<rparr>, [GeneratedAt 8, SnapshotAge 100])"
    by code_simp
  have "map_ok (sn_packages (ex_snapshot\<lparr>sn_generated_at := 8\<rparr>))" by code_simp
  moreover have "is_iter (en_iter ex_env)" by (simp add: ex_env_def)
  ultimately show ?thesis using list_packages_page [OF _ s, of "ex_http ''GET'' [] []"] a by auto
qed

theorem catalog_reference_roundtrip_witness:
  "catalog_source_id ''redhat'' ''v4.18'' = Some ''redhat-v4.18'' \<and> catalog_reference ''redhat-v4.18'' = Some (''redhat'', ''4.18'')"
proof -
  have "catalog_source_id ''redhat'' ''v4.18'' = Some ''redhat-v4.18''" "trim_prefix ''v4.18'' ''v'' = ''4.18''" by code_simp+
  then show ?thesis using catalog_reference_roundtrip [of "''redhat-v4.18''" "''redhat''" "''v4.18''"] by auto
qed

theorem routes_agree_witness:
  "catalog_v1 ex_env (ex_http ''GET'' [''v1'', ''catalogs'', ''ops-v4.18'', ''packages'', ''op'', ''updates''] []) ex_loaded
   = source_v2 ex_env (ex_http ''GET'' [''v2'', ''sources'', ''ops%2Dv4.18'', ''packages'', ''op'', ''updates''] []) ex_loaded"
proof -
  have i: "catalog_source_id ''ops'' ''4.18'' = Some ''ops-v4.18''" "path_unescape ''ops%2Dv4.18'' = Some ''ops-v4.18''"
    by code_simp+
  have p: "list_all plain_elem [''ops'', ''op'', ''ops%2Dv4.18'']" by (simp add: plain_elem_def)
  show ?thesis
    using routes_agree [OF i(1) p i(2), of "ex_http ''GET'' [''v1'', ''catalogs'', ''ops-v4.18'', ''packages'', ''op'', ''updates''] []"
        "ex_http ''GET'' [''v2'', ''catalogs'', ''ops'', ''4.18'', ''packages'', ''op'', ''updates''] []"
        "ex_http ''GET'' [''v2'', ''sources'', ''ops%2Dv4.18'', ''packages'', ''op'', ''updates''] []" "''updates''" "''updates''"
        ex_env ex_loaded]
    by (simp add: ex_http_def arg_def query_get_def)
qed

theorem package_served_witness:
  "\<exists>rsp. catalog_v1 ex_env (ex_http ''GET'' [''v1'', ''catalogs'', ''ops'', ''packages'', ''op'', ''channels''] []) ex_loaded = (ex_loaded, rsp, [])
     \<and> re_status rsp = 200 \<and> re_headers rsp = [GeneratedAt 8, SnapshotAge 100]"
proof -
  let ?r = "ex_http ''GET'' [''v1'', ''catalogs'', ''ops'', ''packages'', ''op'', ''channels''] []"
  have s: "ex_loaded = w_svc (world_of ex_end)" by (simp add: ex_loaded_def)
  have g: "http_method ?r = ''GET''" "http_path ?r = render_path [''v1'', ''catalogs'', ''ops'', ''packages'', ''op'', ''channels'']"
    by (simp_all add: ex_http_def)
  have p: "list_all plain_elem [''ops'', ''op'', ''channels'']" by (simp add: plain_elem_def)
  have "re_status (fst (snd (catalog_v1 ex_env ?r ex_loaded))) = 200"
    "map_of (sv_snapshots ex_loaded) ''ops'' = Some (ex_snapshot\<lparr>sn_generated_at := 8\<rparr>)" "en_age ex_env ''ops'' = 108"
    by code_simp+
  moreover have "time_sub 108 8 = 100" by (simp add: time_sub_def)
  ultimately show ?thesis using package_served [OF ex_end_reachable s g(1) p g(2), of ex_env] by fastforce
qed

end
