(* ===== verification/Service_Lookup.thy ===== *)
theory Service_Lookup
  imports Service_Safety
begin

text \<open>
  The lookups of OpenShift releases in \<^verbatim>\<open>internal/service/snapshot.go\<close>: \<open>openShiftUpdates\<close> is two
  sections under the mutex around a fetch. The sections are definitions on the service state; the
  fetch is an argument. The last part proves the protocol of overlapping lookups: the cache is
  bounded, and results are published in the order in which their lookups started.
\<close>

section \<open>The two sections\<close>

definition max_snapshots :: nat where
  "max_snapshots = 128"

datatype lookup_error = ConfigChanged | LookupFailed string | NewerEvicted | SnapshotExpired

text \<open>
  What a lookup keeps between its sections: the client's graph URL, which the handler copied
  before, its attempt and generation, and the address of its \<open>openShiftLookup\<close>.
\<close>

record lookup_handle =
  lh_req :: os_request
  lh_url :: string
  lh_attempt :: nat
  lh_generation :: nat
  lh_addr :: nat

definition lookup_begin :: "os_request \<Rightarrow> string \<Rightarrow> service \<Rightarrow> service \<times> lookup_handle" where
  "lookup_begin req url s =
     (let attempt = wrap64 (sv_attempt s + 1);
          s1 = s\<lparr>sv_attempt := attempt\<rparr>;
          (addr, s2) = (case map_of (sv_in_flight s1) req of
             Some a \<Rightarrow> (a, s1)
           | None \<Rightarrow> (length (sv_heap s1),
               s1\<lparr>sv_heap := sv_heap s1 @ [\<lparr>lk_pending = 0, lk_latest = 0\<rparr>],
                  sv_in_flight := AList.update req (length (sv_heap s1)) (sv_in_flight s1)\<rparr>));
          l = sv_heap s2 ! addr
      in (s2\<lparr>sv_heap := (sv_heap s2)[addr := l\<lparr>lk_pending := lk_pending l + 1\<rparr>]\<rparr>,
          \<lparr>lh_req = req, lh_url = url, lh_attempt = attempt, lh_generation = sv_generation s, lh_addr = addr\<rparr>))"

text \<open>The loop that looks for the entry to evict, with the oldest found so far.\<close>

fun find_oldest :: "(os_request \<times> os_snapshot) list \<Rightarrow> os_request option \<Rightarrow> nat \<Rightarrow> os_request option" where
  "find_oldest [] oldest att = oldest"
| "find_oldest ((key, snap) # rest) oldest att =
     (if att = 0 \<or> os_attempt snap < att then find_oldest rest (Some key) (os_attempt snap)
      else find_oldest rest oldest att)"

definition evict :: "((os_request \<times> os_snapshot) list \<Rightarrow> (os_request \<times> os_snapshot) list) \<Rightarrow> service \<Rightarrow> service" where
  "evict iter s =
     (case find_oldest (iter (sv_os_snapshots s)) None 0 of
        None \<Rightarrow> s
      | Some key \<Rightarrow> s\<lparr>sv_os_snapshots := AList.delete key (sv_os_snapshots s)\<rparr>)"

text \<open>The deferred function: the last lookup of a request removes the shared record.\<close>

definition release_lookup :: "lookup_handle \<Rightarrow> service \<Rightarrow> service" where
  "release_lookup h s =
     (let l = sv_heap s ! lh_addr h;
          l' = l\<lparr>lk_pending := lk_pending l - 1\<rparr>;
          s1 = s\<lparr>sv_heap := (sv_heap s)[lh_addr h := l']\<rparr>
      in if lk_pending l' = 0 then s1\<lparr>sv_in_flight := AList.delete (lh_req h) (sv_in_flight s1)\<rparr> else s1)"

text \<open>
  The outcome of \<open>client.Updates\<close>: \<open>CurrentNotFound\<close> stands for \<open>ErrCurrentVersionNotFound\<close>,
  which is turned into an empty result.
\<close>

datatype fetch_outcome = Fetched "release list" | CurrentNotFound | FetchError string

definition fetched :: "fetch_outcome \<Rightarrow> string + release list" where
  "fetched out = (case out of Fetched rs \<Rightarrow> Inr rs | CurrentNotFound \<Rightarrow> Inr [] | FetchError e \<Rightarrow> Inl e)"

text \<open>\<open>now1\<close> is the clock of the freshness checks, \<open>now2\<close> the one of the publication.\<close>

definition lookup_decide ::
  "((os_request \<times> os_snapshot) list \<Rightarrow> (os_request \<times> os_snapshot) list) \<Rightarrow> lookup_handle \<Rightarrow> fetch_outcome
     \<Rightarrow> time \<Rightarrow> time \<Rightarrow> service \<Rightarrow> service \<times> (lookup_error + release list \<times> time)" where
  "lookup_decide iter h out now1 now2 s =
     (if lh_generation h \<noteq> sv_generation s \<or> lh_url h \<noteq> sc_graph_url (sv_cfg s) then (s, Inl ConfigChanged)
      else
        let previous = map_of (sv_os_snapshots s) (lh_req h) in
        (case fetched out of
           Inl e \<Rightarrow>
             (case previous of
                Some p \<Rightarrow>
                  if snapshot_acceptable (sv_cfg s) now1 (os_generated_at p)
                  then (s, Inr (os_releases p, os_generated_at p)) else (s, Inl (LookupFailed e))
              | None \<Rightarrow> (s, Inl (LookupFailed e)))
         | Inr values \<Rightarrow>
             if lk_latest (sv_heap s ! lh_addr h) > lh_attempt h
                \<or> (case previous of Some p \<Rightarrow> os_attempt p > lh_attempt h | None \<Rightarrow> False)
             then (case previous of
                     None \<Rightarrow> (s, Inl NewerEvicted)
                   | Some p \<Rightarrow>
                       if \<not> snapshot_acceptable (sv_cfg s) now1 (os_generated_at p) then (s, Inl SnapshotExpired)
                       else (s, Inr (os_releases p, os_generated_at p)))
             else
               (let s1 = (if previous = None \<and> max_snapshots \<le> length (sv_os_snapshots s) then evict iter s else s);
                    l = sv_heap s1 ! lh_addr h;
                    s2 = s1\<lparr>sv_heap := (sv_heap s1)[lh_addr h := l\<lparr>lk_latest := lh_attempt h\<rparr>],
                            sv_os_snapshots := AList.update (lh_req h)
                              \<lparr>os_releases = values, os_generated_at = now2, os_attempt = lh_attempt h\<rparr>
                              (sv_os_snapshots s1)\<rparr>
                in (s2, Inr (values, now2)))))"

definition lookup_finish ::
  "((os_request \<times> os_snapshot) list \<Rightarrow> (os_request \<times> os_snapshot) list) \<Rightarrow> lookup_handle \<Rightarrow> fetch_outcome
     \<Rightarrow> time \<Rightarrow> time \<Rightarrow> service \<Rightarrow> service \<times> (lookup_error + release list \<times> time)" where
  "lookup_finish iter h out now1 now2 s =
     (case lookup_decide iter h out now1 now2 s of (s', res) \<Rightarrow> (release_lookup h s', res))"

section \<open>Eviction\<close>

lemma find_oldest_some: "find_oldest es (Some k0) att \<noteq> None"
  by (induction es arbitrary: k0 att) auto

lemma find_oldest_from:
  assumes "0 < att" and "\<forall>e \<in> set es. 0 < os_attempt (snd e)" and "find_oldest es (Some k0) att = Some k"
  shows "\<exists>a. (k = k0 \<and> a = att \<or> (\<exists>s. (k, s) \<in> set es \<and> a = os_attempt s))
     \<and> a \<le> att \<and> (\<forall>e \<in> set es. a \<le> os_attempt (snd e))"
  using assms
proof (induction es arbitrary: k0 att)
  case (Cons e es)
  obtain key snap where e: "e = (key, snap)" by (cases e)
  show ?case
  proof (cases "os_attempt snap < att")
    case True
    then have "find_oldest es (Some key) (os_attempt snap) = Some k" using Cons.prems(3) e by simp
    then obtain a where "k = key \<and> a = os_attempt snap \<or> (\<exists>s. (k, s) \<in> set es \<and> a = os_attempt s)"
      "a \<le> os_attempt snap" "\<forall>e \<in> set es. a \<le> os_attempt (snd e)"
      using Cons.IH [of "os_attempt snap" key] Cons.prems(2) e by auto
    then show ?thesis using True e by (intro exI [of _ a]) auto
  next
    case False
    then have "find_oldest es (Some k0) att = Some k" using Cons.prems(1,3) e by simp
    then obtain a where "k = k0 \<and> a = att \<or> (\<exists>s. (k, s) \<in> set es \<and> a = os_attempt s)"
      "a \<le> att" "\<forall>e \<in> set es. a \<le> os_attempt (snd e)"
      using Cons.IH [of att k0] Cons.prems(1,2) by auto
    then show ?thesis using False e by (intro exI [of _ a]) auto
  qed
qed simp

text \<open>A full cache loses exactly one entry, the one of the oldest attempt.\<close>

lemma find_oldest_entry:
  assumes "es \<noteq> []" and "\<forall>e \<in> set es. 0 < os_attempt (snd e)"
  shows "\<exists>k s. find_oldest es None 0 = Some k \<and> (k, s) \<in> set es \<and> (\<forall>e \<in> set es. os_attempt s \<le> os_attempt (snd e))"
proof -
  obtain key snap rest where es: "es = (key, snap) # rest" using assms(1) by (cases es) auto
  then have f: "find_oldest es None 0 = find_oldest rest (Some key) (os_attempt snap)" by simp
  then obtain k where k: "find_oldest rest (Some key) (os_attempt snap) = Some k"
    using find_oldest_some [of rest key "os_attempt snap"] by auto
  then show ?thesis
    using find_oldest_from [OF _ _ k] assms(2) es f by fastforce
qed


section \<open>Overlapping lookups\<close>

text \<open>
  When a lookup publishes its result. The log of the publications is not part of the program: it
  is what the ordering theorem is about.
\<close>

definition publishes :: "lookup_handle \<Rightarrow> fetch_outcome \<Rightarrow> service \<Rightarrow> bool" where
  "publishes h out s \<longleftrightarrow>
     lh_generation h = sv_generation s \<and> lh_url h = sc_graph_url (sv_cfg s) \<and> \<not> isl (fetched out)
     \<and> \<not> lk_latest (sv_heap s ! lh_addr h) > lh_attempt h
     \<and> (\<forall>p. map_of (sv_os_snapshots s) (lh_req h) = Some p \<longrightarrow> os_attempt p \<le> lh_attempt h)"

record lookup_world =
  lw_svc :: service
  lw_open :: "lookup_handle multiset"
  lw_log :: "(os_request \<times> nat) list"

text \<open>The first argument counts the lookups started so far.\<close>

inductive lookups :: "nat \<Rightarrow> lookup_world \<Rightarrow> bool" where
  lookups_start: "lookups 0 \<lparr>lw_svc = new_service cfg, lw_open = {#}, lw_log = []\<rparr>"
| lookups_begin: "lookups n w \<Longrightarrow> lookup_begin req url (lw_svc w) = (s', h) \<Longrightarrow>
     lookups (Suc n) \<lparr>lw_svc = s', lw_open = add_mset h (lw_open w), lw_log = lw_log w\<rparr>"
| lookups_finish: "lookups n w \<Longrightarrow> h \<in># lw_open w \<Longrightarrow> is_iter iter \<Longrightarrow>
     lookup_finish iter h out now1 now2 (lw_svc w) = (s', res) \<Longrightarrow>
     lookups n \<lparr>lw_svc = s', lw_open = lw_open w - {#h#},
       lw_log = lw_log w @ (if publishes h out (lw_svc w) then [(lh_req h, lh_attempt h)] else [])\<rparr>"
| lookups_reload: "lookups n w \<Longrightarrow> lookups n (w\<lparr>lw_svc := fst (reload cfg (lw_svc w))\<rparr>)"
| lookups_refresh: "lookups n w \<Longrightarrow> run_thread inp th sem (lw_svc w) = Some (sem', s', ths) \<Longrightarrow>
     lookups n (w\<lparr>lw_svc := s'\<rparr>)"

subsection \<open>The invariant\<close>

text \<open>The shared records: one per request with open lookups, at an address of its own.\<close>

definition sharing_ok :: "lookup_handle multiset \<Rightarrow> service \<Rightarrow> bool" where
  "sharing_ok H s \<longleftrightarrow>
     (\<forall>h \<in># H. map_of (sv_in_flight s) (lh_req h) = Some (lh_addr h))
     \<and> (\<forall>r a. map_of (sv_in_flight s) r = Some a \<longrightarrow>
          a < length (sv_heap s) \<and> r \<in> lh_req ` set_mset H
          \<and> lk_pending (sv_heap s ! a) = int (size (filter_mset (\<lambda>h. lh_req h = r) H)))
     \<and> (\<forall>r r' a. map_of (sv_in_flight s) r = Some a \<longrightarrow> map_of (sv_in_flight s) r' = Some a \<longrightarrow> r = r')"

definition cache_ok :: "nat \<Rightarrow> (os_request, os_snapshot) gomap \<Rightarrow> bool" where
  "cache_ok n m \<longleftrightarrow>
     map_ok m \<and> length m \<le> max_snapshots \<and> (\<forall>(r, p) \<in> set m. 0 < os_attempt p \<and> os_attempt p \<le> n)"

definition log_ok :: "nat \<Rightarrow> lookup_handle multiset \<Rightarrow> service \<Rightarrow> (os_request \<times> nat) list \<Rightarrow> bool" where
  "log_ok n H s log \<longleftrightarrow>
     (\<forall>(r, a) \<in> set log. a \<le> n)
     \<and> (\<forall>r. sorted_wrt (<) (map snd (filter (\<lambda>(r', a). r' = r) log)))
     \<and> (\<forall>h \<in># H. (lh_req h, lh_attempt h) \<notin> set log)
     \<and> (\<forall>h \<in># H. \<forall>a. (lh_req h, a) \<in> set log \<longrightarrow> lh_attempt h < a \<longrightarrow> a \<le> lk_latest (sv_heap s ! lh_addr h))"

definition open_ok :: "nat \<Rightarrow> lookup_handle multiset \<Rightarrow> bool" where
  "open_ok n H \<longleftrightarrow>
     (\<forall>h \<in># H. 0 < lh_attempt h \<and> lh_attempt h \<le> n)
     \<and> (\<forall>a. size (filter_mset (\<lambda>h. lh_attempt h = a) H) \<le> 1)"

definition lookups_ok :: "nat \<Rightarrow> lookup_world \<Rightarrow> bool" where
  "lookups_ok n w \<longleftrightarrow>
     sv_attempt (lw_svc w) = n \<and> sharing_ok (lw_open w) (lw_svc w) \<and> cache_ok n (sv_os_snapshots (lw_svc w))
     \<and> log_ok n (lw_open w) (lw_svc w) (lw_log w) \<and> open_ok n (lw_open w)"

text \<open>Refreshes and reloads leave the lookups alone, but for the cache that a reload may clear.\<close>

definition same_lookups :: "service \<Rightarrow> service \<Rightarrow> bool" where
  "same_lookups s s' \<longleftrightarrow>
     sv_in_flight s' = sv_in_flight s \<and> sv_heap s' = sv_heap s \<and> sv_attempt s' = sv_attempt s
     \<and> (sv_os_snapshots s' = sv_os_snapshots s \<or> sv_os_snapshots s' = [])"

lemma same_lookups_refl [simp]: "same_lookups s s"
  by (simp add: same_lookups_def)

lemma same_lookups_sections [simp]:
  "same_lookups s (mark_attempt src now s)" "same_lookups s (mark_failure src err s)"
  "same_lookups s (publish src snap now s)" "same_lookups s (finish_queued i s)"
  by (simp_all add: same_lookups_def mark_attempt_def mark_failure_def publish_def finish_queued_def
      stop_refreshing_def split: option.split)

lemma same_lookups_pairs:
  "queue_refresh i s = (s', r) \<Longrightarrow> same_lookups s s'"
  "begin_queued i s = (s', src) \<Longrightarrow> same_lookups s s'"
  "end_queued i src' s = (s', changed) \<Longrightarrow> same_lookups s s'"
  by (auto simp: same_lookups_def queue_refresh_def begin_queued_def end_queued_def stop_refreshing_def Let_def
      split: option.splits if_splits)

lemma same_lookups_run: "run_thread inp th sem s = Some (sem', s', ths) \<Longrightarrow> same_lookups s s'"
  by (cases th; cases inp)
    (auto simp: on_go_def split: if_splits prod.splits option.splits list.splits dest: same_lookups_pairs)

lemma same_lookups_reload: "same_lookups s (fst (reload cfg s))"
  by (simp add: reload_def Let_def same_lookups_def)

lemma lookups_ok_same:
  "lookups_ok n w \<Longrightarrow> same_lookups (lw_svc w) s' \<Longrightarrow> lookups_ok n (w\<lparr>lw_svc := s'\<rparr>)"
  by (auto simp: lookups_ok_def same_lookups_def sharing_ok_def log_ok_def cache_ok_def)


subsection \<open>Starting a lookup\<close>

lemma lookup_begin_fields:
  assumes "lookup_begin req url s = (s', h)"
  shows "sv_attempt s' = wrap64 (sv_attempt s + 1)" "sv_os_snapshots s' = sv_os_snapshots s"
    "lh_req h = req" "lh_attempt h = wrap64 (sv_attempt s + 1)" "lh_url h = url"
    "lh_generation h = sv_generation s" "sv_cfg s' = sv_cfg s" "sv_generation s' = sv_generation s"
  using assms by (auto simp: lookup_begin_def Let_def split: option.splits)

lemma lookup_begin_shared:
  assumes "map_of (sv_in_flight s) req = Some a" and "lookup_begin req url s = (s', h)"
  shows "lh_addr h = a" "sv_in_flight s' = sv_in_flight s"
    "sv_heap s' = (sv_heap s)[a := (sv_heap s ! a)\<lparr>lk_pending := lk_pending (sv_heap s ! a) + 1\<rparr>]"
  using assms by (auto simp: lookup_begin_def Let_def)

lemma lookup_begin_new:
  assumes "map_of (sv_in_flight s) req = None" and "lookup_begin req url s = (s', h)"
  shows "lh_addr h = length (sv_heap s)" "sv_in_flight s' = AList.update req (length (sv_heap s)) (sv_in_flight s)"
    "sv_heap s' = sv_heap s @ [\<lparr>lk_pending = 1, lk_latest = 0\<rparr>]"
  using assms by (auto simp: lookup_begin_def Let_def)

lemma filter_mset_none: "(\<And>x. x \<in># M \<Longrightarrow> \<not> P x) \<Longrightarrow> filter_mset P M = {#}"
  by (induction M) auto

lemma size_filter_pos: "r \<in> f ` set_mset M \<longleftrightarrow> size (filter_mset (\<lambda>g. f g = r) M) \<noteq> 0"
proof
  assume "r \<in> f ` set_mset M"
  then obtain g where "g \<in># filter_mset (\<lambda>g. f g = r) M" by auto
  then show "size (filter_mset (\<lambda>g. f g = r) M) \<noteq> 0" by (metis empty_iff set_mset_empty size_eq_0_iff_empty)
next
  assume "size (filter_mset (\<lambda>g. f g = r) M) \<noteq> 0"
  then have "filter_mset (\<lambda>g. f g = r) M \<noteq> {#}" by auto
  then obtain g where "g \<in># filter_mset (\<lambda>g. f g = r) M" by (rule multiset_nonemptyE)
  then show "r \<in> f ` set_mset M" by auto
qed

lemma sharing_okD:
  assumes "sharing_ok H s"
  shows "g \<in># H \<Longrightarrow> map_of (sv_in_flight s) (lh_req g) = Some (lh_addr g)"
    "map_of (sv_in_flight s) r = Some c \<Longrightarrow> c < length (sv_heap s) \<and> r \<in> lh_req ` set_mset H
       \<and> lk_pending (sv_heap s ! c) = int (size (filter_mset (\<lambda>h. lh_req h = r) H))"
    "map_of (sv_in_flight s) r = Some c \<Longrightarrow> map_of (sv_in_flight s) r' = Some c \<Longrightarrow> r = r'"
  using assms unfolding sharing_ok_def by blast+

lemma sharing_begin_shared:
  assumes ok: "sharing_ok H s" and a: "map_of (sv_in_flight s) req = Some c" and b: "lookup_begin req url s = (s', h)"
  shows "sharing_ok (add_mset h H) s'"
proof -
  note e = lookup_begin_shared [OF a b] lookup_begin_fields(3) [OF b] and d = sharing_okD [OF ok]
  have "lk_pending (sv_heap s' ! c') = int (size (filter_mset (\<lambda>g. lh_req g = r) (add_mset h H)))"
    if r: "map_of (sv_in_flight s) r = Some c'" for r c'
  proof (cases "r = req")
    case True
    then show ?thesis using r a d(2) [OF a] e by simp
  next
    case False
    then have "c' \<noteq> c" using d(3) [OF r] a by blast
    then show ?thesis using False d(2) [OF r] e by simp
  qed
  then show ?thesis unfolding sharing_ok_def using d e a by auto
qed

lemma sharing_begin_new:
  assumes ok: "sharing_ok H s" and none: "map_of (sv_in_flight s) req = None" and b: "lookup_begin req url s = (s', h)"
  shows "sharing_ok (add_mset h H) s'"
proof -
  note e = lookup_begin_new [OF none b] and f = lookup_begin_fields(3) [OF b] and d = sharing_okD [OF ok]
  have fresh: "lh_req g \<noteq> req" if "g \<in># H" for g using d(1) [OF that] none by auto
  then have nil: "filter_mset (\<lambda>g. lh_req g = req) H = {#}" by (rule filter_mset_none)
  have flight: "map_of (sv_in_flight s') r = (if r = req then Some (length (sv_heap s)) else map_of (sv_in_flight s) r)" for r
    unfolding e(2) by simp
  have heap: "sv_heap s' ! c = (if c = length (sv_heap s) then \<lparr>lk_pending = 1, lk_latest = 0\<rparr> else sv_heap s ! c)"
    if "c \<le> length (sv_heap s)" for c
    using that e(3) by (simp add: nth_append)
  have "c \<le> length (sv_heap s) \<and> r \<in> lh_req ` set_mset (add_mset h H)
      \<and> lk_pending (sv_heap s' ! c) = int (size (filter_mset (\<lambda>g. lh_req g = r) (add_mset h H)))"
    if r: "map_of (sv_in_flight s') r = Some c" for r c
  proof (cases "r = req")
    case True
    then show ?thesis using r flight [of r] heap [of c] nil f by simp
  next
    case False
    then have "map_of (sv_in_flight s) r = Some c" using r flight by simp
    then show ?thesis using False d(2) [of r c] heap [of c] f by simp
  qed
  moreover have "r = r'" if "map_of (sv_in_flight s') r = Some c" "map_of (sv_in_flight s') r' = Some c" for r r' c
    using that flight [of r] flight [of r'] d(3) [of r c r'] d(2) [of r c] d(2) [of r' c]
    by (auto split: if_splits)
  moreover have "map_of (sv_in_flight s') (lh_req g) = Some (lh_addr g)" if "g \<in># add_mset h H" for g
    using that flight d(1) fresh e(1) f by auto
  ultimately show ?thesis unfolding sharing_ok_def using e(3) by (simp add: less_Suc_eq_le)
qed

lemma sharing_begin: "sharing_ok H s \<Longrightarrow> lookup_begin req url s = (s', h) \<Longrightarrow> sharing_ok (add_mset h H) s'"
  using sharing_begin_shared sharing_begin_new by (cases "map_of (sv_in_flight s) req") blast+

lemma lookup_begin_latest:
  assumes "lookup_begin req url s = (s', h)" and "a < length (sv_heap s)"
  shows "lk_latest (sv_heap s' ! a) = lk_latest (sv_heap s ! a)"
proof (cases "map_of (sv_in_flight s) req")
  case (Some c)
  then show ?thesis using lookup_begin_shared(3) [OF Some assms(1)] assms(2) by (cases "a = c") simp_all
next
  case None
  then show ?thesis using lookup_begin_new(3) [OF None assms(1)] assms(2) by (simp add: nth_append)
qed

lemma sharing_addr:
  "sharing_ok H s \<Longrightarrow> h \<in># H \<Longrightarrow> lh_addr h < length (sv_heap s)"
  by (auto simp: sharing_ok_def)

lemma lookups_ok_begin:
  assumes ok: "lookups_ok n w" and b: "lookup_begin req url (lw_svc w) = (s', h)" and n: "Suc n < 2 ^ 64"
  shows "lookups_ok (Suc n) \<lparr>lw_svc = s', lw_open = add_mset h (lw_open w), lw_log = lw_log w\<rparr>"
proof -
  note f = lookup_begin_fields [OF b]
  have att: "lh_attempt h = Suc n" "sv_attempt s' = Suc n"
    using f(1,4) ok n by (simp_all add: lookups_ok_def wrap64_def)
  have sh: "sharing_ok (lw_open w) (lw_svc w)" using ok by (simp add: lookups_ok_def)
  have cache: "cache_ok (Suc n) (sv_os_snapshots s')"
    using ok f(2) by (fastforce simp: lookups_ok_def cache_ok_def)
  have old: "(r, a) \<in> set (lw_log w) \<Longrightarrow> a \<le> n" for r a
    using ok by (fastforce simp: lookups_ok_def log_ok_def)
  have log: "log_ok (Suc n) (add_mset h (lw_open w)) s' (lw_log w)"
  proof -
    have "a \<le> lk_latest (sv_heap s' ! lh_addr g)"
      if "g \<in># lw_open w" "(lh_req g, a) \<in> set (lw_log w)" "lh_attempt g < a" for g a
      using that ok lookup_begin_latest [OF b sharing_addr [OF sh that(1)]]
      by (simp add: lookups_ok_def log_ok_def)
    then show ?thesis using ok att old by (fastforce simp: lookups_ok_def log_ok_def)
  qed
  have open_n: "open_ok (Suc n) (add_mset h (lw_open w))"
  proof -
    have "filter_mset (\<lambda>g. lh_attempt g = Suc n) (lw_open w) = {#}"
      by (rule filter_mset_none) (use ok in \<open>fastforce simp: lookups_ok_def open_ok_def\<close>)
    then show ?thesis using ok att by (fastforce simp: lookups_ok_def open_ok_def)
  qed
  show ?thesis using att(2) sharing_begin [OF sh b] cache log open_n by (simp add: lookups_ok_def)
qed


subsection \<open>Finishing a lookup\<close>

definition set_latest :: "nat \<Rightarrow> nat \<Rightarrow> os_lookup list \<Rightarrow> os_lookup list" where
  "set_latest addr att heap = heap[addr := (heap ! addr)\<lparr>lk_latest := att\<rparr>]"

lemma evict_fields [simp]:
  "sv_heap (evict iter s) = sv_heap s" "sv_in_flight (evict iter s) = sv_in_flight s"
  "sv_attempt (evict iter s) = sv_attempt s" "sv_cfg (evict iter s) = sv_cfg s"
  "sv_generation (evict iter s) = sv_generation s"
  by (simp_all add: evict_def split: option.split)

lemma lookup_decide_quiet:
  assumes "\<not> publishes h out s"
  shows "fst (lookup_decide iter h out now1 now2 s) = s"
proof -
  have c: "lh_generation h \<noteq> sv_generation s \<or> lh_url h \<noteq> sc_graph_url (sv_cfg s) \<or> isl (fetched out)
      \<or> lk_latest (sv_heap s ! lh_addr h) > lh_attempt h
      \<or> (case map_of (sv_os_snapshots s) (lh_req h) of Some p \<Rightarrow> os_attempt p > lh_attempt h | None \<Rightarrow> False)"
    using assms by (auto simp: publishes_def split: option.splits)
  show ?thesis
  proof (cases "fetched out")
    case (Inl e)
    then show ?thesis by (simp add: lookup_decide_def Let_def split: option.splits)
  next
    case (Inr rs)
    then show ?thesis using c by (simp add: lookup_decide_def Let_def split: option.splits)
  qed
qed

definition room :: "((os_request \<times> os_snapshot) list \<Rightarrow> (os_request \<times> os_snapshot) list) \<Rightarrow> os_request \<Rightarrow> service \<Rightarrow> service" where
  "room iter req s =
     (if map_of (sv_os_snapshots s) req = None \<and> max_snapshots \<le> length (sv_os_snapshots s) then evict iter s else s)"

lemma room_fields [simp]:
  "sv_heap (room iter req s) = sv_heap s" "sv_in_flight (room iter req s) = sv_in_flight s"
  "sv_attempt (room iter req s) = sv_attempt s" "sv_cfg (room iter req s) = sv_cfg s"
  "sv_generation (room iter req s) = sv_generation s"
  by (simp_all add: room_def)

lemma lookup_decide_publish:
  assumes "publishes h out s"
  shows "\<exists>values. fetched out = Inr values
     \<and> lookup_decide iter h out now1 now2 s =
         ((room iter (lh_req h) s)
            \<lparr>sv_heap := set_latest (lh_addr h) (lh_attempt h) (sv_heap s),
             sv_os_snapshots := AList.update (lh_req h)
               \<lparr>os_releases = values, os_generated_at = now2, os_attempt = lh_attempt h\<rparr>
               (sv_os_snapshots (room iter (lh_req h) s))\<rparr>,
          Inr (values, now2))"
proof -
  obtain rs where v: "fetched out = Inr rs"
    using assms by (cases "fetched out") (auto simp: publishes_def)
  have "\<not> (lk_latest (sv_heap s ! lh_addr h) > lh_attempt h
      \<or> (case map_of (sv_os_snapshots s) (lh_req h) of Some p \<Rightarrow> os_attempt p > lh_attempt h | None \<Rightarrow> False))"
    using assms by (auto simp: publishes_def split: option.splits)
  then show ?thesis using assms v
    by (simp add: publishes_def lookup_decide_def Let_def room_def set_latest_def)
qed

lemma lookup_decide_fields:
  assumes "lookup_decide iter h out now1 now2 s = (s', res)"
  shows "sv_in_flight s' = sv_in_flight s" "sv_attempt s' = sv_attempt s"
    "sv_heap s' = (if publishes h out s then set_latest (lh_addr h) (lh_attempt h) (sv_heap s) else sv_heap s)"
proof -
  have "sv_in_flight s' = sv_in_flight s \<and> sv_attempt s' = sv_attempt s
    \<and> sv_heap s' = (if publishes h out s then set_latest (lh_addr h) (lh_attempt h) (sv_heap s) else sv_heap s)"
  proof (cases "publishes h out s")
    case True
    then show ?thesis using lookup_decide_publish [OF True, of iter now1 now2] assms by auto
  next
    case False
    then show ?thesis using lookup_decide_quiet [OF False, of iter now1 now2] assms by simp
  qed
  then show "sv_in_flight s' = sv_in_flight s" "sv_attempt s' = sv_attempt s"
    "sv_heap s' = (if publishes h out s then set_latest (lh_addr h) (lh_attempt h) (sv_heap s) else sv_heap s)"
    by auto
qed

lemma set_latest_nth:
  "a < length heap \<Longrightarrow> set_latest addr att heap ! a = (if a = addr then (heap ! a)\<lparr>lk_latest := att\<rparr> else heap ! a)"
  by (simp add: set_latest_def)

lemma length_set_latest [simp]: "length (set_latest addr att heap) = length heap"
  by (simp add: set_latest_def)

lemma sharing_decide:
  assumes ok: "sharing_ok H s" and d: "lookup_decide iter h out now1 now2 s = (s', res)"
  shows "sharing_ok H s'"
proof -
  note f = lookup_decide_fields [OF d]
  have "length (sv_heap s') = length (sv_heap s)" using f(3) by simp
  moreover have "lk_pending (sv_heap s' ! a) = lk_pending (sv_heap s ! a)" if "a < length (sv_heap s)" for a
    using f(3) that by (simp add: set_latest_nth)
  ultimately show ?thesis using ok f(1) unfolding sharing_ok_def by auto
qed

lemma release_fields:
  "sv_os_snapshots (release_lookup h s) = sv_os_snapshots s" "sv_attempt (release_lookup h s) = sv_attempt s"
  "sv_heap (release_lookup h s) = (sv_heap s)[lh_addr h := (sv_heap s ! lh_addr h)\<lparr>lk_pending := lk_pending (sv_heap s ! lh_addr h) - 1\<rparr>]"
  "sv_in_flight (release_lookup h s) = (if lk_pending (sv_heap s ! lh_addr h) = 1
     then AList.delete (lh_req h) (sv_in_flight s) else sv_in_flight s)"
  by (simp_all add: release_lookup_def Let_def)

lemma release_latest:
  "a < length (sv_heap s) \<Longrightarrow> lk_latest (sv_heap (release_lookup h s) ! a) = lk_latest (sv_heap s ! a)"
  by (cases "a = lh_addr h") (simp_all add: release_fields)

lemma release_in_flight:
  assumes ok: "sharing_ok (add_mset h M) s"
  shows "map_of (sv_in_flight (release_lookup h s)) r =
     (if size (filter_mset (\<lambda>g. lh_req g = r) M) = 0 \<and> r = lh_req h then None else map_of (sv_in_flight s) r)"
proof -
  let ?n = "size (filter_mset (\<lambda>g. lh_req g = lh_req h) M)"
  have pend: "lk_pending (sv_heap s ! lh_addr h) = int ?n + 1"
    using sharing_okD(2) [OF ok sharing_okD(1) [OF ok, of h]] by simp
  show ?thesis
  proof (cases "?n = 0")
    case True
    then have "lk_pending (sv_heap s ! lh_addr h) = 1" using pend by linarith
    then show ?thesis using True by (cases "r = lh_req h") (simp_all only: release_fields(4) map_of_delete_upd fun_upd_def simp_thms if_True if_False)
  next
    case False
    then have "lk_pending (sv_heap s ! lh_addr h) \<noteq> 1" using pend by linarith
    then show ?thesis using False by (cases "r = lh_req h") (simp_all only: release_fields(4) simp_thms if_True if_False)
  qed
qed

lemma sharing_release:
  assumes ok: "sharing_ok (add_mset h M) s"
  shows "sharing_ok M (release_lookup h s)"
proof -
  let ?s = "release_lookup h s" and ?n = "\<lambda>r. size (filter_mset (\<lambda>g. lh_req g = r) M)"
  note req = sharing_okD(1) [OF ok] and inj = sharing_okD(3) [OF ok]
    and fl = release_in_flight [OF ok] and mem = size_filter_pos [of _ lh_req M]
  have flight: "c < length (sv_heap s) \<and> r \<in> lh_req ` set_mset (add_mset h M)
      \<and> lk_pending (sv_heap s ! c) = int (?n r) + (if r = lh_req h then 1 else 0)"
    if "map_of (sv_in_flight s) r = Some c" for r c
    using sharing_okD(2) [OF ok that] by auto
  have "map_of (sv_in_flight ?s) (lh_req g) = Some (lh_addr g)" if "g \<in># M" for g
    using that req fl mem [of "lh_req g"] by auto
  moreover have "c < length (sv_heap ?s) \<and> r \<in> lh_req ` set_mset M \<and> lk_pending (sv_heap ?s ! c) = int (?n r)"
    if "map_of (sv_in_flight ?s) r = Some c" for r c
  proof -
    have r: "map_of (sv_in_flight s) r = Some c" "\<not> (?n r = 0 \<and> r = lh_req h)"
      using that fl [of r] by (auto split: if_splits)
    have "c = lh_addr h \<longleftrightarrow> r = lh_req h" using r(1) req [of h] inj by auto
    then show ?thesis using flight [OF r(1)] r(2) mem [of r] by (auto simp: release_fields(3))
  qed
  moreover have "r = r'" if "map_of (sv_in_flight ?s) r = Some c" "map_of (sv_in_flight ?s) r' = Some c" for r r' c
    using that fl [of r] fl [of r'] inj [of r c r'] by (auto split: if_splits)
  ultimately show ?thesis unfolding sharing_ok_def by blast
qed


subsection \<open>The cache\<close>

lemma length_alist_update:
  "length (AList.update k v m) = (if map_of m k = None then Suc (length m) else length m)"
proof -
  have "length (AList.update k v m) = length (map fst (AList.update k v m))" by simp
  also have "\<dots> = (if map_of m k = None then Suc (length m) else length m)"
    unfolding update_keys by (simp add: map_of_eq_None_iff)
  finally show ?thesis .
qed

lemma length_alist_delete: "map_of m k = Some v \<Longrightarrow> length (AList.delete k m) < length m"
  unfolding AList.delete_eq by (rule length_filter_less [of "(k, v)"]) (auto dest: map_of_SomeD)

text \<open>An eviction removes the entry of the oldest attempt, in whatever order the map is visited.\<close>

lemma evict_oldest:
  assumes m: "cache_ok n (sv_os_snapshots s)" "sv_os_snapshots s \<noteq> []" and it: "is_iter iter"
  shows "\<exists>k p. map_of (sv_os_snapshots s) k = Some p
     \<and> (\<forall>(r, q) \<in> set (sv_os_snapshots s). os_attempt p \<le> os_attempt q)
     \<and> sv_os_snapshots (evict iter s) = AList.delete k (sv_os_snapshots s)"
proof -
  let ?es = "iter (sv_os_snapshots s)"
  have set: "set ?es = set (sv_os_snapshots s)" by (rule is_iter_set [OF it])
  then have "?es \<noteq> []" using m(2) by (metis set_empty)
  moreover have "\<forall>e \<in> set ?es. 0 < os_attempt (snd e)" using m(1) set by (auto simp: cache_ok_def)
  ultimately obtain k p where k: "find_oldest ?es None 0 = Some k" "(k, p) \<in> set ?es"
    "\<forall>e \<in> set ?es. os_attempt p \<le> os_attempt (snd e)"
    using find_oldest_entry by blast
  have "map_of (sv_os_snapshots s) k = Some p" using k(2) set m(1) by (simp add: cache_ok_def map_of_is_SomeI)
  moreover have "\<forall>(r, q) \<in> set (sv_os_snapshots s). os_attempt p \<le> os_attempt q" using k(3) set by fastforce
  moreover have "sv_os_snapshots (evict iter s) = AList.delete k (sv_os_snapshots s)" using k(1) by (simp add: evict_def)
  ultimately show ?thesis by blast
qed

lemma cache_room:
  assumes c: "cache_ok n (sv_os_snapshots s)" and it: "is_iter iter"
  shows "cache_ok n (sv_os_snapshots (room iter req s))"
    and "map_of (sv_os_snapshots (room iter req s)) req \<noteq> None \<or> length (sv_os_snapshots (room iter req s)) < max_snapshots"
proof -
  have "cache_ok n (sv_os_snapshots (room iter req s))
    \<and> (map_of (sv_os_snapshots (room iter req s)) req \<noteq> None \<or> length (sv_os_snapshots (room iter req s)) < max_snapshots)"
  proof (cases "map_of (sv_os_snapshots s) req = None \<and> max_snapshots \<le> length (sv_os_snapshots s)")
    case True
    then have "sv_os_snapshots s \<noteq> []" by (auto simp: max_snapshots_def)
    then obtain k p where k: "map_of (sv_os_snapshots s) k = Some p"
      "sv_os_snapshots (evict iter s) = AList.delete k (sv_os_snapshots s)"
      using evict_oldest [OF c _ it] by blast
    have "set (AList.delete k (sv_os_snapshots s)) \<subseteq> set (sv_os_snapshots s)" by (auto simp: AList.delete_eq)
    then show ?thesis using True c length_alist_delete [OF k(1)] k(2)
      by (auto simp: room_def cache_ok_def distinct_delete)
  next
    case False
    then show ?thesis using c by (auto simp: room_def)
  qed
  then show "cache_ok n (sv_os_snapshots (room iter req s))"
    "map_of (sv_os_snapshots (room iter req s)) req \<noteq> None \<or> length (sv_os_snapshots (room iter req s)) < max_snapshots"
    by auto
qed

lemma cache_update:
  assumes "cache_ok n m" and "map_of m k \<noteq> None \<or> length m < max_snapshots"
    and "0 < os_attempt p" "os_attempt p \<le> n"
  shows "cache_ok n (AList.update k p m)"
  using assms set_update_subset [of k p m]
  by (auto simp: cache_ok_def distinct_update length_alist_update)

lemma cache_decide:
  assumes c: "cache_ok n (sv_os_snapshots s)" and it: "is_iter iter"
    and h: "0 < lh_attempt h" "lh_attempt h \<le> n" and d: "lookup_decide iter h out now1 now2 s = (s', res)"
  shows "cache_ok n (sv_os_snapshots s')"
proof (cases "publishes h out s")
  case True
  then show ?thesis
    using lookup_decide_publish [OF True, of iter now1 now2] d cache_update [OF cache_room [OF c it]] h by fastforce
next
  case False
  then show ?thesis using lookup_decide_quiet [OF False, of iter now1 now2] d c by simp
qed

subsection \<open>Publication order\<close>

text \<open>A publication comes after all earlier ones of its request, and has an attempt of its own.\<close>

lemma publish_later:
  assumes log: "log_ok n (add_mset h M) s log" and p: "publishes h out s" and a: "(lh_req h, a) \<in> set log"
  shows "a < lh_attempt h"
proof (rule ccontr)
  assume "\<not> a < lh_attempt h"
  moreover have "a \<noteq> lh_attempt h" using log a by (auto simp: log_ok_def)
  ultimately have less: "lh_attempt h < a" by simp
  then have "a \<le> lk_latest (sv_heap s ! lh_addr h)" using log a by (simp add: log_ok_def)
  moreover have "lk_latest (sv_heap s ! lh_addr h) \<le> lh_attempt h" using p by (simp add: publishes_def not_less)
  ultimately show False using less by simp
qed

lemma open_attempts_differ:
  assumes "open_ok n (add_mset h M)" and "g \<in># M"
  shows "lh_attempt g \<noteq> lh_attempt h"
proof
  assume "lh_attempt g = lh_attempt h"
  then have "size (filter_mset (\<lambda>g. lh_attempt g = lh_attempt h) M) \<noteq> 0"
    using size_filter_pos [of "lh_attempt h" lh_attempt M] assms(2) by (auto intro: rev_image_eqI)
  moreover have "size (filter_mset (\<lambda>g. lh_attempt g = lh_attempt h) (add_mset h M)) \<le> 1"
    using assms(1) unfolding open_ok_def by blast
  then have "Suc (size (filter_mset (\<lambda>g. lh_attempt g = lh_attempt h) M)) \<le> 1"
    by (simp only: filter_mset_add_mset simp_thms if_True size_add_mset)
  ultimately show False by linarith
qed

lemma log_publish:
  assumes log: "log_ok n (add_mset h M) s log" and sh: "sharing_ok (add_mset h M) s"
    and op: "open_ok n (add_mset h M)" and p: "publishes h out s"
    and heap: "sv_heap s' = set_latest (lh_addr h) (lh_attempt h) (sv_heap s)"
  shows "log_ok n M s' (log @ [(lh_req h, lh_attempt h)])"
proof -
  let ?a = "lh_attempt h"
  note earlier = publish_later [OF log p] and addr = sharing_okD(1) [OF sh] and inj = sharing_okD(3) [OF sh]
  have "sorted_wrt (<) (map snd (filter (\<lambda>(r', a). r' = r) (log @ [(lh_req h, ?a)])))" for r
    using log earlier by (auto simp: log_ok_def sorted_wrt_append)
  moreover have "(lh_req g, lh_attempt g) \<notin> set (log @ [(lh_req h, ?a)])" if "g \<in># M" for g
    using log that open_attempts_differ [OF op that] by (simp add: log_ok_def)
  moreover have "a \<le> lk_latest (sv_heap s' ! lh_addr g)"
    if g: "g \<in># M" and a: "(lh_req g, a) \<in> set (log @ [(lh_req h, ?a)])" and less: "lh_attempt g < a" for g a
  proof -
    have la: "lh_addr g < length (sv_heap s)" using sharing_addr [OF sh] g by simp
    show ?thesis
    proof (cases "lh_req g = lh_req h")
      case True
      then have "lh_addr g = lh_addr h" using addr [of g] addr [of h] g by simp
      then have "lk_latest (sv_heap s' ! lh_addr g) = ?a" using heap la by (simp add: set_latest_nth)
      then show ?thesis using a True earlier by (auto intro: less_imp_le)
    next
      case False
      then have "lh_addr g \<noteq> lh_addr h" using addr [of g] addr [of h] g inj [of "lh_req g" "lh_addr g" "lh_req h"] by auto
      then have "sv_heap s' ! lh_addr g = sv_heap s ! lh_addr g" using heap la by (simp add: set_latest_nth)
      moreover have "(lh_req g, a) \<in> set log" using a False by auto
      ultimately show ?thesis using log g less by (simp add: log_ok_def)
    qed
  qed
  moreover have "\<forall>(r, a) \<in> set (log @ [(lh_req h, ?a)]). a \<le> n" using log op by (auto simp: log_ok_def open_ok_def)
  ultimately show ?thesis unfolding log_ok_def by blast
qed


lemma log_quiet:
  assumes "log_ok n (add_mset h M) s log" and "sv_heap s' = sv_heap s"
  shows "log_ok n M s' log"
  using assms by (auto simp: log_ok_def)

lemma log_release:
  assumes "log_ok n M s log" and "sharing_ok (add_mset h M) s"
  shows "log_ok n M (release_lookup h s) log"
proof -
  have "lk_latest (sv_heap (release_lookup h s) ! lh_addr g) = lk_latest (sv_heap s ! lh_addr g)" if "g \<in># M" for g
    using release_latest sharing_addr [OF assms(2), of g] that by simp
  then show ?thesis using assms(1) by (simp add: log_ok_def)
qed

lemma open_ok_remove:
  assumes op: "open_ok n (add_mset h M)"
  shows "open_ok n M"
proof -
  have "size (filter_mset (\<lambda>g. lh_attempt g = a) M) \<le> 1" for a
  proof -
    have "filter_mset (\<lambda>g. lh_attempt g = a) M \<subseteq># filter_mset (\<lambda>g. lh_attempt g = a) (add_mset h M)" by simp
    then show ?thesis using op size_mset_mono unfolding open_ok_def by (metis (no_types) order_trans)
  qed
  then show ?thesis using op by (simp add: open_ok_def)
qed

lemma lookups_ok_finish:
  assumes ok: "lookups_ok n w" and h: "h \<in># lw_open w" and it: "is_iter iter"
    and f: "lookup_finish iter h out now1 now2 (lw_svc w) = (s', res)"
  shows "lookups_ok n \<lparr>lw_svc = s', lw_open = lw_open w - {#h#},
       lw_log = lw_log w @ (if publishes h out (lw_svc w) then [(lh_req h, lh_attempt h)] else [])\<rparr>"
proof -
  let ?s = "lw_svc w"
  obtain M where M: "lw_open w = add_mset h M" using h by (metis mset_add)
  obtain s1 where d: "lookup_decide iter h out now1 now2 ?s = (s1, res)" and s': "s' = release_lookup h s1"
    using f by (auto simp: lookup_finish_def split: prod.splits)
  have i: "sharing_ok (add_mset h M) ?s" "cache_ok n (sv_os_snapshots ?s)" "log_ok n (add_mset h M) ?s (lw_log w)"
    "open_ok n (add_mset h M)" "sv_attempt ?s = n"
    using ok M by (simp_all add: lookups_ok_def)
  note fields = lookup_decide_fields [OF d]
  have sh: "sharing_ok (add_mset h M) s1" by (rule sharing_decide [OF i(1) d])
  have "log_ok n M s1 (lw_log w @ (if publishes h out ?s then [(lh_req h, lh_attempt h)] else []))"
    using log_publish [OF i(3,1,4)] log_quiet [OF i(3)] fields(3) by simp
  then have "log_ok n M s' (lw_log w @ (if publishes h out ?s then [(lh_req h, lh_attempt h)] else []))"
    using log_release [OF _ sh] s' by simp
  moreover have "0 < lh_attempt h" "lh_attempt h \<le> n" using i(4) by (simp_all add: open_ok_def)
  then have "cache_ok n (sv_os_snapshots s')" using cache_decide [OF i(2) it _ _ d] s' release_fields(1) by simp
  moreover have "sharing_ok M s'" using sharing_release [OF sh] s' by simp
  moreover have "sv_attempt s' = n" using i(5) fields(2) s' by (simp add: release_fields(2))
  ultimately show ?thesis using M open_ok_remove [OF i(4)] by (simp add: lookups_ok_def)
qed

lemma lookups_ok: "lookups n w \<Longrightarrow> n < 2 ^ 64 \<Longrightarrow> lookups_ok n w"
proof (induction rule: lookups.induct)
  case (lookups_start cfg)
  then show ?case
    by (simp add: lookups_ok_def sharing_ok_def cache_ok_def log_ok_def open_ok_def new_service_def)
next
  case (lookups_begin n w req url s' h)
  then show ?case using lookups_ok_begin by simp
next
  case (lookups_finish n w h iter out now1 now2 s' res)
  then show ?case using lookups_ok_finish by blast
next
  case (lookups_reload n w cfg)
  then show ?case using lookups_ok_same same_lookups_reload by blast
next
  case (lookups_refresh n w inp th sem sem' s' ths)
  then show ?case using lookups_ok_same same_lookups_run by blast
qed

end
