(* ===== verification/Service_Cache.thy ===== *)
theory Service_Cache
  imports Service_Lookup
begin

text \<open>Properties of the OpenShift lookups of the service.\<close>

lemma lookups_ordered:
  assumes "lookups n w" and "n < 2 ^ 64"
  shows "sorted_wrt (<) (map snd (filter (\<lambda>(r', a). r' = req) (lw_log w)))"
  using lookups_ok [OF assms] by (simp add: lookups_ok_def log_ok_def)

lemma lookups_bounded:
  assumes "lookups n w" and "n < 2 ^ 64"
  shows "length (sv_os_snapshots (lw_svc w)) \<le> 128
     \<and> dom (map_of (sv_in_flight (lw_svc w))) = lh_req ` set_mset (lw_open w)
     \<and> (\<forall>req a. map_of (sv_in_flight (lw_svc w)) req = Some a \<longrightarrow>
          lk_pending (sv_heap (lw_svc w) ! a) = int (size (filter_mset (\<lambda>h. lh_req h = req) (lw_open w))))"
proof -
  have ok: "sharing_ok (lw_open w) (lw_svc w)" "cache_ok n (sv_os_snapshots (lw_svc w))"
    using lookups_ok [OF assms] by (simp_all add: lookups_ok_def)
  have "dom (map_of (sv_in_flight (lw_svc w))) = lh_req ` set_mset (lw_open w)"
  proof
    show "dom (map_of (sv_in_flight (lw_svc w))) \<subseteq> lh_req ` set_mset (lw_open w)"
      using ok(1) unfolding sharing_ok_def by blast
    show "lh_req ` set_mset (lw_open w) \<subseteq> dom (map_of (sv_in_flight (lw_svc w)))"
      using ok(1) unfolding sharing_ok_def by auto
  qed
  then show ?thesis using ok by (simp add: sharing_ok_def cache_ok_def max_snapshots_def)
qed

text \<open>
  C25: The protocol of overlapping lookups. Lookups of the same request publish in the order in which
  they were started, and no lookup publishes twice: an older result never replaces a newer one, not
  even after the newer one was evicted from the cache or cleared by a reload. Client input cannot make
  the state grow without bound: the cache holds at most 128 results, and a shared record exists
  exactly for the requests with a lookup under way, with their number in it; when no lookup is under
  way, none is left. (Fewer than \<open>2 ^ 64\<close> lookups were started, so that the attempt counter has not
  wrapped.)
\<close>

theorem lookups_protocol:
  assumes "lookups n w" and "n < 2 ^ 64"
  shows "(\<forall>req. sorted_wrt (<) (map snd (filter (\<lambda>(r', a). r' = req) (lw_log w))))
     \<and> length (sv_os_snapshots (lw_svc w)) \<le> 128
     \<and> dom (map_of (sv_in_flight (lw_svc w))) = lh_req ` set_mset (lw_open w)
     \<and> (\<forall>req a. map_of (sv_in_flight (lw_svc w)) req = Some a \<longrightarrow>
          lk_pending (sv_heap (lw_svc w) ! a) = int (size (filter_mset (\<lambda>h. lh_req h = req) (lw_open w))))"
  using lookups_ordered [OF assms] lookups_bounded [OF assms] by blast

section \<open>The answer of a lookup\<close>

text \<open>
  The words of the answer: the lookup still belongs to the configured graph; a lookup of the same
  request that started later has succeeded before it; and the last known good result, which is the
  stored one of exactly this request while it has not expired.
\<close>

definition same_graph :: "lookup_handle \<Rightarrow> service \<Rightarrow> bool" where
  "same_graph h s \<longleftrightarrow> lh_generation h = sv_generation s \<and> lh_url h = sc_graph_url (sv_cfg s)"

definition overtaken :: "lookup_handle \<Rightarrow> service \<Rightarrow> bool" where
  "overtaken h s \<longleftrightarrow> lh_attempt h < lk_latest (sv_heap s ! lh_addr h)
     \<or> (\<exists>p. map_of (sv_os_snapshots s) (lh_req h) = Some p \<and> lh_attempt h < os_attempt p)"

definition last_known_good :: "lookup_handle \<Rightarrow> time \<Rightarrow> service \<Rightarrow> (release list \<times> time) option" where
  "last_known_good h now s =
     (case map_of (sv_os_snapshots s) (lh_req h) of
        None \<Rightarrow> None
      | Some p \<Rightarrow>
          if os_generated_at p = zero_time \<or> nanos (effective_max_age (sv_cfg s)) < time_sub now (os_generated_at p) then None
          else Some (os_releases p, os_generated_at p))"

lemma publishes_iff: "publishes h out s \<longleftrightarrow> same_graph h s \<and> \<not> overtaken h s \<and> (\<forall>e. out \<noteq> FetchError e)"
  by (cases out) (auto simp: publishes_def same_graph_def overtaken_def fetched_def not_less)

lemma lookup_decide_answer:
  "snd (lookup_decide iter h out now1 now2 s) =
     (if \<not> same_graph h s then Inl ConfigChanged
      else case out of
        FetchError e \<Rightarrow> (case last_known_good h now1 s of None \<Rightarrow> Inl (LookupFailed e) | Some r \<Rightarrow> Inr r)
      | Fetched rs \<Rightarrow>
          if \<not> overtaken h s then Inr (rs, now2)
          else (case last_known_good h now1 s of
            None \<Rightarrow> Inl (if map_of (sv_os_snapshots s) (lh_req h) = None then NewerEvicted else SnapshotExpired) | Some r \<Rightarrow> Inr r)
      | CurrentNotFound \<Rightarrow>
          if \<not> overtaken h s then Inr ([], now2)
          else (case last_known_good h now1 s of
            None \<Rightarrow> Inl (if map_of (sv_os_snapshots s) (lh_req h) = None then NewerEvicted else SnapshotExpired) | Some r \<Rightarrow> Inr r))"
  by (cases out; cases "map_of (sv_os_snapshots s) (lh_req h)")
    (simp_all add: lookup_decide_def same_graph_def overtaken_def last_known_good_def fetched_def snapshot_acceptable_def
      Let_def not_less not_le)

lemma lookup_finish_fields:
  "snd (lookup_finish iter h out now1 now2 s) = snd (lookup_decide iter h out now1 now2 s)"
  "sv_os_snapshots (fst (lookup_finish iter h out now1 now2 s)) = sv_os_snapshots (fst (lookup_decide iter h out now1 now2 s))"
  by (simp_all add: lookup_finish_def release_fields split: prod.split)

lemma room_map:
  assumes c: "cache_ok n (sv_os_snapshots s)" and it: "is_iter iter"
  shows "if map_of (sv_os_snapshots s) req = None \<and> length (sv_os_snapshots s) = 128
     then \<exists>k p. map_of (sv_os_snapshots s) k = Some p \<and> (\<forall>(r, q) \<in> set (sv_os_snapshots s). os_attempt p \<le> os_attempt q)
        \<and> map_of (sv_os_snapshots (room iter req s)) = (map_of (sv_os_snapshots s))(k := None)
     else sv_os_snapshots (room iter req s) = sv_os_snapshots s"
proof -
  have le: "length (sv_os_snapshots s) \<le> 128" using c by (simp add: cache_ok_def max_snapshots_def)
  show ?thesis
  proof (cases "map_of (sv_os_snapshots s) req = None \<and> length (sv_os_snapshots s) = 128")
    case full: True
    then have "sv_os_snapshots s \<noteq> []" by auto
    then obtain k p where "map_of (sv_os_snapshots s) k = Some p"
      "\<forall>(r, q) \<in> set (sv_os_snapshots s). os_attempt p \<le> os_attempt q"
      "sv_os_snapshots (evict iter s) = AList.delete k (sv_os_snapshots s)"
      using evict_oldest [OF c _ it] by blast
    then show ?thesis using full by (auto simp: room_def max_snapshots_def delete_conv')
  qed (use le in \<open>auto simp: room_def max_snapshots_def\<close>)
qed

lemma lookup_stored:
  assumes c: "cache_ok n (sv_os_snapshots s)" and it: "is_iter iter"
    and f: "lookup_finish iter h out now1 now2 s = (s', res)"
  shows "if same_graph h s \<and> (\<forall>e. out \<noteq> FetchError e) \<and> \<not> overtaken h s
    then \<exists>rs. res = Inr (rs, now2)
      \<and> (let put = (\<lambda>m. m(lh_req h \<mapsto> \<lparr>os_releases = rs, os_generated_at = now2, os_attempt = lh_attempt h\<rparr>))
         in if map_of (sv_os_snapshots s) (lh_req h) = None \<and> length (sv_os_snapshots s) = 128
            then \<exists>k p. map_of (sv_os_snapshots s) k = Some p
               \<and> (\<forall>(r, q) \<in> set (sv_os_snapshots s). os_attempt p \<le> os_attempt q)
               \<and> map_of (sv_os_snapshots s') = put ((map_of (sv_os_snapshots s))(k := None))
            else map_of (sv_os_snapshots s') = put (map_of (sv_os_snapshots s)))
    else sv_os_snapshots s' = sv_os_snapshots s"
proof -
  have r: "res = snd (lookup_decide iter h out now1 now2 s)"
    and s': "sv_os_snapshots s' = sv_os_snapshots (fst (lookup_decide iter h out now1 now2 s))"
    using lookup_finish_fields [of iter h out now1 now2 s] f by simp_all
  have "if same_graph h s \<and> (\<forall>e. out \<noteq> FetchError e) \<and> \<not> overtaken h s
      then \<exists>rs. res = Inr (rs, now2) \<and> sv_os_snapshots s' = AList.update (lh_req h)
          \<lparr>os_releases = rs, os_generated_at = now2, os_attempt = lh_attempt h\<rparr> (sv_os_snapshots (room iter (lh_req h) s))
      else sv_os_snapshots s' = sv_os_snapshots s"
    using lookup_decide_publish [of h out s iter now1 now2] lookup_decide_quiet [of h out s iter now1 now2]
    unfolding r s' publishes_iff by auto
  then have state: "if same_graph h s \<and> (\<forall>e. out \<noteq> FetchError e) \<and> \<not> overtaken h s
      then \<exists>rs. res = Inr (rs, now2) \<and> map_of (sv_os_snapshots s')
          = (map_of (sv_os_snapshots (room iter (lh_req h) s)))
              (lh_req h \<mapsto> \<lparr>os_releases = rs, os_generated_at = now2, os_attempt = lh_attempt h\<rparr>)
      else sv_os_snapshots s' = sv_os_snapshots s"
    by (auto simp: update_conv' split: if_splits)
  show ?thesis
  proof (cases "map_of (sv_os_snapshots s) (lh_req h) = None \<and> length (sv_os_snapshots s) = 128")
    case True
    then obtain k p where "map_of (sv_os_snapshots s) k = Some p"
      "\<forall>(r, q) \<in> set (sv_os_snapshots s). os_attempt p \<le> os_attempt q"
      "map_of (sv_os_snapshots (room iter (lh_req h) s)) = (map_of (sv_os_snapshots s))(k := None)"
      using room_map [OF c it, of "lh_req h"] by auto
    then show ?thesis using state True by (auto simp: Let_def intro!: exI [of _ k] exI [of _ p] split: if_splits)
  next
    case False
    then show ?thesis using state room_map [OF c it, of "lh_req h"] by (auto simp: Let_def split: if_splits)
  qed
qed

text \<open>
  C26: What a lookup answers, on every branch. It fails with a changed configuration exactly when the
  graph is no longer the one it started with. With the graph unchanged, a fetched result (an unknown
  current version is an empty one) is answered with the time of publication unless a later lookup of
  the same request has succeeded before; after a failed fetch, and for an overtaken result, the answer
  is the last known good one. Without one, a failed fetch is answered with its own error, and an
  overtaken result with the error that says whether the newer result was evicted or has expired.
  Exactly an answer with the fetched result is a publication: it is stored under this request with
  this time, and at most one other entry disappears, the one of the oldest attempt, and only when the
  cache is full and has no result of this request. All other answers leave the cache as it is.
\<close>

theorem lookup_answer:
  assumes c: "cache_ok n (sv_os_snapshots s)" and it: "is_iter iter"
    and f: "lookup_finish iter h out now1 now2 s = (s', res)"
  shows "(res = Inl ConfigChanged \<longleftrightarrow> \<not> same_graph h s)
     \<and> (\<forall>e. res = Inl (LookupFailed e) \<longleftrightarrow> same_graph h s \<and> out = FetchError e \<and> last_known_good h now1 s = None)
     \<and> (res = Inl NewerEvicted \<longleftrightarrow> same_graph h s \<and> (\<forall>e. out \<noteq> FetchError e) \<and> overtaken h s
          \<and> map_of (sv_os_snapshots s) (lh_req h) = None)
     \<and> (res = Inl SnapshotExpired \<longleftrightarrow> same_graph h s \<and> (\<forall>e. out \<noteq> FetchError e) \<and> overtaken h s
          \<and> map_of (sv_os_snapshots s) (lh_req h) \<noteq> None \<and> last_known_good h now1 s = None)
     \<and> (\<forall>rs t. res = Inr (rs, t) \<longleftrightarrow> same_graph h s
          \<and> ((\<exists>e. out = FetchError e) \<or> overtaken h s) \<and> last_known_good h now1 s = Some (rs, t)
        \<or> same_graph h s \<and> (out = Fetched rs \<or> out = CurrentNotFound \<and> rs = []) \<and> \<not> overtaken h s \<and> t = now2)
     \<and> (if same_graph h s \<and> (\<forall>e. out \<noteq> FetchError e) \<and> \<not> overtaken h s
        then \<exists>rs. res = Inr (rs, now2)
          \<and> (let put = (\<lambda>m. m(lh_req h \<mapsto> \<lparr>os_releases = rs, os_generated_at = now2, os_attempt = lh_attempt h\<rparr>))
             in if map_of (sv_os_snapshots s) (lh_req h) = None \<and> length (sv_os_snapshots s) = 128
                then \<exists>k p. map_of (sv_os_snapshots s) k = Some p
                   \<and> (\<forall>(r, q) \<in> set (sv_os_snapshots s). os_attempt p \<le> os_attempt q)
                   \<and> map_of (sv_os_snapshots s') = put ((map_of (sv_os_snapshots s))(k := None))
                else map_of (sv_os_snapshots s') = put (map_of (sv_os_snapshots s)))
        else sv_os_snapshots s' = sv_os_snapshots s)"
proof -
  have ans: "res = snd (lookup_decide iter h out now1 now2 s)"
    using lookup_finish_fields [of iter h out now1 now2 s] f by simp
  note ans = ans [unfolded lookup_decide_answer]
  have lkg: "map_of (sv_os_snapshots s) (lh_req h) = None \<Longrightarrow> last_known_good h now1 s = None"
    by (simp add: last_known_good_def)
  show ?thesis
  proof (intro conjI)
    show "res = Inl ConfigChanged \<longleftrightarrow> \<not> same_graph h s"
      unfolding ans by (auto split: fetch_outcome.split option.split)
    show "\<forall>e. res = Inl (LookupFailed e) \<longleftrightarrow> same_graph h s \<and> out = FetchError e \<and> last_known_good h now1 s = None"
      unfolding ans by (auto split: fetch_outcome.split option.split)
    show "res = Inl NewerEvicted \<longleftrightarrow> same_graph h s \<and> (\<forall>e. out \<noteq> FetchError e) \<and> overtaken h s
          \<and> map_of (sv_os_snapshots s) (lh_req h) = None"
      unfolding ans using lkg by (auto split: fetch_outcome.split option.split)
    show "res = Inl SnapshotExpired \<longleftrightarrow> same_graph h s \<and> (\<forall>e. out \<noteq> FetchError e) \<and> overtaken h s
          \<and> map_of (sv_os_snapshots s) (lh_req h) \<noteq> None \<and> last_known_good h now1 s = None"
      unfolding ans by (auto split: fetch_outcome.split option.split)
    show "\<forall>rs t. res = Inr (rs, t) \<longleftrightarrow> same_graph h s
          \<and> ((\<exists>e. out = FetchError e) \<or> overtaken h s) \<and> last_known_good h now1 s = Some (rs, t)
        \<or> same_graph h s \<and> (out = Fetched rs \<or> out = CurrentNotFound \<and> rs = []) \<and> \<not> overtaken h s \<and> t = now2"
      unfolding ans by (auto split: fetch_outcome.split option.split)
  qed (rule lookup_stored [OF assms])
qed

section \<open>A sample of overlapping lookups\<close>

definition ex_lookup :: os_request where
  "ex_lookup = \<lparr>rq_channel = ''stable-4.18'', rq_architecture = ''multi'', rq_current_version = ''4.18.1'', rq_lag = 0\<rparr>"

definition ex_service :: service where
  "ex_service = new_service (ex_cfg [ex_source] ''old'')"

definition ex_lookup1 :: "service \<times> lookup_handle" where
  "ex_lookup1 = lookup_begin ex_lookup [] ex_service"

definition ex_lookup2 :: "service \<times> lookup_handle" where
  "ex_lookup2 = lookup_begin ex_lookup [] (fst ex_lookup1)"

definition ex_newer :: "release list" where
  "ex_newer = [\<lparr>rl_version = ''4.18.1'', rl_deprecated = False, rl_changelog = [], rl_changelog_url = [], rl_digest = []\<rparr>]"

definition ex_finish2 :: "service \<times> (lookup_error + release list \<times> time)" where
  "ex_finish2 = lookup_finish (\<lambda>xs. xs) (snd ex_lookup2) (Fetched ex_newer) 100 100 (fst ex_lookup2)"

definition ex_finish1 :: "service \<times> (lookup_error + release list \<times> time)" where
  "ex_finish1 = lookup_finish (\<lambda>xs. xs) (snd ex_lookup1) (Fetched []) 110 110 (fst ex_finish2)"

text \<open>The older lookup finishes last: it is answered with the newer result, and publishes nothing.\<close>

lemma ex_finish_results: "snd ex_finish2 = Inr (ex_newer, 100)" "snd ex_finish1 = Inr (ex_newer, 100)"
  by code_simp+

definition ex_lookups :: lookup_world where
  "ex_lookups = \<lparr>lw_svc = fst ex_finish2, lw_open = {#snd ex_lookup1#}, lw_log = [(ex_lookup, 2)]\<rparr>"

lemma ex_lookups_reached: "lookups 2 ex_lookups"
proof -
  let ?w0 = "\<lparr>lw_svc = ex_service, lw_open = {#}, lw_log = []\<rparr>"
  let ?w1 = "\<lparr>lw_svc = fst ex_lookup1, lw_open = {#snd ex_lookup1#}, lw_log = []\<rparr>"
  let ?w2 = "\<lparr>lw_svc = fst ex_lookup2, lw_open = {#snd ex_lookup2, snd ex_lookup1#}, lw_log = []\<rparr>"
  have "lookups 0 ?w0" unfolding ex_service_def by (rule lookups_start)
  then have "lookups (Suc 0) ?w1"
    using lookups_begin [of 0 ?w0 ex_lookup "[]" "fst ex_lookup1" "snd ex_lookup1"] by (simp add: ex_lookup1_def)
  then have 2: "lookups 2 ?w2"
    using lookups_begin [of "Suc 0" ?w1 ex_lookup "[]" "fst ex_lookup2" "snd ex_lookup2"]
    by (simp add: ex_lookup2_def numeral_2_eq_2)
  have p: "publishes (snd ex_lookup2) (Fetched ex_newer) (fst ex_lookup2)"
  proof -
    have e: "lh_generation (snd ex_lookup2) = sv_generation (fst ex_lookup2)"
      "lh_url (snd ex_lookup2) = sc_graph_url (sv_cfg (fst ex_lookup2))"
      "\<not> lk_latest (sv_heap (fst ex_lookup2) ! lh_addr (snd ex_lookup2)) > lh_attempt (snd ex_lookup2)"
      "Option.is_none (map_of (sv_os_snapshots (fst ex_lookup2)) (lh_req (snd ex_lookup2)))"
      by code_simp+
    then show ?thesis by (simp add: publishes_def fetched_def Option.is_none_def)
  qed
  have a: "lh_attempt (snd ex_lookup2) = 2" "lh_req (snd ex_lookup2) = ex_lookup" by code_simp+
  have "lookup_finish (\<lambda>xs. xs) (snd ex_lookup2) (Fetched ex_newer) 100 100 (lw_svc ?w2) = (fst ex_finish2, snd ex_finish2)"
    by (simp add: ex_finish2_def)
  from lookups_finish [OF 2 _ is_iter_id this] show ?thesis
    using p a by (simp add: ex_lookups_def)
qed

theorem lookups_protocol_witness:
  "\<exists>w. lookups 2 w \<and> lw_log w \<noteq> [] \<and> sorted_wrt (<) (map snd (filter (\<lambda>(r', a). r' = ex_lookup) (lw_log w)))
     \<and> dom (map_of (sv_in_flight (lw_svc w))) = {ex_lookup}"
proof -
  have "lw_log ex_lookups \<noteq> []" "lw_open ex_lookups = {#snd ex_lookup1#}" by (simp_all add: ex_lookups_def)
  moreover have "lh_req (snd ex_lookup1) = ex_lookup" by code_simp
  moreover have "(2 :: nat) < 2 ^ 64" by simp
  ultimately show ?thesis
    using ex_lookups_reached lookups_protocol [OF ex_lookups_reached] by (intro exI [of _ ex_lookups]) auto
qed

text \<open>After the newer result was stored, the fetch of the older lookup fails: it is answered with the newer one.\<close>

theorem lookup_answer_witness:
  "snd (lookup_finish (\<lambda>xs. xs) (snd ex_lookup1) (FetchError ''timeout'') 110 110 (fst ex_finish2)) = Inr (ex_newer, 100)"
proof -
  let ?f = "lookup_finish (\<lambda>xs. xs) (snd ex_lookup1) (FetchError ''timeout'') 110 110 (fst ex_finish2)"
  have e: "lh_generation (snd ex_lookup1) = sv_generation (fst ex_finish2)"
    "lh_url (snd ex_lookup1) = sc_graph_url (sv_cfg (fst ex_finish2))"
    "case last_known_good (snd ex_lookup1) 110 (fst ex_finish2) of Some r \<Rightarrow> r = (ex_newer, 100) | None \<Rightarrow> False"
    "length (sv_os_snapshots (fst ex_finish2)) = 1"
    "list_all (\<lambda>(r, p). os_attempt p = 2) (sv_os_snapshots (fst ex_finish2))"
    by code_simp+
  have "cache_ok 2 (sv_os_snapshots (fst ex_finish2))"
    using e(4,5) by (auto simp: cache_ok_def max_snapshots_def list_all_iff length_Suc_conv)
  from lookup_answer [OF this is_iter_id surjective_pairing [of ?f]]
  show ?thesis using e(1-3) by (auto simp: same_graph_def split: option.splits)
qed

end
