(* ===== verification/Openshift_Advisory.thy ===== *)
theory Openshift_Advisory
  imports Go_Text
begin

text \<open>
  Red Hat advisories, the part of \<^verbatim>\<open>internal/openshift/changelog.go\<close> that reads an errata page and
  renders it: the walk over the parsed HTML, the references it collects, and the Markdown summary
  with its length limit. The HTML parser (\<^verbatim>\<open>golang.org/x/net/html\<close>) is not part of the program: its
  result is the argument. \<open>url.Parse\<close> enters as the argument \<open>parse\<close>.
\<close>

section \<open>Text\<close>

definition ellipsis :: string where
  "ellipsis = [CHR 0xE2, CHR 0x80, CHR 0xA6]"

definition em_dash :: string where
  "em_dash = [CHR 0xE2, CHR 0x80, CHR 0x94]"

definition middle_dot :: string where
  "middle_dot = [CHR 0xC2, CHR 0xB7]"

text \<open>The loop that moves the cut back to the start of a rune.\<close>

fun cut_back :: "string \<Rightarrow> nat \<Rightarrow> nat" where
  "cut_back v 0 = 0"
| "cut_back v (Suc n) = (if rune_start (v ! Suc n) then Suc n else cut_back v n)"

definition truncate_text :: "string \<Rightarrow> nat \<Rightarrow> string" where
  "truncate_text v limit =
     (if length v \<le> limit then v
      else if limit = 0 then []
      else if limit \<le> length ellipsis then trim_text (take (cut_back v limit) v)
      else trim_text (take (cut_back v (limit - length ellipsis)) v) @ ellipsis)"

section \<open>Patterns\<close>

definition m_blanks :: "string \<Rightarrow> string option" where
  "m_blanks s = Some (takeWhile (\<lambda>c. c \<in> {CHR '' '', CHR 0x09, CHR 0x0A, CHR 0x0C, CHR 0x0D}) s)"

definition is_upper :: "char \<Rightarrow> bool" where
  "is_upper c \<longleftrightarrow> CHR ''A'' \<le> c \<and> c \<le> CHR ''Z''"

definition m_upper :: "string \<Rightarrow> string option" where
  "m_upper s = (case s of c # _ \<Rightarrow> if is_upper c then Some [c] else None | [] \<Rightarrow> None)"

definition m_code :: "string \<Rightarrow> string option" where
  "m_code s = (let t = takeWhile (\<lambda>c. is_upper c \<or> is_digit c) s in if t = [] then None else Some t)"

definition advisory_id_search :: "string \<Rightarrow> string option" where
  "advisory_id_search = m_seq [m_alt [m_lit ''RHSA-'', m_lit ''RHBA-'', m_lit ''RHEA-''], m_digits 4, m_lit '':'', m_number]"

definition advisory_id :: "string \<Rightarrow> bool" where
  "advisory_id s \<longleftrightarrow> advisory_id_search s = Some s"

definition cve_pattern :: "string \<Rightarrow> string option" where
  "cve_pattern = m_seq [m_lit ''CVE-'', m_digits 4, m_lit ''-'', m_number]"

definition issue_pattern :: "string \<Rightarrow> string option" where
  "issue_pattern = m_alt [m_seq [m_lit ''OCPBUGS-'', m_number],
     m_seq [m_lit ''BZ'', m_blanks, m_lit ''-'', m_blanks, m_number],
     m_seq [m_upper, m_code, m_lit ''-'', m_number]]"

definition date_pattern :: "string \<Rightarrow> bool" where
  "date_pattern s \<longleftrightarrow> m_seq [m_digits 4, m_lit ''-'', m_digits 2, m_lit ''-'', m_digits 2] s = Some s"

section \<open>URLs\<close>

record url =
  u_scheme :: string
  u_host :: string
  u_hostname :: string
  u_path :: string

definition default_errata_url :: string where
  "default_errata_url = ''https://access.redhat.com/errata''"

definition safe_reference_url :: "(string \<Rightarrow> url option) \<Rightarrow> string \<Rightarrow> string" where
  "safe_reference_url parse raw =
     (if has_prefix raw ''/'' then ''https://access.redhat.com'' @ raw
      else (case parse raw of
              None \<Rightarrow> []
            | Some u \<Rightarrow> if (u_scheme u \<noteq> ''http'' \<and> u_scheme u \<noteq> ''https'') \<or> u_host u = [] then [] else raw))"

definition advisory_id_from_url :: "(string \<Rightarrow> url option) \<Rightarrow> string \<Rightarrow> string option" where
  "advisory_id_from_url parse raw =
     (case parse raw of
        None \<Rightarrow> None
      | Some u \<Rightarrow>
          if fold_ascii (u_scheme u) \<noteq> ''https'' \<or> fold_ascii (u_hostname u) \<noteq> ''access.redhat.com'' then None
          else (let i = trim_prefix (trim_right (CHR ''/'') (u_path u)) ''/errata/''
                in if CHR ''/'' \<in> set i \<or> \<not> advisory_id i then None else Some i))"

section \<open>The page\<close>

datatype html_node =
    TextNode string
  | ElementNode string "(string \<times> string) list" "html_node list"
  | OtherNode "html_node list"

fun text_content :: "html_node \<Rightarrow> string" and text_contents :: "html_node list \<Rightarrow> string" where
  "text_content (TextNode d) = d @ '' ''"
| "text_content (ElementNode tag attrs children) = text_contents children"
| "text_content (OtherNode children) = text_contents children"
| "text_contents [] = []"
| "text_contents (n # ns) = text_content n @ text_contents ns"

definition node_text :: "html_node \<Rightarrow> string" where
  "node_text n = normalize_space (text_content n)"

text \<open>\<open>attr\<close>: the first attribute of the name.\<close>

definition attr :: "(string \<times> string) list \<Rightarrow> string \<Rightarrow> string" where
  "attr attrs name = (case map_of attrs name of Some v \<Rightarrow> v | None \<Rightarrow> [])"

fun first_link :: "(string \<Rightarrow> url option) \<Rightarrow> html_node \<Rightarrow> string \<times> string"
  and first_link_of :: "(string \<Rightarrow> url option) \<Rightarrow> html_node list \<Rightarrow> string \<times> string" where
  "first_link parse (TextNode d) = ([], [])"
| "first_link parse (ElementNode tag attrs children) =
     (if tag = ''a'' then (node_text (ElementNode tag attrs children), safe_reference_url parse (attr attrs ''href''))
      else first_link_of parse children)"
| "first_link parse (OtherNode children) = first_link_of parse children"
| "first_link_of parse [] = ([], [])"
| "first_link_of parse (n # ns) = (if snd (first_link parse n) \<noteq> [] then first_link parse n else first_link_of parse ns)"

record reference =
  rf_id :: string
  rf_title :: string
  rf_url :: string

record walk_state =
  wk_id :: string
  wk_sections :: "(string, html_node list) gomap"
  wk_section :: string
  wk_tokens :: "string list"
  wk_links :: "reference list"

definition section_nodes :: "(string, html_node list) gomap \<Rightarrow> string \<Rightarrow> html_node list" where
  "section_nodes m name = (case map_of m name of Some ns \<Rightarrow> ns | None \<Rightarrow> [])"

definition visit_element ::
  "(string \<Rightarrow> url option) \<Rightarrow> string \<Rightarrow> (string \<times> string) list \<Rightarrow> html_node \<Rightarrow> walk_state \<Rightarrow> walk_state" where
  "visit_element parse tag attrs n w =
     (if tag = ''h1'' then
        (let found = find_match advisory_id_search (node_text n) in if found \<noteq> [] then w\<lparr>wk_id := found\<rparr> else w)
      else if tag = ''h2'' then w\<lparr>wk_section := node_text n\<rparr>
      else if tag = ''p'' \<or> tag = ''li'' then
        (if wk_section w \<noteq> []
         then w\<lparr>wk_sections := AList.update (wk_section w) (section_nodes (wk_sections w) (wk_section w) @ [n]) (wk_sections w)\<rparr>
         else w)
      else if tag = ''a'' then
        (let href = safe_reference_url parse (attr attrs ''href'') in
         if href \<noteq> [] then w\<lparr>wk_links := wk_links w @ [\<lparr>rf_id = [], rf_title = node_text n, rf_url = href\<rparr>]\<rparr> else w)
      else w)"

fun walk_node :: "(string \<Rightarrow> url option) \<Rightarrow> html_node \<Rightarrow> walk_state \<Rightarrow> walk_state"
  and walk_nodes :: "(string \<Rightarrow> url option) \<Rightarrow> html_node list \<Rightarrow> walk_state \<Rightarrow> walk_state" where
  "walk_node parse (TextNode d) w =
     (let t = normalize_space d in if t \<noteq> [] then w\<lparr>wk_tokens := wk_tokens w @ [t]\<rparr> else w)"
| "walk_node parse (ElementNode tag attrs children) w =
     walk_nodes parse children (visit_element parse tag attrs (ElementNode tag attrs children) w)"
| "walk_node parse (OtherNode children) w = walk_nodes parse children w"
| "walk_nodes parse [] w = w"
| "walk_nodes parse (n # ns) w = walk_nodes parse ns (walk_node parse n w)"

fun first_text :: "html_node list \<Rightarrow> string" where
  "first_text [] = []"
| "first_text (n # ns) = (if node_text n \<noteq> [] then node_text n else first_text ns)"

definition first_section_text :: "(string, html_node list) gomap \<Rightarrow> string \<Rightarrow> string" where
  "first_section_text m name = first_text (section_nodes m name)"

fun first_date :: "string list \<Rightarrow> string option" where
  "first_date [] = None"
| "first_date (t # ts) = (if date_pattern t then Some t else if has_suffix t '':'' then None else first_date ts)"

fun value_after_token :: "string list \<Rightarrow> string \<Rightarrow> string" where
  "value_after_token [] label = []"
| "value_after_token (t # ts) label =
     (if t \<noteq> label then value_after_token ts label
      else (case first_date ts of Some d \<Rightarrow> d | None \<Rightarrow> value_after_token ts label))"

definition split_type_severity :: "string \<Rightarrow> string \<times> string" where
  "split_type_severity v =
     (case cut_byte (CHR '':'') v of
        (a, None) \<Rightarrow> (trim_text v, [])
      | (a, Some b) \<Rightarrow> (trim_text a, trim_text b))"

text \<open>The references of a section: the first node of each identifier, in page order.\<close>

definition reference_title :: "string \<Rightarrow> string \<Rightarrow> string" where
  "reference_title linked content =
     (let title = truncate_text (trim_text content) 300
      in if linked = [] then title
         else trim_text (trim_prefix (trim_text (trim_prefix title linked)) ''-''))"

fun references_from_section ::
  "(string \<Rightarrow> url option) \<Rightarrow> (string \<Rightarrow> string option) \<Rightarrow> string list \<Rightarrow> html_node list \<Rightarrow> reference list" where
  "references_from_section parse pattern seen [] = []"
| "references_from_section parse pattern seen (n # ns) =
     (let found = find_match pattern (node_text n);
          i = filter (\<lambda>c. c \<noteq> CHR '' '') found
      in if found = [] \<or> i \<in> set seen then references_from_section parse pattern seen ns
         else (case first_link parse n of (linked, href) \<Rightarrow>
           \<lparr>rf_id = i, rf_title = reference_title linked (node_text n), rf_url = href\<rparr>
             # references_from_section parse pattern (i # seen) ns))"

definition link_advisory :: "(string \<Rightarrow> url option) \<Rightarrow> reference \<Rightarrow> string" where
  "link_advisory parse l =
     (let found = find_match advisory_id_search (rf_title l)
      in if found \<noteq> [] then found
         else (case parse (rf_url l) of
                 None \<Rightarrow> []
               | Some u \<Rightarrow> find_match advisory_id_search (trim_right (CHR ''/'') (u_path u))))"

fun collect_related :: "(string \<Rightarrow> url option) \<Rightarrow> string list \<Rightarrow> reference list \<Rightarrow> reference list" where
  "collect_related parse seen [] = []"
| "collect_related parse seen (l # ls) =
     (let i = link_advisory parse l
      in if i = [] \<or> i \<in> set seen then collect_related parse seen ls
         else \<lparr>rf_id = i, rf_title = [], rf_url = rf_url l\<rparr> # collect_related parse (i # seen) ls)"

definition related_advisories :: "(string \<Rightarrow> url option) \<Rightarrow> reference list \<Rightarrow> string \<Rightarrow> reference list" where
  "related_advisories parse links self =
     sort_slice (\<lambda>x y. rf_id x < rf_id y) (collect_related parse [self] links)"

definition is_release_doc :: "(string \<Rightarrow> url option) \<Rightarrow> reference \<Rightarrow> bool" where
  "is_release_doc parse l =
     (case parse (rf_url l) of
        None \<Rightarrow> False
      | Some u \<Rightarrow> fold_ascii (u_hostname u) = ''docs.redhat.com'' \<and> contains_str (u_path u) ''/release_notes'')"

fun collect_docs :: "(string \<Rightarrow> url option) \<Rightarrow> string list \<Rightarrow> reference list \<Rightarrow> reference list" where
  "collect_docs parse seen [] = []"
| "collect_docs parse seen (l # ls) =
     (if \<not> is_release_doc parse l \<or> rf_url l \<in> set seen then collect_docs parse seen ls
      else \<lparr>rf_id = [], rf_title = ''OpenShift release notes'', rf_url = rf_url l\<rparr>
             # collect_docs parse (rf_url l # seen) ls)"

definition release_documentation :: "(string \<Rightarrow> url option) \<Rightarrow> reference list \<Rightarrow> reference list" where
  "release_documentation parse links = sort_slice (\<lambda>x y. rf_url x < rf_url y) (collect_docs parse [] links)"

record advisory =
  ad_id :: string
  ad_url :: string
  ad_issued :: string
  ad_updated :: string
  ad_synopsis :: string
  ad_type :: string
  ad_severity :: string
  ad_issues :: "reference list"
  ad_cves :: "reference list"
  ad_related :: "reference list"
  ad_release_docs :: "reference list"

datatype page_error = HtmlError string | NoAdvisoryId | SectionsMissing

definition empty_walk :: walk_state where
  "empty_walk = \<lparr>wk_id = [], wk_sections = [], wk_section = [], wk_tokens = [], wk_links = []\<rparr>"

definition parse_advisory_html ::
  "(string \<Rightarrow> url option) \<Rightarrow> string + html_node \<Rightarrow> string \<Rightarrow> page_error + advisory" where
  "parse_advisory_html parse doc canonical =
     (case doc of
        Inl e \<Rightarrow> Inl (HtmlError e)
      | Inr root \<Rightarrow>
          (let w = walk_node parse root empty_walk;
               synopsis = truncate_text (first_section_text (wk_sections w) ''Synopsis'') 500;
               kind = first_section_text (wk_sections w) ''Type/Severity''
           in if wk_id w = [] then Inl NoAdvisoryId
              else if kind = [] \<or> synopsis = [] then Inl SectionsMissing
              else Inr \<lparr>ad_id = wk_id w, ad_url = canonical,
                ad_issued = value_after_token (wk_tokens w) ''Issued:'',
                ad_updated = value_after_token (wk_tokens w) ''Updated:'', ad_synopsis = synopsis,
                ad_type = fst (split_type_severity kind), ad_severity = snd (split_type_severity kind),
                ad_issues = references_from_section parse issue_pattern [] (section_nodes (wk_sections w) ''Fixes''),
                ad_cves = references_from_section parse cve_pattern [] (section_nodes (wk_sections w) ''CVEs''),
                ad_related = related_advisories parse (wk_links w) (wk_id w),
                ad_release_docs = release_documentation parse (wk_links w)\<rparr>))"

end
