(* ===== verification/Openshift_Patterns.thy ===== *)
theory Openshift_Patterns
  imports Openshift_Advisory
begin

text \<open>
  The texts that the patterns of \<^verbatim>\<open>internal/openshift/changelog.go\<close> stand for, stated as sets of strings.
  The lemmas show that the search finds the leftmost such text, and that it is the only one.
\<close>

section \<open>The texts of the patterns\<close>

definition digits_text :: "string \<Rightarrow> bool" where
  "digits_text t \<longleftrightarrow> t \<noteq> [] \<and> list_all is_digit t"

definition year_text :: "string \<Rightarrow> bool" where
  "year_text t \<longleftrightarrow> length t = 4 \<and> list_all is_digit t"

definition is_blank :: "char \<Rightarrow> bool" where
  "is_blank c \<longleftrightarrow> c \<in> {CHR '' '', CHR 0x09, CHR 0x0A, CHR 0x0C, CHR 0x0D}"

text \<open>The texts made of one of \<open>A\<close> and one of \<open>B\<close>.\<close>

definition followed :: "(string \<Rightarrow> bool) \<Rightarrow> (string \<Rightarrow> bool) \<Rightarrow> string \<Rightarrow> bool" where
  "followed A B t \<longleftrightarrow> (\<exists>x y. t = x @ y \<and> A x \<and> B y)"

abbreviation literal :: "string list \<Rightarrow> string \<Rightarrow> bool" where
  "literal ts \<equiv> \<lambda>t. t \<in> set ts"

abbreviation blanks :: "string \<Rightarrow> bool" where
  "blanks \<equiv> list_all is_blank"

abbreviation one_upper :: "string \<Rightarrow> bool" where
  "one_upper \<equiv> \<lambda>t. length t = 1 \<and> list_all is_upper t"

abbreviation some_code :: "string \<Rightarrow> bool" where
  "some_code \<equiv> \<lambda>t. t \<noteq> [] \<and> list_all (\<lambda>c. is_upper c \<or> is_digit c) t"

definition advisory_text :: "string \<Rightarrow> bool" where
  "advisory_text = followed (literal [''RHSA-'', ''RHBA-'', ''RHEA-'']) (followed year_text (followed (literal ['':'']) digits_text))"

definition cve_text :: "string \<Rightarrow> bool" where
  "cve_text = followed (literal [''CVE-'']) (followed year_text (followed (literal [''-'']) digits_text))"

definition issue_text :: "string \<Rightarrow> bool" where
  "issue_text t \<longleftrightarrow>
     followed (literal [''OCPBUGS-'']) digits_text t
     \<or> followed (literal [''BZ'']) (followed (blanks) (followed (literal [''-''])
         (followed (blanks) digits_text))) t
     \<or> followed one_upper (followed some_code (followed (literal [''-'']) digits_text)) t"

definition occurs :: "(string \<Rightarrow> bool) \<Rightarrow> string \<Rightarrow> bool" where
  "occurs L s \<longleftrightarrow> (\<exists>a t b. s = a @ t @ b \<and> L t)"

text \<open>The leftmost occurrence, with all the digits at its end.\<close>

definition no_digit_next :: "string \<Rightarrow> bool" where
  "no_digit_next s \<longleftrightarrow> s = [] \<or> \<not> is_digit (hd s)"

definition leftmost :: "(string \<Rightarrow> bool) \<Rightarrow> string \<Rightarrow> string \<Rightarrow> bool" where
  "leftmost L s t \<longleftrightarrow> (\<exists>a b. s = a @ t @ b \<and> L t \<and> no_digit_next b
     \<and> (\<forall>a' t' b'. s = a' @ t' @ b' \<longrightarrow> L t' \<longrightarrow> length a \<le> length a'))"

lemma leftmost_occurs: "leftmost L s t \<Longrightarrow> occurs L s \<and> L t"
  unfolding leftmost_def occurs_def by blast

section \<open>Matchers\<close>

text \<open>
  A matcher finds a text of \<open>L\<close> at the head of its argument exactly when there is one, and what follows
  it satisfies \<open>F\<close>.
\<close>

definition finds :: "(string \<Rightarrow> bool) \<Rightarrow> (string \<Rightarrow> string option) \<Rightarrow> (string \<Rightarrow> bool) \<Rightarrow> bool" where
  "finds F m L \<longleftrightarrow> (\<forall>s. case m s of
     None \<Rightarrow> \<forall>t b. s = t @ b \<longrightarrow> \<not> L t
   | Some t \<Rightarrow> L t \<and> (\<exists>b. s = t @ b \<and> F b))"

definition rigid :: "(string \<Rightarrow> bool) \<Rightarrow> bool" where
  "rigid L \<longleftrightarrow> (\<forall>x y b c. L x \<longrightarrow> L y \<longrightarrow> x @ b = y @ c \<longrightarrow> x = y)"

abbreviation anything :: "string \<Rightarrow> bool" where
  "anything \<equiv> \<lambda>s. True"

lemma findsI:
  assumes "\<And>s t. m s = Some t \<Longrightarrow> L t \<and> (\<exists>b. s = t @ b \<and> F b)"
    and "\<And>t b. L t \<Longrightarrow> m (t @ b) \<noteq> None"
  shows "finds F m L"
  unfolding finds_def
proof
  fix s
  show "case m s of None \<Rightarrow> \<forall>t b. s = t @ b \<longrightarrow> \<not> L t | Some t \<Rightarrow> L t \<and> (\<exists>b. s = t @ b \<and> F b)"
  proof (cases "m s")
    case None
    then have "\<not> L t" if "s = t @ b" for t b using assms(2) [of t b] that None by auto
    then show ?thesis using None by simp
  next
    case (Some t)
    then show ?thesis using assms(1) [OF Some] by simp
  qed
qed

lemma finds_Some: "finds F m L \<Longrightarrow> m s = Some t \<Longrightarrow> L t \<and> (\<exists>b. s = t @ b \<and> F b)"
  unfolding finds_def by (drule spec [of _ s]) simp

lemma finds_None: "finds F m L \<Longrightarrow> m s = None \<Longrightarrow> s = t @ b \<Longrightarrow> \<not> L t"
  unfolding finds_def by (drule spec [of _ s]) simp

lemma finds_lit: "finds anything (m_lit p) (literal [p])"
  by (rule findsI) (auto simp: m_lit_def has_prefix_iff split: if_splits)

lemma finds_digits: "finds anything (m_digits n) (\<lambda>t. length t = n \<and> list_all is_digit t)"
proof (rule findsI)
  fix s t assume "m_digits n s = Some t"
  then show "(length t = n \<and> list_all is_digit t) \<and> (\<exists>b. s = t @ b \<and> anything b)"
    by (auto simp: m_digits_def split: if_splits intro: exI [of _ "drop n s"])
qed (auto simp: m_digits_def)

lemma finds_year: "finds anything (m_digits 4) year_text"
  using finds_digits [of 4] unfolding year_text_def [abs_def] .

lemma finds_upper: "finds anything m_upper one_upper"
  by (rule findsI) (auto simp: m_upper_def length_Suc_conv split: list.splits if_splits)

lemma finds_number: "finds no_digit_next m_number digits_text"
proof (rule findsI)
  fix s t assume "m_number s = Some t"
  then have t: "t = takeWhile is_digit s" "t \<noteq> []" by (auto simp: m_number_def Let_def split: if_splits)
  have "no_digit_next (dropWhile is_digit s)" using hd_dropWhile [of is_digit s] by (auto simp: no_digit_next_def)
  moreover have "list_all is_digit t" unfolding t(1) by (auto simp: list_all_iff dest: set_takeWhileD)
  ultimately show "digits_text t \<and> (\<exists>b. s = t @ b \<and> no_digit_next b)"
    using t by (auto simp: digits_text_def intro!: exI [of _ "dropWhile is_digit s"])
next
  fix t b assume "digits_text t"
  then show "m_number (t @ b) \<noteq> None" by (cases t) (auto simp: digits_text_def m_number_def Let_def)
qed

lemma finds_last: "finds F m L \<Longrightarrow> finds F (m_seq [m]) L"
proof (rule findsI)
  fix t b assume "finds F m L" "L t"
  then show "m_seq [m] (t @ b) \<noteq> None" using finds_None [of F m L "t @ b" t b] by (auto split: option.split)
qed (auto dest: finds_Some split: option.splits)

lemma finds_rigid:
  assumes m: "finds anything m A" and r: "rigid A" and ms: "finds F (m_seq ms) B"
  shows "finds F (m_seq (m # ms)) (followed A B)"
proof (rule findsI)
  fix s t assume "m_seq (m # ms) s = Some t"
  then obtain x y where x: "m s = Some x" "m_seq ms (drop (length x) s) = Some y" "t = x @ y"
    by (auto split: option.splits)
  then show "followed A B t \<and> (\<exists>b. s = t @ b \<and> F b)"
    using finds_Some [OF m x(1)] finds_Some [OF ms x(2)] by (auto simp: followed_def)
next
  fix t b assume "followed A B t"
  then obtain x y where t: "t = x @ y" "A x" "B y" by (auto simp: followed_def)
  then have s: "t @ b = x @ y @ b" by simp
  then obtain x' where x': "m (t @ b) = Some x'" using finds_None [OF m _ s] t(2) by (cases "m (t @ b)") auto
  then have "x' = x" using finds_Some [OF m x'] t(2) r s unfolding rigid_def by metis
  then show "m_seq (m # ms) (t @ b) \<noteq> None" using x' s t(3) finds_None [OF ms _ refl, of y b] by auto
qed

text \<open>A greedy run of characters, before something that does not start with one of them.\<close>

lemma finds_run:
  assumes m: "\<And>s. m s = (let t = takeWhile P s in if Q t then Some t else None)" and ms: "finds F (m_seq ms) B"
    and apart: "\<And>y. B y \<Longrightarrow> y \<noteq> [] \<and> \<not> P (hd y)"
  shows "finds F (m_seq (m # ms)) (followed (\<lambda>t. Q t \<and> list_all P t) B)"
proof (rule findsI)
  fix s t assume "m_seq (m # ms) s = Some t"
  then obtain y where q: "Q (takeWhile P s)" and y: "m_seq ms (drop (length (takeWhile P s)) s) = Some y" "t = takeWhile P s @ y"
    using m by (auto simp: Let_def split: if_splits)
  have d: "drop (length (takeWhile P s)) s = dropWhile P s" by (rule dropWhile_eq_drop [symmetric])
  have l: "list_all P (takeWhile P s)" by (auto simp: list_all_iff dest: set_takeWhileD)
  obtain b where b: "dropWhile P s = y @ b" "B y" "F b" using finds_Some [OF ms y(1)] unfolding d by blast
  then have "s = t @ b" using y(2) takeWhile_dropWhile_id [of P s] by simp
  then show "followed (\<lambda>t. Q t \<and> list_all P t) B t \<and> (\<exists>b. s = t @ b \<and> F b)"
    using y(2) q l b unfolding followed_def by blast
next
  fix t b assume "followed (\<lambda>t. Q t \<and> list_all P t) B t"
  then obtain x y where t: "t = x @ y" "Q x" "list_all P x" "B y" by (auto simp: followed_def)
  have "takeWhile P (y @ b) = []" using apart [OF t(4)] by (cases y) auto
  then have "takeWhile P (t @ b) = x" using t by (auto simp: list_all_iff takeWhile_append)
  then show "m_seq (m # ms) (t @ b) \<noteq> None" using m t finds_None [OF ms _ refl, of y b] by (auto simp: Let_def)
qed

lemmas finds_run_any = finds_run [where Q = "\<lambda>t. True", simplified]

lemma finds_or: "finds F m A \<Longrightarrow> finds F (m_alt ms) B \<Longrightarrow> finds F (m_alt (m # ms)) (\<lambda>t. A t \<or> B t)"
proof (rule findsI)
  fix t b assume f: "finds F m A" "finds F (m_alt ms) B" and "A t \<or> B t"
  then show "m_alt (m # ms) (t @ b) \<noteq> None"
    using finds_None [OF f(1) _ refl, of t b] finds_None [OF f(2) _ refl, of t b] by (auto split: option.split)
qed (auto dest: finds_Some split: option.splits)

lemma finds_nothing: "finds F (m_alt []) (\<lambda>t. False)"
  by (rule findsI) simp_all

lemma finds_cong: "finds F m A \<Longrightarrow> (\<And>t. A t \<longleftrightarrow> B t) \<Longrightarrow> finds F m B"
proof -
  assume "finds F m A" and "\<And>t. A t \<longleftrightarrow> B t"
  moreover from this have "A = B" by (intro ext) simp
  ultimately show ?thesis by simp
qed

lemma rigid_length: "(\<And>x y. L x \<Longrightarrow> L y \<Longrightarrow> length x = length y) \<Longrightarrow> rigid L"
  unfolding rigid_def by (metis append_eq_append_conv)

section \<open>The search\<close>

lemma find_match_found:
  assumes m: "finds no_digit_next m L" and e: "\<not> L []"
  shows "if find_match m s = [] then \<not> occurs L s else leftmost L s (find_match m s)"
proof (induction s)
  case Nil
  have "m [] = None" using finds_Some [OF m, of "[]"] e by (cases "m []") auto
  then show ?case using e by (auto simp: occurs_def)
next
  case (Cons c s)
  show ?case
  proof (cases "m (c # s)")
    case (Some t)
    then obtain b where "L t" "c # s = t @ b" "no_digit_next b" using finds_Some [OF m] by blast
    then have "leftmost L (c # s) t" unfolding leftmost_def by (intro exI [of _ "[]"] exI [of _ b]) auto
    moreover have "t \<noteq> []" using \<open>L t\<close> e by auto
    ultimately show ?thesis using Some by simp
  next
    case None
    have head: "c # s = a @ t @ b \<Longrightarrow> L t \<Longrightarrow> \<exists>a'. a = c # a' \<and> s = a' @ t @ b" for a t b
      using finds_None [OF m None] by (cases a) auto
    show ?thesis
    proof (cases "find_match m s = []")
      case True
      have "occurs L s" if "occurs L (c # s)"
      proof -
        obtain a t b where "c # s = a @ t @ b" "L t" using \<open>occurs L (c # s)\<close> unfolding occurs_def by blast
        then show ?thesis using head [of a t b] unfolding occurs_def by blast
      qed
      then have "\<not> occurs L (c # s)" using Cons True by auto
      then show ?thesis using True None by simp
    next
      case False
      then obtain a b where ab: "s = a @ find_match m s @ b" "L (find_match m s)" "no_digit_next b"
        and least: "\<forall>a' t' b'. s = a' @ t' @ b' \<longrightarrow> L t' \<longrightarrow> length a \<le> length a'"
        using Cons unfolding leftmost_def by auto
      have "length (c # a) \<le> length a'" if "c # s = a' @ t' @ b'" "L t'" for a' t' b'
        using head [OF that] least that(2) by fastforce
      then have "leftmost L (c # s) (find_match m s)"
        unfolding leftmost_def using ab by (intro exI [of _ "c # a"] exI [of _ b]) auto
      then show ?thesis using False None by simp
    qed
  qed
qed

section \<open>The patterns\<close>

lemma finds_advisory: "finds no_digit_next advisory_id_search advisory_text"
proof -
  have kinds: "finds anything (m_alt [m_lit ''RHSA-'', m_lit ''RHBA-'', m_lit ''RHEA-'']) (literal [''RHSA-'', ''RHBA-'', ''RHEA-''])"
    by (rule finds_cong [OF finds_or [OF finds_lit finds_or [OF finds_lit finds_or [OF finds_lit finds_nothing]]]]) auto
  show ?thesis
    unfolding advisory_id_search_def advisory_text_def
    by (intro finds_rigid finds_last kinds finds_lit finds_year finds_number rigid_length) (auto simp: year_text_def)
qed

lemma finds_cve: "finds no_digit_next cve_pattern cve_text"
  unfolding cve_pattern_def cve_text_def
  by (intro finds_rigid finds_last finds_lit finds_year finds_number rigid_length) (auto simp: year_text_def)

lemma digits_apart: "digits_text t \<Longrightarrow> t \<noteq> [] \<and> \<not> is_blank (hd t)"
  by (cases t) (auto simp: digits_text_def is_blank_def is_digit_def)

lemma minus_apart: "followed (literal [''-'']) B t \<Longrightarrow> t \<noteq> [] \<and> hd t = CHR ''-''"
  by (auto simp: followed_def)

lemma finds_issue: "finds no_digit_next issue_pattern issue_text"
proof -
  have number: "finds no_digit_next (m_seq [m_lit ''-'', m_number]) (followed (literal [''-'']) digits_text)"
    by (intro finds_rigid finds_last finds_lit finds_number rigid_length) auto
  have bugs: "finds no_digit_next (m_seq [m_lit ''OCPBUGS-'', m_number]) (followed (literal [''OCPBUGS-'']) digits_text)"
    by (intro finds_rigid finds_last finds_lit finds_number rigid_length) auto
  have blank: "m_blanks s = Some (takeWhile is_blank s)" for s
    by (simp add: m_blanks_def is_blank_def [abs_def])
  have code: "m_code s = (let t = takeWhile (\<lambda>c. is_upper c \<or> is_digit c) s in if t \<noteq> [] then Some t else None)" for s
    by (simp add: m_code_def Let_def)
  have tail: "finds no_digit_next (m_seq [m_blanks, m_number]) (followed (blanks) digits_text)"
    by (rule finds_run_any [OF blank finds_last [OF finds_number] digits_apart])
  have dash: "finds no_digit_next (m_seq [m_lit ''-'', m_blanks, m_number])
      (followed (literal [''-'']) (followed (blanks) digits_text))"
    by (intro finds_rigid finds_lit tail rigid_length) auto
  have rest: "finds no_digit_next (m_seq [m_blanks, m_lit ''-'', m_blanks, m_number])
      (followed (blanks) (followed (literal [''-'']) (followed (blanks) digits_text)))"
    by (rule finds_run_any [OF blank dash]) (use minus_apart in \<open>auto simp: is_blank_def\<close>)
  have bz: "finds no_digit_next (m_seq [m_lit ''BZ'', m_blanks, m_lit ''-'', m_blanks, m_number])
      (followed (literal [''BZ'']) (followed (blanks) (followed (literal [''-'']) (followed (blanks) digits_text))))"
    by (rule finds_rigid [OF finds_lit rigid_length rest]) auto
  have rest: "finds no_digit_next (m_seq [m_code, m_lit ''-'', m_number]) (followed some_code (followed (literal [''-'']) digits_text))"
    by (rule finds_run [OF code number]) (use minus_apart in \<open>auto simp: is_upper_def is_digit_def\<close>)
  have key: "finds no_digit_next (m_seq [m_upper, m_code, m_lit ''-'', m_number])
      (followed one_upper (followed some_code (followed (literal [''-'']) digits_text)))"
    by (rule finds_rigid [OF finds_upper rigid_length rest]) auto
  show ?thesis
    unfolding issue_pattern_def
    by (rule finds_cong [OF finds_or [OF bugs finds_or [OF bz finds_or [OF key finds_nothing]]]]) (simp add: issue_text_def)
qed

lemma advisory_not_empty: "\<not> advisory_text []" "\<not> cve_text []" "\<not> issue_text []"
  by (auto simp: advisory_text_def cve_text_def issue_text_def followed_def)

lemmas find_advisory = find_match_found [OF finds_advisory advisory_not_empty(1)]
lemmas find_cve = find_match_found [OF finds_cve advisory_not_empty(2)]
lemmas find_issue = find_match_found [OF finds_issue advisory_not_empty(3)]

section \<open>One leftmost text\<close>

lemma digits_run: "digits_text n \<Longrightarrow> no_digit_next b \<Longrightarrow> takeWhile is_digit (n @ b) = n"
  by (cases b) (auto simp: digits_text_def no_digit_next_def list_all_iff takeWhile_append)

definition one_text :: "(string \<Rightarrow> bool) \<Rightarrow> bool" where
  "one_text L \<longleftrightarrow> (\<forall>t b t' b'. L t \<longrightarrow> L t' \<longrightarrow> no_digit_next b \<longrightarrow> no_digit_next b' \<longrightarrow> t @ b = t' @ b' \<longrightarrow> t = t')"

lemma leftmost_unique:
  assumes "one_text L" and "leftmost L s t" and "leftmost L s t'"
  shows "t = t'"
proof -
  obtain a b where a: "s = a @ t @ b" "L t" "no_digit_next b"
    and la: "\<forall>a' t' b'. s = a' @ t' @ b' \<longrightarrow> L t' \<longrightarrow> length a \<le> length a'"
    using assms(2) unfolding leftmost_def by blast
  obtain a' b' where a': "s = a' @ t' @ b'" "L t'" "no_digit_next b'"
    and la': "\<forall>a'' t'' b''. s = a'' @ t'' @ b'' \<longrightarrow> L t'' \<longrightarrow> length a' \<le> length a''"
    using assms(3) unfolding leftmost_def by blast
  have "length a \<le> length a'" by (rule la [rule_format, OF a'(1,2)])
  moreover have "length a' \<le> length a" by (rule la' [rule_format, OF a(1,2)])
  ultimately have "length a = length a'" by simp
  then have "t @ b = t' @ b'" using a(1) a'(1) by simp
  then show ?thesis using assms(1) a a' unfolding one_text_def by blast
qed

lemma followedE:
  assumes "followed A B t"
  obtains x y where "t = x @ y" "A x" "B y"
  using assms unfolding followed_def by blast

text \<open>A text of \<open>k\<close> characters and then digits.\<close>

definition then_digits :: "nat \<Rightarrow> (string \<Rightarrow> bool) \<Rightarrow> bool" where
  "then_digits k L \<longleftrightarrow> (\<forall>t. L t \<longrightarrow> (\<exists>x n. t = x @ n \<and> length x = k \<and> digits_text n))"

lemma then_digits_number: "then_digits 0 digits_text"
  by (simp add: then_digits_def)

lemma then_digits_followed:
  assumes "\<And>x. A x \<Longrightarrow> length x = j" and "then_digits k B"
  shows "then_digits (j + k) (followed A B)"
  unfolding then_digits_def
proof (intro allI impI)
  fix t assume "followed A B t"
  then obtain x y where x: "t = x @ y" "A x" "B y" by (rule followedE)
  then obtain z n where "y = z @ n" "length z = k" "digits_text n" using assms(2) unfolding then_digits_def by blast
  then show "\<exists>x n. t = x @ n \<and> length x = j + k \<and> digits_text n"
    using x assms(1) by (intro exI [of _ "x @ z"] exI [of _ n]) simp
qed

lemma one_text_then_digits:
  assumes "then_digits k L"
  shows "one_text L"
  unfolding one_text_def
proof (intro allI impI)
  fix t b t' b' assume h: "L t" "L t'" "no_digit_next b" "no_digit_next b'" "t @ b = t' @ b'"
  obtain x n where x: "t = x @ n" "length x = k" "digits_text n" using assms h(1) unfolding then_digits_def by blast
  obtain x' n' where x': "t' = x' @ n'" "length x' = k" "digits_text n'" using assms h(2) unfolding then_digits_def by blast
  have "x = x'" "n @ b = n' @ b'" using h(5) x(1,2) x'(1,2) by auto
  then show "t = t'" using digits_run [OF x(3) h(3)] digits_run [OF x'(3) h(4)] x(1) x'(1) by simp
qed

lemma one_advisory: "one_text advisory_text"
proof -
  have "then_digits (5 + (4 + (1 + 0))) advisory_text"
    unfolding advisory_text_def by (intro then_digits_followed then_digits_number) (auto simp: year_text_def)
  then show ?thesis by (rule one_text_then_digits)
qed

lemma one_cve: "one_text cve_text"
proof -
  have "then_digits (4 + (4 + (1 + 0))) cve_text"
    unfolding cve_text_def by (intro then_digits_followed then_digits_number) (auto simp: year_text_def)
  then show ?thesis by (rule one_text_then_digits)
qed

lemma issue_shape:
  assumes "issue_text t"
  shows "\<exists>y c n. t = y @ CHR ''-'' # c @ n \<and> CHR ''-'' \<notin> set y \<and> blanks c \<and> digits_text n"
proof -
  have minus: "\<not> is_upper (CHR ''-'')" "\<not> is_digit (CHR ''-'')" "\<not> is_blank (CHR ''-'')"
    by (simp_all add: is_upper_def is_digit_def is_blank_def)
  have code: "list_all (\<lambda>c. is_upper c \<or> is_digit c) v \<Longrightarrow> CHR ''-'' \<notin> set v" for v
    using minus unfolding list_all_iff by blast
  have blank: "blanks v \<Longrightarrow> CHR ''-'' \<notin> set v" for v
    using minus unfolding list_all_iff by blast
  consider (bugs) "followed (literal [''OCPBUGS-'']) digits_text t"
    | (bz) "followed (literal [''BZ'']) (followed blanks (followed (literal [''-'']) (followed blanks digits_text))) t"
    | (key) "followed one_upper (followed some_code (followed (literal [''-'']) digits_text)) t"
    using assms unfolding issue_text_def by blast
  then show ?thesis
  proof cases
    case bugs
    then obtain x n where "t = x @ n" "x = ''OCPBUGS-''" "digits_text n" by (elim followedE) simp
    then show ?thesis by (intro exI [of _ "''OCPBUGS''"] exI [of _ "[]"] exI [of _ n]) simp
  next
    case bz
    then obtain x b d c n where "t = x @ b @ d @ c @ n" "x = ''BZ''" "blanks b" "d = ''-''" "blanks c" "digits_text n"
      by (elim followedE) simp
    then show ?thesis using blank [of b] by (intro exI [of _ "''BZ'' @ b"] exI [of _ c] exI [of _ n]) simp
  next
    case key
    then obtain u v d n where k: "t = u @ v @ d @ n" "one_upper u" "some_code v" "d = ''-''" "digits_text n"
      by (elim followedE) simp
    have "CHR ''-'' \<notin> set u" using k(2) minus unfolding list_all_iff by blast
    then show ?thesis using k code [of v] by (intro exI [of _ "u @ v"] exI [of _ "[]"] exI [of _ n]) simp
  qed
qed

lemma one_issue: "one_text issue_text"
  unfolding one_text_def
proof (intro allI impI)
  fix t b t' b' assume h: "issue_text t" "issue_text t'" "no_digit_next b" "no_digit_next b'" "t @ b = t' @ b'"
  have run: "y = takeWhile (\<lambda>c. c \<noteq> CHR ''-'') s \<and> c = takeWhile is_blank (drop (length y + 1) s)
      \<and> n = takeWhile is_digit (drop (length y + 1 + length c) s)"
    if "s = y @ CHR ''-'' # c @ n @ e" "CHR ''-'' \<notin> set y" "blanks c" "digits_text n" "no_digit_next e" for s y c n e
  proof -
    have "takeWhile is_blank (n @ e) = []" using digits_apart [OF that(4)] by (cases n) auto
    then have "takeWhile is_blank (c @ n @ e) = c" using that(3) by (simp add: list_all_iff takeWhile_append)
    moreover have "takeWhile (\<lambda>c. c \<noteq> CHR ''-'') s = y" using that(1,2) by (auto simp: takeWhile_append)
    ultimately show ?thesis using that(1) digits_run [OF that(4,5)] by simp
  qed
  obtain y c n where t: "t = y @ CHR ''-'' # c @ n" "CHR ''-'' \<notin> set y" "blanks c" "digits_text n"
    using issue_shape [OF h(1)] by blast
  obtain y' c' n' where t': "t' = y' @ CHR ''-'' # c' @ n'" "CHR ''-'' \<notin> set y'" "blanks c'" "digits_text n'"
    using issue_shape [OF h(2)] by blast
  have "t @ b = y @ CHR ''-'' # c @ n @ b" "t @ b = y' @ CHR ''-'' # c' @ n' @ b'" using t(1) t'(1) h(5) by simp_all
  then show "t = t'" using run [OF _ t(2-4) h(3)] run [OF _ t'(2-4) h(4)] t(1) t'(1) by metis
qed

section \<open>Dates\<close>

abbreviation digits_of :: "nat \<Rightarrow> string \<Rightarrow> bool" where
  "digits_of k \<equiv> \<lambda>t. length t = k \<and> list_all is_digit t"

definition date_text :: "string \<Rightarrow> bool" where
  "date_text = followed (digits_of 4) (followed (literal [''-'']) (followed (digits_of 2) (followed (literal [''-'']) (digits_of 2))))"

lemma rigid_followed: "rigid A \<Longrightarrow> rigid B \<Longrightarrow> rigid (followed A B)"
  unfolding rigid_def followed_def by (metis append_assoc same_append_eq)

lemma date_pattern_text: "date_pattern s \<longleftrightarrow> date_text s"
proof -
  let ?m = "m_seq [m_digits 4, m_lit ''-'', m_digits 2, m_lit ''-'', m_digits 2]"
  have f: "finds anything ?m date_text"
    unfolding date_text_def by (intro finds_rigid finds_last finds_lit finds_digits rigid_length) auto
  have r: "rigid date_text"
    unfolding date_text_def by (intro rigid_followed rigid_length) auto
  show ?thesis
  proof
    assume "date_text s"
    then obtain t where t: "?m s = Some t" using finds_None [OF f, of s s "[]"] by (cases "?m s") auto
    then obtain b where "date_text t" "s = t @ b" using finds_Some [OF f t] by blast
    then have "t = s" using r \<open>date_text s\<close> unfolding rigid_def by (metis append_Nil2)
    then show "date_pattern s" using t unfolding date_pattern_def by simp
  next
    assume "date_pattern s"
    then show "date_text s" using finds_Some [OF f, of s s] unfolding date_pattern_def by blast
  qed
qed

end
