(* ===== verification/Openshift_Page.thy ===== *)
theory Openshift_Page
  imports Openshift_Patterns
begin

text \<open>
  What an errata page says, stated without the code's traversal: the nodes in document order, the
  heading a node stands under, the references of a section, the links and the dates. The lemmas show
  that the walk of \<^verbatim>\<open>internal/openshift/changelog.go\<close> computes exactly this.
\<close>

section \<open>The document in order\<close>

fun doc_order :: "html_node \<Rightarrow> html_node list" and docs_order :: "html_node list \<Rightarrow> html_node list" where
  "doc_order (TextNode d) = [TextNode d]"
| "doc_order (ElementNode tag attrs children) = ElementNode tag attrs children # docs_order children"
| "doc_order (OtherNode children) = OtherNode children # docs_order children"
| "docs_order [] = []"
| "docs_order (n # ns) = doc_order n @ docs_order ns"

definition has_tag :: "string list \<Rightarrow> html_node \<Rightarrow> bool" where
  "has_tag tags n = (case n of ElementNode tag attrs children \<Rightarrow> tag \<in> set tags | _ \<Rightarrow> False)"

text \<open>The heading that nodes after \<open>ns\<close> stand under, and the items of a section.\<close>

definition heading_after :: "html_node list \<Rightarrow> string" where
  "heading_after ns = (let hs = filter (has_tag [''h2'']) ns in if hs = [] then [] else node_text (last hs))"

definition items_under :: "html_node list \<Rightarrow> string \<Rightarrow> html_node list" where
  "items_under ns name =
     map ((!) ns) (filter (\<lambda>k. has_tag [''p'', ''li''] (ns ! k) \<and> heading_after (take k ns) = name) [0..<length ns])"

definition section_items :: "html_node \<Rightarrow> string \<Rightarrow> html_node list" where
  "section_items root name = items_under (doc_order root) name"

text \<open>The advisory of the last top heading that has one; the links that may be shown; the texts.\<close>

definition titled :: "html_node list \<Rightarrow> string \<Rightarrow> bool" where
  "titled ns i \<longleftrightarrow> (\<exists>us n vs. ns = us @ n # vs \<and> has_tag [''h1''] n \<and> leftmost advisory_text (node_text n) i
     \<and> (\<forall>m \<in> set vs. has_tag [''h1''] m \<longrightarrow> \<not> occurs advisory_text (node_text m)))"

definition href_of :: "html_node \<Rightarrow> string" where
  "href_of n = (case n of ElementNode tag attrs children \<Rightarrow> attr attrs ''href'' | _ \<Rightarrow> [])"

text \<open>A link that may be shown: a path on the customer portal, or a URL with a host.\<close>

definition shown_url :: "(string \<Rightarrow> url option) \<Rightarrow> string \<Rightarrow> string" where
  "shown_url parse raw =
     (if take 1 raw = ''/'' then ''https://access.redhat.com'' @ raw
      else if \<exists>u. parse raw = Some u \<and> u_scheme u \<in> {''http'', ''https''} \<and> u_host u \<noteq> [] then raw
      else [])"

definition page_links :: "(string \<Rightarrow> url option) \<Rightarrow> html_node list \<Rightarrow> reference list" where
  "page_links parse ns =
     map (\<lambda>n. \<lparr>rf_id = [], rf_title = node_text n, rf_url = shown_url parse (href_of n)\<rparr>)
       (filter (\<lambda>n. has_tag [''a''] n \<and> shown_url parse (href_of n) \<noteq> []) ns)"

definition page_tokens :: "html_node list \<Rightarrow> string list" where
  "page_tokens ns = filter (\<lambda>t. t \<noteq> [])
     (List.map_filter (\<lambda>n. case n of TextNode d \<Rightarrow> Some (normalize_space d) | _ \<Rightarrow> None) ns)"

section \<open>The walk\<close>

definition visit :: "(string \<Rightarrow> url option) \<Rightarrow> html_node \<Rightarrow> walk_state \<Rightarrow> walk_state" where
  "visit parse n w = (case n of
     TextNode d \<Rightarrow> if normalize_space d \<noteq> [] then w\<lparr>wk_tokens := wk_tokens w @ [normalize_space d]\<rparr> else w
   | ElementNode tag attrs children \<Rightarrow> visit_element parse tag attrs n w
   | OtherNode children \<Rightarrow> w)"

lemma walk_in_order:
  "walk_node parse n w = fold (visit parse) (doc_order n) w"
  "walk_nodes parse ns w = fold (visit parse) (docs_order ns) w"
  by (induction parse n w and parse ns w rule: walk_node_walk_nodes.induct) (simp_all add: visit_def Let_def)

lemma section_nodes_update:
  "section_nodes (AList.update k v m) name = (if name = k then v else section_nodes m name)"
  by (simp add: section_nodes_def)

lemma heading_after_snoc: "heading_after (ns @ [n]) = (if has_tag [''h2''] n then node_text n else heading_after ns)"
  by (simp add: heading_after_def Let_def)

lemma items_under_snoc:
  "items_under (ns @ [n]) name =
     items_under ns name @ (if has_tag [''p'', ''li''] n \<and> heading_after ns = name then [n] else [])"
proof -
  have "filter (\<lambda>k. has_tag [''p'', ''li''] ((ns @ [n]) ! k) \<and> heading_after (take k (ns @ [n])) = name) [0..<length ns]
      = filter (\<lambda>k. has_tag [''p'', ''li''] (ns ! k) \<and> heading_after (take k ns) = name) [0..<length ns]"
    by (rule filter_cong) (auto simp: nth_append)
  moreover have "map ((!) (ns @ [n])) (filter P [0..<length ns]) = map ((!) ns) (filter P [0..<length ns])" for P
    by (auto simp: nth_append)
  ultimately show ?thesis by (simp add: items_under_def nth_append)
qed

lemma fold_visit_section: "wk_section (fold (visit parse) ns empty_walk) = heading_after ns"
  by (induction ns rule: rev_induct)
    (auto simp: heading_after_def [of "[]"] empty_walk_def heading_after_snoc visit_def visit_element_def has_tag_def Let_def
      split: html_node.split)

lemma visit_items:
  "name \<noteq> [] \<Longrightarrow> section_nodes (wk_sections (visit parse n w)) name =
     section_nodes (wk_sections w) name @ (if has_tag [''p'', ''li''] n \<and> wk_section w = name then [n] else [])"
  by (cases n) (simp_all add: visit_def visit_element_def has_tag_def Let_def section_nodes_update)

lemma fold_visit_items:
  assumes "name \<noteq> []"
  shows "section_nodes (wk_sections (fold (visit parse) ns empty_walk)) name = items_under ns name"
proof (induction ns rule: rev_induct)
  case Nil
  show ?case by (simp add: empty_walk_def section_nodes_def items_under_def)
next
  case (snoc n ns)
  then show ?case by (simp add: items_under_snoc visit_items [OF assms] fold_visit_section)
qed

lemma safe_is_shown: "safe_reference_url parse raw = shown_url parse raw"
proof -
  have "has_prefix raw ''/'' \<longleftrightarrow> take 1 raw = ''/''" by (cases raw) (simp_all add: has_prefix_def)
  then show ?thesis by (auto simp: safe_reference_url_def shown_url_def split: option.split)
qed

lemma fold_visit_links: "wk_links (fold (visit parse) ns empty_walk) = page_links parse ns"
  by (induction ns rule: rev_induct)
    (auto simp: page_links_def safe_is_shown empty_walk_def visit_def visit_element_def has_tag_def href_of_def Let_def split: html_node.split)

lemma fold_visit_tokens: "wk_tokens (fold (visit parse) ns empty_walk) = page_tokens ns"
  by (induction ns rule: rev_induct)
    (auto simp: page_tokens_def empty_walk_def visit_def visit_element_def map_filter_def Let_def split: html_node.split)

lemma fold_visit_id:
  "if wk_id (fold (visit parse) ns empty_walk) = []
   then \<forall>n \<in> set ns. has_tag [''h1''] n \<longrightarrow> \<not> occurs advisory_text (node_text n)
   else titled ns (wk_id (fold (visit parse) ns empty_walk))"
proof (induction ns rule: rev_induct)
  case (snoc n ns)
  let ?w = "fold (visit parse) ns empty_walk"
  show ?case
  proof (cases "has_tag [''h1''] n \<and> occurs advisory_text (node_text n)")
    case True
    then have f: "find_match advisory_id_search (node_text n) \<noteq> []" using find_advisory [of "node_text n"] by auto
    then have "wk_id (fold (visit parse) (ns @ [n]) empty_walk) = find_match advisory_id_search (node_text n)"
      using True by (auto simp: visit_def visit_element_def has_tag_def Let_def split: html_node.splits)
    moreover have "titled (ns @ [n]) (find_match advisory_id_search (node_text n))"
      unfolding titled_def using True f find_advisory [of "node_text n"]
      by (intro exI [of _ ns] exI [of _ n] exI [of _ "[]"]) simp
    ultimately show ?thesis using f by simp
  next
    case False
    then have "has_tag [''h1''] n \<Longrightarrow> find_match advisory_id_search (node_text n) = []"
      using find_advisory [of "node_text n"] unfolding leftmost_def occurs_def by (auto split: if_splits)
    then have k: "wk_id (fold (visit parse) (ns @ [n]) empty_walk) = wk_id ?w"
      by (auto simp: visit_def visit_element_def has_tag_def Let_def split: html_node.splits)
    have "titled (ns @ [n]) i" if t: "titled ns i" for i
    proof -
      obtain us m vs where "ns = us @ m # vs" "has_tag [''h1''] m" "leftmost advisory_text (node_text m) i"
        "\<forall>m \<in> set vs. has_tag [''h1''] m \<longrightarrow> \<not> occurs advisory_text (node_text m)"
        using t unfolding titled_def by blast
      then show ?thesis unfolding titled_def using False
        by (intro exI [of _ us] exI [of _ m] exI [of _ "vs @ [n]"]) auto
    qed
    then show ?thesis using snoc False unfolding k by auto
  qed
qed (simp add: empty_walk_def)

lemma titled_occurs: "titled ns i \<Longrightarrow> \<exists>n \<in> set ns. has_tag [''h1''] n \<and> occurs advisory_text (node_text n)"
  unfolding titled_def using leftmost_occurs by fastforce

section \<open>References\<close>

text \<open>The identifier of an item, without the spaces of the text; empty without one.\<close>

definition item_id :: "(string \<Rightarrow> bool) \<Rightarrow> html_node \<Rightarrow> string \<Rightarrow> bool" where
  "item_id L n i \<longleftrightarrow>
     (if occurs L (node_text n) then \<exists>t. leftmost L (node_text n) t \<and> i = filter (\<lambda>c. c \<noteq> CHR '' '') t else i = [])"

fun first_places :: "'a list \<Rightarrow> 'a list" where
  "first_places [] = []"
| "first_places (x # xs) = x # filter (\<lambda>y. y \<noteq> x) (first_places xs)"

text \<open>
  A text cut after the last whole rune that leaves room for the ellipsis; the first link of an item that
  may be shown, with its text; and the title of an item, which is its text without the text of that
  link and a dash.
\<close>

definition shortened_to :: "nat \<Rightarrow> string \<Rightarrow> string" where
  "shortened_to n v =
     (if length v \<le> n then v
      else trim_text (take (Max {k. k \<le> n - 3 \<and> (k = 0 \<or> rune_start (v ! k))}) v) @ [CHR 0xE2, CHR 0x80, CHR 0xA6])"

fun outer_anchors :: "html_node \<Rightarrow> html_node list" and outer_anchors_of :: "html_node list \<Rightarrow> html_node list" where
  "outer_anchors (TextNode d) = []"
| "outer_anchors (ElementNode tag attrs children) =
     (if tag = ''a'' then [ElementNode tag attrs children] else outer_anchors_of children)"
| "outer_anchors (OtherNode children) = outer_anchors_of children"
| "outer_anchors_of [] = []"
| "outer_anchors_of (n # ns) = outer_anchors n @ outer_anchors_of ns"

definition item_link :: "(string \<Rightarrow> url option) \<Rightarrow> html_node \<Rightarrow> string \<times> string" where
  "item_link parse n =
     (case filter (\<lambda>m. shown_url parse (href_of m) \<noteq> []) (outer_anchors n) of
        [] \<Rightarrow> ([], [])
      | m # ms \<Rightarrow> (node_text m, shown_url parse (href_of m)))"

definition without :: "string \<Rightarrow> string \<Rightarrow> string" where
  "without p t = trim_text (if take (length p) t = p then drop (length p) t else t)"

definition item_title :: "string \<Rightarrow> string \<Rightarrow> string" where
  "item_title linked t =
     (let short = shortened_to 300 (trim_text t) in if linked = [] then short else without ''-'' (without linked short))"

lemma cut_back_greatest: "j \<le> n \<Longrightarrow> j = 0 \<or> rune_start (v ! j) \<Longrightarrow> j \<le> cut_back v n"
  by (induction n) (auto simp: le_Suc_eq)

lemma cut_back_Max: "cut_back v n = Max {k. k \<le> n \<and> (k = 0 \<or> rune_start (v ! k))}"
proof (rule Max_eqI [symmetric])
  have "cut_back v n \<le> n \<and> (cut_back v n = 0 \<or> rune_start (v ! cut_back v n))" by (induction n) auto
  then show "cut_back v n \<in> {k. k \<le> n \<and> (k = 0 \<or> rune_start (v ! k))}" by simp
qed (auto intro: cut_back_greatest)

lemma truncate_shortened: "3 < n \<Longrightarrow> truncate_text v n = shortened_to n v"
  by (simp add: truncate_text_def shortened_to_def cut_back_Max ellipsis_def numeral_3_eq_3)

lemma reference_title_item: "reference_title linked t = item_title linked t"
proof -
  have "trim_text (trim_prefix t p) = without p t" for t p
    by (simp add: without_def trim_prefix_def has_prefix_def)
  then show ?thesis by (simp add: reference_title_def item_title_def truncate_shortened Let_def)
qed

lemma item_link_two:
  "item_link parse (OtherNode (n # ns)) =
     (if snd (item_link parse n) \<noteq> [] then item_link parse n else item_link parse (OtherNode ns))"
  by (cases "filter (\<lambda>m. shown_url parse (href_of m) \<noteq> []) (outer_anchors n)") (auto simp: item_link_def filter_eq_Cons_iff)

lemma item_link_empty: "snd (item_link parse n) = [] \<Longrightarrow> item_link parse n = ([], [])"
  by (cases "filter (\<lambda>m. shown_url parse (href_of m) \<noteq> []) (outer_anchors n)") (auto simp: item_link_def filter_eq_Cons_iff)

lemma first_link_outer:
  "(if snd (first_link parse n) = [] then ([], []) else first_link parse n) = item_link parse n"
  "first_link_of parse ns = item_link parse (OtherNode ns)"
proof (induction parse n and parse ns rule: first_link_first_link_of.induct)
  case (2 parse tag attrs children)
  have "item_link parse (ElementNode tag attrs children) = item_link parse (OtherNode children)" if "tag \<noteq> ''a''"
    using that by (simp add: item_link_def)
  then show ?case using 2 item_link_empty [of parse "OtherNode children"]
    by (auto simp: item_link_def href_of_def safe_is_shown)
next
  case (3 parse children)
  then show ?case using item_link_empty [of parse "OtherNode children"] by auto
next
  case (5 parse n ns)
  have e: "snd (item_link parse n) = snd (first_link parse n)"
    unfolding 5(1) [symmetric] by simp
  show ?case
  proof (cases "snd (first_link parse n) = []")
    case True
    then show ?thesis using 5 e by (simp add: item_link_two)
  next
    case False
    then show ?thesis using 5(1) e by (simp add: item_link_two)
  qed
qed (simp_all add: item_link_def)

lemma first_link_item: "\<not> has_tag [''a''] n \<Longrightarrow> first_link parse n = item_link parse n"
  by (cases n) (auto simp: has_tag_def first_link_outer(2) item_link_def)

text \<open>
  The references of a section: the identifiers of its items, each at its first place; title and link
  are those of the first item with the identifier.
\<close>

definition section_refs :: "(string \<Rightarrow> url option) \<Rightarrow> (string \<Rightarrow> bool) \<Rightarrow> html_node list \<Rightarrow> reference list \<Rightarrow> bool" where
  "section_refs parse L items refs \<longleftrightarrow> (\<exists>ids. list_all2 (item_id L) items ids
     \<and> map rf_id refs = first_places (filter (\<lambda>i. i \<noteq> []) ids)
     \<and> (\<forall>r \<in> set refs. \<exists>k < length items. ids ! k = rf_id r \<and> (\<forall>j < k. ids ! j \<noteq> rf_id r)
          \<and> rf_title r = item_title (fst (item_link parse (items ! k))) (node_text (items ! k))
          \<and> rf_url r = snd (item_link parse (items ! k))))"

lemma filter_first_places: "filter P (first_places xs) = first_places (filter P xs)"
proof (induction xs)
  case (Cons x xs)
  have "filter P (filter (\<lambda>y. y \<noteq> x) (first_places xs)) = filter (\<lambda>y. y \<noteq> x) (filter P (first_places xs))"
    by (simp add: conj_commute)
  moreover have "filter (\<lambda>y. y \<noteq> x) (filter P (first_places xs)) = filter P (first_places xs)" if "\<not> P x"
    using that by (intro filter_True) auto
  ultimately show ?case using Cons by (cases "P x") simp_all
qed simp

abbreviation found_id :: "(string \<Rightarrow> string option) \<Rightarrow> html_node \<Rightarrow> string" where
  "found_id m n \<equiv> filter (\<lambda>c. c \<noteq> CHR '' '') (find_match m (node_text n))"

lemma references_ids:
  assumes "\<And>n. find_match m (node_text n) \<noteq> [] \<Longrightarrow> found_id m n \<noteq> []"
  shows "map rf_id (references_from_section parse m seen ns) =
     first_places (filter (\<lambda>i. i \<noteq> [] \<and> i \<notin> set seen) (map (found_id m) ns))"
proof (induction ns arbitrary: seen)
  case (Cons n ns)
  show ?case
  proof (cases "found_id m n = [] \<or> found_id m n \<in> set seen")
    case True
    then have "references_from_section parse m seen (n # ns) = references_from_section parse m seen ns"
      using assms [of n] by (auto simp: Let_def)
    then show ?thesis using Cons True by auto
  next
    case False
    let ?i = "found_id m n" and ?ids = "map (found_id m) ns"
    have "filter (\<lambda>j. j \<noteq> [] \<and> j \<notin> set (?i # seen)) ?ids = filter (\<lambda>j. j \<noteq> ?i) (filter (\<lambda>j. j \<noteq> [] \<and> j \<notin> set seen) ?ids)"
      unfolding filter_filter by (rule filter_cong) auto
    then have "map rf_id (references_from_section parse m (?i # seen) ns) =
        filter (\<lambda>j. j \<noteq> ?i) (first_places (filter (\<lambda>j. j \<noteq> [] \<and> j \<notin> set seen) ?ids))"
      unfolding Cons.IH [of "?i # seen"] by (simp only: filter_first_places)
    moreover have "find_match m (node_text n) \<noteq> []" using False by auto
    ultimately show ?thesis using False by (simp add: Let_def split: prod.split)
  qed
qed simp

lemma references_places:
  assumes "\<And>n. find_match m (node_text n) \<noteq> [] \<Longrightarrow> found_id m n \<noteq> []"
    and "r \<in> set (references_from_section parse m seen ns)"
  shows "rf_id r \<noteq> [] \<and> rf_id r \<notin> set seen \<and> (\<exists>k < length ns. found_id m (ns ! k) = rf_id r \<and> (\<forall>j < k. found_id m (ns ! j) \<noteq> rf_id r)
     \<and> rf_title r = reference_title (fst (first_link parse (ns ! k))) (node_text (ns ! k))
     \<and> rf_url r = snd (first_link parse (ns ! k)))"
  using assms(2)
proof (induction ns arbitrary: seen)
  case (Cons n ns)
  have later: ?case
    if h: "r \<in> set (references_from_section parse m seen' ns)" "set seen \<subseteq> set seen'" "found_id m n = [] \<or> found_id m n \<in> set seen'"
    for seen'
  proof -
    obtain k where k: "rf_id r \<noteq> []" "rf_id r \<notin> set seen'" "k < length ns" "found_id m (ns ! k) = rf_id r"
      "\<forall>j < k. found_id m (ns ! j) \<noteq> rf_id r"
      "rf_title r = reference_title (fst (first_link parse (ns ! k))) (node_text (ns ! k))" "rf_url r = snd (first_link parse (ns ! k))"
      using Cons.IH [OF h(1)] by blast
    have "\<forall>j < Suc k. found_id m ((n # ns) ! j) \<noteq> rf_id r"
    proof (intro allI impI)
      fix j assume "j < Suc k"
      then show "found_id m ((n # ns) ! j) \<noteq> rf_id r" using k(1,2,5) h(3) by (cases j) auto
    qed
    then show ?thesis using k h(2) by (intro conjI exI [of _ "Suc k"]) auto
  qed
  show ?case
  proof (cases "found_id m n = [] \<or> found_id m n \<in> set seen")
    case True
    then have "references_from_section parse m seen (n # ns) = references_from_section parse m seen ns"
      using assms(1) [of n] by (auto simp: Let_def)
    then show ?thesis using later [of seen] Cons.prems True by auto
  next
    case False
    then have f: "find_match m (node_text n) \<noteq> []" by auto
    then consider "r = \<lparr>rf_id = found_id m n, rf_title = reference_title (fst (first_link parse n)) (node_text n),
        rf_url = snd (first_link parse n)\<rparr>" | "r \<in> set (references_from_section parse m (found_id m n # seen) ns)"
      using Cons.prems False by (cases "first_link parse n") (auto simp: Let_def)
    then show ?thesis
    proof cases
      case 1
      then show ?thesis using False by (intro conjI exI [of _ 0]) auto
    next
      case 2
      then show ?thesis using later [of "found_id m n # seen"] by auto
    qed
  qed
qed simp

lemma references_section:
  assumes m: "finds no_digit_next m L" and e: "\<not> L []" and spaces: "\<And>t. L t \<Longrightarrow> \<not> set t \<subseteq> {CHR '' ''}"
    and items: "\<forall>n \<in> set ns. \<not> has_tag [''a''] n"
  shows "section_refs parse L ns (references_from_section parse m [] ns)"
proof -
  have found: "if find_match m s = [] then \<not> occurs L s else leftmost L s (find_match m s)" for s
    by (rule find_match_found [OF m e])
  have ok: "find_match m (node_text n) \<noteq> [] \<Longrightarrow> found_id m n \<noteq> []" for n
    using found [of "node_text n"] spaces leftmost_occurs [of L "node_text n" "find_match m (node_text n)"]
    by (auto simp: filter_empty_conv)
  have "item_id L n (found_id m n)" for n
    using found [of "node_text n"] leftmost_occurs [of L "node_text n" "find_match m (node_text n)"]
    unfolding item_id_def by (cases "find_match m (node_text n) = []") auto
  then have "list_all2 (item_id L) ns (map (found_id m) ns)" by (simp add: list_all2_conv_all_nth)
  moreover have "map rf_id (references_from_section parse m [] ns) = first_places (filter (\<lambda>i. i \<noteq> []) (map (found_id m) ns))"
    using references_ids [OF ok, of parse "[]" ns] by simp
  moreover have "\<exists>k < length ns. map (found_id m) ns ! k = rf_id r \<and> (\<forall>j < k. map (found_id m) ns ! j \<noteq> rf_id r)
      \<and> rf_title r = item_title (fst (item_link parse (ns ! k))) (node_text (ns ! k)) \<and> rf_url r = snd (item_link parse (ns ! k))"
    if r: "r \<in> set (references_from_section parse m [] ns)" for r
  proof -
    obtain k where k: "k < length ns" "found_id m (ns ! k) = rf_id r" "\<forall>j < k. found_id m (ns ! j) \<noteq> rf_id r"
      "rf_title r = reference_title (fst (first_link parse (ns ! k))) (node_text (ns ! k))" "rf_url r = snd (first_link parse (ns ! k))"
      using references_places [OF ok r] by blast
    have "first_link parse (ns ! k) = item_link parse (ns ! k)" using items k(1) by (intro first_link_item) simp
    then show ?thesis using k by (intro exI [of _ k]) (simp add: reference_title_item)
  qed
  ultimately show ?thesis unfolding section_refs_def by blast
qed

lemma items_not_links: "\<forall>n \<in> set (section_items root name). \<not> has_tag [''a''] n"
  by (auto simp: section_items_def items_under_def has_tag_def split: html_node.splits)

lemma cve_section:
  "section_refs parse cve_text (section_items root name) (references_from_section parse cve_pattern [] (section_items root name))"
  by (rule references_section [OF finds_cve advisory_not_empty(2) _ items_not_links]) (auto simp: cve_text_def followed_def)

lemma issue_section:
  "section_refs parse issue_text (section_items root name) (references_from_section parse issue_pattern [] (section_items root name))"
proof (rule references_section [OF finds_issue advisory_not_empty(3) _ items_not_links])
  fix t assume "issue_text t"
  then have "CHR ''-'' \<in> set t" using issue_shape [of t] by auto
  then show "\<not> set t \<subseteq> {CHR '' ''}" by auto
qed

text \<open>The advisory a link names: in its text, or else in its path.\<close>

definition link_names :: "(string \<Rightarrow> url option) \<Rightarrow> reference \<Rightarrow> string \<Rightarrow> bool" where
  "link_names parse l i \<longleftrightarrow> leftmost advisory_text (rf_title l) i
     \<or> (\<not> occurs advisory_text (rf_title l)
        \<and> (\<exists>u. parse (rf_url l) = Some u \<and> leftmost advisory_text (trim_right (CHR ''/'') (u_path u)) i))"

definition release_notes_link :: "(string \<Rightarrow> url option) \<Rightarrow> reference \<Rightarrow> bool" where
  "release_notes_link parse l \<longleftrightarrow> (\<exists>u. parse (rf_url l) = Some u
     \<and> fold_ascii (u_hostname u) = ''docs.redhat.com'' \<and> (\<exists>a b. u_path u = a @ ''/release_notes'' @ b))"

lemma found_advisory: "find_match advisory_id_search s = i \<and> i \<noteq> [] \<longleftrightarrow> leftmost advisory_text s i"
  using find_advisory [of s] leftmost_occurs [of advisory_text s i] advisory_not_empty(1)
    leftmost_unique [OF one_advisory, of s i "find_match advisory_id_search s"]
  by (auto split: if_splits)

lemma missing_advisory: "find_match advisory_id_search s = [] \<longleftrightarrow> \<not> occurs advisory_text s"
  using find_advisory [of s] leftmost_occurs [of advisory_text s] by (auto split: if_splits)

lemma link_names_iff: "link_names parse l i \<longleftrightarrow> link_advisory parse l = i \<and> i \<noteq> []"
  unfolding link_names_def found_advisory [symmetric] missing_advisory [symmetric]
  by (auto simp: link_advisory_def Let_def split: option.split)

lemma collect_related_ids:
  "rf_id ` set (collect_related parse seen ls) = {i. i \<notin> set seen \<and> (\<exists>l \<in> set ls. link_names parse l i)}"
proof (induction ls arbitrary: seen)
  case (Cons l ls)
  show ?case
    by (simp add: Let_def Cons.IH) (auto simp: link_names_iff)
qed simp

lemma collect_related_links:
  "r \<in> set (collect_related parse seen ls) \<Longrightarrow> \<exists>l \<in> set ls. rf_url r = rf_url l \<and> link_names parse l (rf_id r)"
  by (induction ls arbitrary: seen) (auto simp: Let_def link_names_iff split: if_splits)

lemma contains_str_iff: "contains_str s p \<longleftrightarrow> (\<exists>a b. s = a @ p @ b)"
proof (induction s)
  case (Cons c s)
  have "(\<exists>a b. c # s = a @ p @ b) \<longleftrightarrow> (\<exists>b. c # s = p @ b) \<or> (\<exists>a b. s = a @ p @ b)"
    by (metis append_Cons append_Nil append_eq_Cons_conv)
  then show ?case using Cons by (simp add: has_prefix_iff)
qed simp

lemma release_notes_iff: "release_notes_link parse l \<longleftrightarrow> is_release_doc parse l"
  by (auto simp: release_notes_link_def is_release_doc_def contains_str_iff split: option.split)

lemma collect_docs_urls:
  "rf_url ` set (collect_docs parse seen ls) = {u. u \<notin> set seen \<and> (\<exists>l \<in> set ls. release_notes_link parse l \<and> rf_url l = u)}"
  by (induction ls arbitrary: seen) (auto simp: release_notes_iff)

section \<open>The advisory of a page\<close>

definition type_and_severity :: "string \<Rightarrow> string \<Rightarrow> string \<Rightarrow> bool" where
  "type_and_severity v t sev \<longleftrightarrow>
     (if CHR '':'' \<in> set v
      then \<exists>x y. v = x @ '':'' @ y \<and> CHR '':'' \<notin> set x \<and> t = trim_text x \<and> sev = trim_text y
      else t = trim_text v \<and> sev = [])"

text \<open>
  The date after a label: the first date after the first place of the label from which a date is reached
  before another label, that is, before a text that ends with a colon.
\<close>

definition dated :: "string list \<Rightarrow> string \<Rightarrow> string list \<Rightarrow> string \<Rightarrow> bool" where
  "dated ts label us d \<longleftrightarrow> (\<exists>vs ws. ts = us @ label # vs @ d # ws \<and> date_text d
     \<and> (\<forall>v \<in> set vs. \<not> date_text v \<and> \<not> has_suffix v '':''))"

definition date_after :: "string list \<Rightarrow> string \<Rightarrow> string \<Rightarrow> bool" where
  "date_after ts label d \<longleftrightarrow>
     (if \<exists>us d'. dated ts label us d'
      then \<exists>us. dated ts label us d \<and> (\<forall>us' d'. dated ts label us' d' \<longrightarrow> length us \<le> length us')
      else d = [])"

lemma first_date_iff:
  "first_date ts = Some d \<longleftrightarrow> (\<exists>vs ws. ts = vs @ d # ws \<and> date_text d \<and> (\<forall>v \<in> set vs. \<not> date_text v \<and> \<not> has_suffix v '':''))"
proof (induction ts)
  case (Cons t ts)
  show ?case
  proof (cases "date_text t \<or> has_suffix t '':''")
    case True
    have "(\<exists>vs ws. t # ts = vs @ d # ws \<and> date_text d \<and> (\<forall>v \<in> set vs. \<not> date_text v \<and> \<not> has_suffix v '':''))
        \<longleftrightarrow> t = d \<and> date_text t"
      using True by (auto simp: Cons_eq_append_conv)
    then show ?thesis using True by (auto simp: date_pattern_text)
  next
    case False
    have "(\<exists>vs ws. t # ts = vs @ d # ws \<and> date_text d \<and> (\<forall>v \<in> set vs. \<not> date_text v \<and> \<not> has_suffix v '':''))
        \<longleftrightarrow> (\<exists>vs ws. ts = vs @ d # ws \<and> date_text d \<and> (\<forall>v \<in> set vs. \<not> date_text v \<and> \<not> has_suffix v '':''))"
      (is "?l = ?r")
    proof
      assume ?l
      then obtain vs ws where v: "t # ts = vs @ d # ws" "date_text d" "\<forall>v \<in> set vs. \<not> date_text v \<and> \<not> has_suffix v '':''" by blast
      then show ?r using False by (cases vs) auto
    next
      assume ?r
      then obtain vs ws where v: "ts = vs @ d # ws" "date_text d" "\<forall>v \<in> set vs. \<not> date_text v \<and> \<not> has_suffix v '':''" by blast
      then show ?l using False by (intro exI [of _ "t # vs"] exI [of _ ws]) simp
    qed
    then show ?thesis using False Cons by (simp add: date_pattern_text)
  qed
qed simp

lemma dated_Cons:
  "dated (t # ts) label us d \<longleftrightarrow>
     (us = [] \<and> t = label \<and> first_date ts = Some d) \<or> (\<exists>us'. us = t # us' \<and> dated ts label us' d)"
  unfolding first_date_iff dated_def by (cases us) auto

lemma value_after_token_date: "date_after ts label (value_after_token ts label)"
proof (induction ts)
  case Nil
  then show ?case by (simp add: date_after_def dated_def)
next
  case (Cons t ts)
  show ?case
  proof (cases "t = label \<and> first_date ts \<noteq> None")
    case True
    then obtain d where d: "t = label" "first_date ts = Some d" by auto
    then have "dated (t # ts) label [] d" by (simp add: dated_Cons)
    moreover have "value_after_token (t # ts) label = d" using d by simp
    ultimately show ?thesis unfolding date_after_def by (metis le0 list.size(3))
  next
    case False
    then have v: "value_after_token (t # ts) label = value_after_token ts label" by auto
    have c: "dated (t # ts) label us d \<longleftrightarrow> (\<exists>us'. us = t # us' \<and> dated ts label us' d)" for us d
      using False by (auto simp: dated_Cons)
    show ?thesis
    proof (cases "\<exists>us d. dated ts label us d")
      case True
      then obtain us where us: "dated ts label us (value_after_token ts label)"
        "\<forall>us' d'. dated ts label us' d' \<longrightarrow> length us \<le> length us'"
        using Cons unfolding date_after_def by auto
      then have "dated (t # ts) label (t # us) (value_after_token ts label)"
        "\<forall>us' d'. dated (t # ts) label us' d' \<longrightarrow> length (t # us) \<le> length us'"
        by (auto simp: c)
      then show ?thesis unfolding date_after_def v by meson
    next
      case False
      then show ?thesis using Cons unfolding date_after_def v by (simp add: c)
    qed
  qed
qed

text \<open>Every field of an advisory, by the headings and links of the page it comes from.\<close>

definition advisory_of_page :: "(string \<Rightarrow> url option) \<Rightarrow> html_node \<Rightarrow> advisory \<Rightarrow> bool" where
  "advisory_of_page parse root a \<longleftrightarrow>
     (let links = page_links parse (doc_order root) in
      titled (doc_order root) (ad_id a)
      \<and> date_after (page_tokens (doc_order root)) ''Issued:'' (ad_issued a)
      \<and> date_after (page_tokens (doc_order root)) ''Updated:'' (ad_updated a)
      \<and> first_text (section_items root ''Synopsis'') \<noteq> []
      \<and> ad_synopsis a = shortened_to 500 (first_text (section_items root ''Synopsis''))
      \<and> first_text (section_items root ''Type/Severity'') \<noteq> []
      \<and> type_and_severity (first_text (section_items root ''Type/Severity'')) (ad_type a) (ad_severity a)
      \<and> section_refs parse issue_text (section_items root ''Fixes'') (ad_issues a)
      \<and> section_refs parse cve_text (section_items root ''CVEs'') (ad_cves a)
      \<and> rf_id ` set (ad_related a) = {i. i \<noteq> ad_id a \<and> (\<exists>l \<in> set links. link_names parse l i)}
      \<and> (\<forall>r \<in> set (ad_related a). \<exists>l \<in> set links. rf_url r = rf_url l \<and> link_names parse l (rf_id r))
      \<and> rf_url ` set (ad_release_docs a) = {u. \<exists>l \<in> set links. release_notes_link parse l \<and> rf_url l = u})"

lemma split_type: "type_and_severity v (fst (split_type_severity v)) (snd (split_type_severity v))"
proof (cases "CHR '':'' \<in> set v")
  case True
  then obtain x y where "v = x @ CHR '':'' # y" "CHR '':'' \<notin> set x" using split_list_first [OF True] by blast
  then show ?thesis
    unfolding type_and_severity_def split_type_severity_def
    by (simp add: cut_byte_found) (intro exI [of _ x] exI [of _ y], simp)
qed (simp add: type_and_severity_def split_type_severity_def cut_byte_absent)

lemma truncate_nonempty: "0 < n \<Longrightarrow> length ellipsis < n \<Longrightarrow> truncate_text v n = [] \<longleftrightarrow> v = []"
  by (auto simp: truncate_text_def ellipsis_def)

end
