(* ===== verification/Openshift_Summary.thy ===== *)
theory Openshift_Summary
  imports Openshift_Page
begin

text \<open>
  The Markdown summary of an advisory (\<open>renderAdvisoryMarkdown\<close> of
  \<^verbatim>\<open>internal/openshift/changelog.go\<close>) with its length, and what holds of every parsed page.
\<close>

section \<open>Rendering\<close>

definition shortened_notice_reserve :: nat where
  "shortened_notice_reserve = 1024"

definition max_changelog_bytes :: nat where
  "max_changelog_bytes = 6000"

text \<open>The builder with the flag \<open>shortened\<close>.\<close>

type_synonym builder = "string \<times> bool"

definition append_required :: "string \<Rightarrow> builder \<Rightarrow> builder" where
  "append_required line b = ((if fst b = [] then [] else fst b @ [CHR 0x0A]) @ line, snd b)"

definition append_optional :: "nat \<Rightarrow> string \<Rightarrow> builder \<Rightarrow> builder \<times> bool" where
  "append_optional limit line b =
     (let needed = length line + (if fst b = [] then 0 else 1)
      in if int (length (fst b) + needed) > int limit - int shortened_notice_reserve then ((fst b, True), False)
         else (append_required line b, True))"

definition markdown_reference :: "reference \<Rightarrow> string" where
  "markdown_reference r =
     (let label = (if rf_id r = [] then rf_title r else rf_id r);
          label = (if rf_url r \<noteq> [] then ''['' @ label @ '']('' @ rf_url r @ '')'' else label)
      in if rf_title r \<noteq> [] \<and> rf_title r \<noteq> rf_id r then label @ '' '' @ em_dash @ '' '' @ rf_title r else label)"

fun append_references :: "nat \<Rightarrow> reference list \<Rightarrow> builder \<Rightarrow> builder" where
  "append_references limit [] b = b"
| "append_references limit (r # rs) b =
     (case append_optional limit (''- '' @ markdown_reference r) b of
        (b', True) \<Rightarrow> append_references limit rs b'
      | (b', False) \<Rightarrow> b')"

definition heading :: "string \<Rightarrow> builder \<Rightarrow> builder" where
  "heading t b = append_required t (append_required [] b)"

definition meta_line :: "advisory \<Rightarrow> string" where
  "meta_line a =
     ''**Type:** '' @ ad_type a
     @ (if ad_severity a \<noteq> [] then '' '' @ middle_dot @ '' **Severity:** '' @ ad_severity a else [])
     @ (if ad_issued a \<noteq> [] then '' '' @ middle_dot @ '' **Issued:** '' @ ad_issued a else [])
     @ (if ad_updated a \<noteq> [] \<and> ad_updated a \<noteq> ad_issued a then '' '' @ middle_dot @ '' **Updated:** '' @ ad_updated a else [])"

definition summary_head :: "advisory \<Rightarrow> builder" where
  "summary_head a =
     append_required (meta_line a)
       (append_required (''['' @ ad_id a @ '']('' @ ad_url a @ '') '' @ em_dash @ '' '' @ ad_synopsis a)
         (append_required [] (append_required ''### Release advisory summary'' ([], False))))"

definition closing_line :: "advisory \<Rightarrow> bool \<Rightarrow> string" where
  "closing_line a shortened =
     (if shortened
      then ''_Summary shortened to fit embedded release-note limits. See the [full advisory]('' @ ad_url a @ '')._''
      else ''_Source: [Red Hat advisory]('' @ ad_url a @ ''). This is a release advisory summary, not a complete source changelog._'')"

definition append_section :: "nat \<Rightarrow> string \<Rightarrow> reference list \<Rightarrow> builder \<Rightarrow> builder" where
  "append_section limit title refs b = (if refs \<noteq> [] then append_references limit refs (heading title b) else b)"

text \<open>The related section lists two groups; the second is tried even when the first was cut short.\<close>

definition render_advisory_markdown :: "advisory \<Rightarrow> nat \<Rightarrow> string" where
  "render_advisory_markdown a limit =
     (let b1 = append_section limit ''**Fixes**'' (ad_issues a) (summary_head a);
          b2 = append_section limit ''**CVEs**'' (ad_cves a) b1;
          b3 = (if ad_related a \<noteq> [] \<or> ad_release_docs a \<noteq> []
                then append_references limit (ad_release_docs a)
                       (append_references limit (ad_related a) (heading ''**Related**'' b2))
                else b2);
          b4 = append_required [] b3
      in fst (append_required (closing_line a (snd b4)) b4))"

section \<open>The length of a summary\<close>

abbreviation blen :: "builder \<Rightarrow> nat" where
  "blen b \<equiv> length (fst b)"

lemma blen_required: "blen (append_required line b) \<le> blen b + 1 + length line"
  by (simp add: append_required_def)

lemma blen_heading: "blen (heading t b) \<le> blen b + 2 + length t"
  using blen_required [of t "append_required [] b"] blen_required [of "[]" b] by (simp add: heading_def)

lemma blen_optional:
  "blen (fst (append_optional limit line b)) \<le> max (blen b) (limit - shortened_notice_reserve)"
  by (auto simp: append_optional_def append_required_def Let_def)

lemma blen_references: "blen (append_references limit rs b) \<le> max (blen b) (limit - shortened_notice_reserve)"
proof (induction rs arbitrary: b)
  case (Cons r rs)
  obtain b' more where o: "append_optional limit (''- '' @ markdown_reference r) b = (b', more)" by fastforce
  then have "blen b' \<le> max (blen b) (limit - shortened_notice_reserve)" using blen_optional by (metis fst_conv)
  then show ?case using o Cons.IH [of b'] by (cases more) auto
qed simp

lemma blen_section:
  "blen (append_section limit t refs b) \<le> max (blen b) (limit - shortened_notice_reserve) + 2 + length t"
proof (cases "refs = []")
  case False
  have "blen (append_references limit refs (heading t b)) \<le> max (blen (heading t b)) (limit - shortened_notice_reserve)"
    by (rule blen_references)
  also have "\<dots> \<le> max (blen b) (limit - shortened_notice_reserve) + 2 + length t"
    using blen_heading [of t b] by (simp add: max_def)
  finally show ?thesis using False by (simp add: append_section_def)
qed (simp add: append_section_def)

lemma length_closing: "length (closing_line a s) \<le> 101 + length (ad_url a)"
  by (simp add: closing_line_def)

text \<open>
  The limit holds whenever the lines that are never left out take no more than the limit without the
  reserve, and the reserve has room for the link at the end.
\<close>

lemma render_within_limit:
  assumes "blen (summary_head a) + shortened_notice_reserve \<le> limit" and "length (ad_url a) \<le> 880"
  shows "length (render_advisory_markdown a limit) \<le> limit"
proof -
  let ?cut = "limit - shortened_notice_reserve"
  let ?b1 = "append_section limit ''**Fixes**'' (ad_issues a) (summary_head a)"
  let ?b2 = "append_section limit ''**CVEs**'' (ad_cves a) ?b1"
  let ?h = "heading ''**Related**'' ?b2"
  let ?b3 = "(if ad_related a \<noteq> [] \<or> ad_release_docs a \<noteq> []
      then append_references limit (ad_release_docs a) (append_references limit (ad_related a) ?h) else ?b2)"
  have r: "render_advisory_markdown a limit
      = fst (append_required (closing_line a (snd (append_required [] ?b3))) (append_required [] ?b3))"
    by (simp only: render_advisory_markdown_def Let_def)
  have h: "blen (summary_head a) \<le> ?cut" using assms(1) by simp
  have b1: "blen ?b1 \<le> ?cut + 11" using blen_section [of limit "''**Fixes**''" "ad_issues a" "summary_head a"] h by simp
  have b2: "blen ?b2 \<le> ?cut + 21" using blen_section [of limit "''**CVEs**''" "ad_cves a" ?b1] b1 by simp
  have "blen ?h \<le> ?cut + 34" using blen_heading [of "''**Related**''" ?b2] b2 by simp
  then have "blen (append_references limit (ad_related a) ?h) \<le> ?cut + 34"
    using blen_references [of limit "ad_related a" ?h] by simp
  then have "blen (append_references limit (ad_release_docs a) (append_references limit (ad_related a) ?h)) \<le> ?cut + 34"
    using blen_references [of limit "ad_release_docs a" "append_references limit (ad_related a) ?h"] by simp
  then have b3: "blen ?b3 \<le> ?cut + 34" using b2 by simp
  have "blen (append_required [] ?b3) \<le> ?cut + 35" using blen_required [of "[]" ?b3] b3 by simp
  then have "length (render_advisory_markdown a limit) \<le> ?cut + 36 + (101 + length (ad_url a))"
    unfolding r using blen_required [of "closing_line a (snd (append_required [] ?b3))" "append_required [] ?b3"]
      length_closing [of a "snd (append_required [] ?b3)"] by linarith
  then show ?thesis using assms by (simp add: shortened_notice_reserve_def)
qed

text \<open>Nothing bounds the type of an advisory, so a summary can be longer than its limit.\<close>

lemma required_grows: "blen b \<le> blen (append_required line b)" "length line \<le> blen (append_required line b)"
  by (simp_all add: append_required_def)

lemma references_grow: "blen b \<le> blen (append_references limit rs b)"
proof (induction rs arbitrary: b)
  case (Cons r rs)
  have "blen b \<le> blen (fst (append_optional limit (''- '' @ markdown_reference r) b))"
    by (auto simp: append_optional_def append_required_def Let_def)
  then show ?case using Cons.IH order_trans by (fastforce split: prod.split bool.split)
qed simp

lemma section_grows: "blen b \<le> blen (append_section limit t refs b)"
  using references_grow [of "heading t b" limit refs] required_grows(1) [of b "[]"]
    required_grows(1) [of "append_required [] b" t]
  by (simp add: append_section_def heading_def)

lemma render_has_type: "length (ad_type a) \<le> length (render_advisory_markdown a limit)"
proof -
  let ?b2 = "append_section limit ''**CVEs**'' (ad_cves a) (append_section limit ''**Fixes**'' (ad_issues a) (summary_head a))"
  let ?b3 = "(if ad_related a \<noteq> [] \<or> ad_release_docs a \<noteq> []
      then append_references limit (ad_release_docs a) (append_references limit (ad_related a) (heading ''**Related**'' ?b2)) else ?b2)"
  have "length (ad_type a) \<le> length (meta_line a)" by (simp add: meta_line_def)
  also have "\<dots> \<le> blen (summary_head a)" unfolding summary_head_def by (rule required_grows(2))
  also have "\<dots> \<le> blen ?b2" by (rule order_trans [OF section_grows section_grows])
  also have "\<dots> \<le> blen ?b3"
    using references_grow [of "append_references limit (ad_related a) (heading ''**Related**'' ?b2)" limit "ad_release_docs a"]
      references_grow [of "heading ''**Related**'' ?b2" limit "ad_related a"]
      required_grows(1) [of ?b2 "[]"] required_grows(1) [of "append_required [] ?b2" "''**Related**''"]
    by (simp add: heading_def)
  also have "\<dots> \<le> blen (append_required [] ?b3)" by (rule required_grows(1))
  also have "\<dots> \<le> blen (append_required (closing_line a (snd (append_required [] ?b3))) (append_required [] ?b3))"
    by (rule required_grows(1))
  finally show ?thesis by (simp only: render_advisory_markdown_def Let_def)
qed

section \<open>Truncated and normalised text\<close>

lemma cut_back_start: "cut_back v n \<le> n" "cut_back v n = 0 \<or> rune_start (v ! cut_back v n)"
  by (induction n) auto

lemma length_cut: "length (trim_text (take (cut_back v k) v)) \<le> k"
proof -
  have "length (trim_text (take (cut_back v k) v)) \<le> length (take (cut_back v k) v)" by (rule length_trim_text)
  also have "\<dots> \<le> cut_back v k" by simp
  also have "\<dots> \<le> k" by (rule cut_back_start(1))
  finally show ?thesis .
qed

lemma length_truncate: "length (truncate_text v n) \<le> n"
proof (cases "length v \<le> n \<or> n = 0 \<or> n \<le> length ellipsis")
  case True
  then show ?thesis using length_cut [of v n] by (auto simp: truncate_text_def)
next
  case False
  then have "truncate_text v n = trim_text (take (cut_back v (n - length ellipsis)) v) @ ellipsis"
    by (simp add: truncate_text_def)
  then show ?thesis using length_cut [of v "n - length ellipsis"] False by auto
qed

lemma utf8_cut_back: "utf8 v \<Longrightarrow> k < length v \<Longrightarrow> utf8 (take (cut_back v k) v)"
  using cut_back_start [of v k] utf8_take_start [of v "cut_back v k"] by auto

lemma utf8_ellipsis: "utf8 ellipsis"
  by (rule utf8_rune) (simp add: ellipsis_def is_rune_def rune_length_def rune_start_def second_ok_def)

lemma utf8_truncate: "utf8 v \<Longrightarrow> utf8 (truncate_text v n)"
  by (auto simp: truncate_text_def intro!: utf8_append utf8_trim_text utf8_cut_back utf8_ellipsis)

lemma utf8_fields:
  "utf8 (cur @ s) \<Longrightarrow> f \<in> set (fields_from s cur) \<Longrightarrow> utf8 f"
proof (induction s cur rule: fields_from.induct)
  case (2 c cs cur)
  show ?case
  proof (cases "space_width (c # cs) = 0")
    case True
    then show ?thesis using 2 by simp
  next
    case False
    then have "rune_start c" using space_width_start [of "c # cs"] by auto
    moreover obtain rs where rs: "cur @ c # cs = concat rs" "\<forall>r \<in> set rs. is_rune r" using 2(3) unfolding utf8_def by blast
    ultimately have "utf8 (take (length cur) (concat rs)) \<and> utf8 (drop (length cur) (concat rs))"
      using utf8_cut [of rs "length cur"] rs(1) [symmetric] by simp
    then have u: "utf8 cur" "utf8 (c # cs)" unfolding rs(1) [symmetric] by simp_all
    show ?thesis
      using 2(2) [OF False] 2(4) False u utf8_drop_space [OF u(2)] by (auto split: if_splits)
  qed
qed (auto split: if_splits)

lemma utf8_join: "\<forall>p \<in> set ps. utf8 p \<Longrightarrow> utf8 (join '' '' ps)"
proof (induction ps)
  case (Cons p ps)
  have sp: "utf8 '' ''" by (rule utf8_rune, rule is_rune_ascii) simp
  show ?case
  proof (cases ps)
    case (Cons q qs)
    have "utf8 (p @ '' '' @ join '' '' ps)" using Cons.IH Cons.prems sp by (intro utf8_append) auto
    then show ?thesis using Cons by simp
  qed (use Cons.prems in simp)
qed simp

lemma utf8_normalize: "utf8 s \<Longrightarrow> utf8 (normalize_space s)"
  unfolding normalize_space_def by (rule utf8_join) (use utf8_fields [of "[]" s] in simp)

section \<open>Parsed pages\<close>

fun page_utf8 :: "html_node \<Rightarrow> bool" and pages_utf8 :: "html_node list \<Rightarrow> bool" where
  "page_utf8 (TextNode d) = utf8 d"
| "page_utf8 (ElementNode tag attrs children) = pages_utf8 children"
| "page_utf8 (OtherNode children) = pages_utf8 children"
| "pages_utf8 [] = True"
| "pages_utf8 (n # ns) = (page_utf8 n \<and> pages_utf8 ns)"

definition safe_url :: "(string \<Rightarrow> url option) \<Rightarrow> string \<Rightarrow> bool" where
  "safe_url parse u \<longleftrightarrow> has_prefix u ''https://access.redhat.com/''
     \<or> (\<exists>p. parse u = Some p \<and> u_scheme p \<in> {''http'', ''https''} \<and> u_host p \<noteq> [])"

lemma utf8_space: "utf8 '' ''"
  by (rule utf8_rune, rule is_rune_ascii) simp

lemma utf8_text_content:
  "page_utf8 n \<Longrightarrow> utf8 (text_content n)"
  "pages_utf8 ns \<Longrightarrow> utf8 (text_contents ns)"
  by (induction n and ns rule: text_content_text_contents.induct) (simp_all add: utf8_append utf8_space)

lemma utf8_node_text: "page_utf8 n \<Longrightarrow> utf8 (node_text n)"
  by (simp add: node_text_def utf8_normalize utf8_text_content)

lemma safe_reference: "safe_reference_url parse raw \<noteq> [] \<Longrightarrow> safe_url parse (safe_reference_url parse raw)"
  by (auto simp: safe_reference_url_def safe_url_def has_prefix_iff split: option.splits if_splits)

lemma first_link_safe:
  "snd (first_link parse n) \<noteq> [] \<Longrightarrow> safe_url parse (snd (first_link parse n))"
  "snd (first_link_of parse ns) \<noteq> [] \<Longrightarrow> safe_url parse (snd (first_link_of parse ns))"
  by (induction n and ns rule: first_link_first_link_of.induct) (auto simp: safe_reference split: if_splits)

definition walk_ok :: "(string \<Rightarrow> url option) \<Rightarrow> bool \<Rightarrow> walk_state \<Rightarrow> bool" where
  "walk_ok parse u w \<longleftrightarrow>
     (\<forall>l \<in> set (wk_links w). safe_url parse (rf_url l))
     \<and> (u \<longrightarrow> (\<forall>name n. n \<in> set (section_nodes (wk_sections w) name) \<longrightarrow> page_utf8 n))"

lemma walk_ok_visit:
  "walk_ok parse u w \<Longrightarrow> (u \<Longrightarrow> page_utf8 n) \<Longrightarrow> walk_ok parse u (visit_element parse tag attrs n w)"
  using safe_reference [of parse "attr attrs ''href''"]
  by (auto simp: walk_ok_def visit_element_def Let_def section_nodes_update)

lemma walk_ok_walk:
  "walk_ok parse u w \<Longrightarrow> (u \<Longrightarrow> page_utf8 n) \<Longrightarrow> walk_ok parse u (walk_node parse n w)"
  "walk_ok parse u w \<Longrightarrow> (u \<Longrightarrow> pages_utf8 ns) \<Longrightarrow> walk_ok parse u (walk_nodes parse ns w)"
proof (induction parse n w and parse ns w rule: walk_node_walk_nodes.induct)
  case (1 parse d w)
  then show ?case by (simp add: walk_ok_def Let_def)
next
  case (2 parse tag attrs children w)
  then show ?case using walk_ok_visit [of parse u w "ElementNode tag attrs children" tag attrs] by simp
next
  case (3 parse children w)
  then show ?case by simp
next
  case (4 parse w)
  then show ?case by simp
next
  case (5 parse n ns w)
  then have "walk_ok parse u (walk_node parse n w)" by simp
  then show ?case using 5 by simp
qed

lemma first_text_utf8: "\<forall>n \<in> set ns. page_utf8 n \<Longrightarrow> utf8 (first_text ns)"
  by (induction ns) (auto simp: utf8_node_text)

lemma references_facts:
  "\<forall>r \<in> set (references_from_section parse m seen ns). (rf_url r = [] \<or> safe_url parse (rf_url r)) \<and> rf_id r \<notin> set seen"
  "distinct (map rf_id (references_from_section parse m seen ns))"
proof (induction ns arbitrary: seen)
  case (Cons n ns)
  {
    case 1
    obtain linked href where l: "first_link parse n = (linked, href)" by fastforce
    then have "href = [] \<or> safe_url parse href" using first_link_safe(1) [of parse n] by auto
    then show ?case
      using Cons(1) [of seen] Cons(1) [of "filter (\<lambda>c. c \<noteq> CHR '' '') (find_match m (node_text n)) # seen"]
      by (auto simp: Let_def l)
  next
    case 2
    let ?i = "filter (\<lambda>c. c \<noteq> CHR '' '') (find_match m (node_text n))"
    show ?case using Cons(2) [of seen] Cons(2) [of "?i # seen"] Cons(1) [of "?i # seen"]
      by (auto simp: Let_def split: prod.split)
  }
qed simp_all

lemma related_facts:
  "\<forall>l \<in> set ls. safe_url parse (rf_url l) \<Longrightarrow>
     (\<forall>r \<in> set (collect_related parse seen ls). safe_url parse (rf_url r) \<and> rf_id r \<notin> set seen)
     \<and> distinct (map rf_id (collect_related parse seen ls))"
proof (induction ls arbitrary: seen)
  case (Cons l ls)
  let ?i = "link_advisory parse l"
  have IH: "(\<forall>r \<in> set (collect_related parse s ls). safe_url parse (rf_url r) \<and> rf_id r \<notin> set s)
      \<and> distinct (map rf_id (collect_related parse s ls))" for s
    using Cons by simp
  show ?case
  proof (cases "?i = [] \<or> ?i \<in> set seen")
    case True
    then show ?thesis using IH [of seen] by (simp add: Let_def)
  next
    case False
    then have "collect_related parse seen (l # ls) = \<lparr>rf_id = ?i, rf_title = [], rf_url = rf_url l\<rparr> # collect_related parse (?i # seen) ls"
      by (simp add: Let_def)
    moreover have "?i \<notin> rf_id ` set (collect_related parse (?i # seen) ls)" using IH [of "?i # seen"] by force
    ultimately show ?thesis using IH [of "?i # seen"] False Cons.prems by simp
  qed
qed simp

lemma docs_facts:
  "\<forall>l \<in> set ls. safe_url parse (rf_url l) \<Longrightarrow>
     (\<forall>r \<in> set (collect_docs parse seen ls). safe_url parse (rf_url r) \<and> is_release_doc parse r \<and> rf_url r \<notin> set seen)
     \<and> distinct (map rf_url (collect_docs parse seen ls))"
proof (induction ls arbitrary: seen)
  case (Cons l ls)
  have IH: "(\<forall>r \<in> set (collect_docs parse s ls). safe_url parse (rf_url r) \<and> is_release_doc parse r \<and> rf_url r \<notin> set s)
      \<and> distinct (map rf_url (collect_docs parse s ls))" for s
    using Cons by simp
  show ?case
  proof (cases "\<not> is_release_doc parse l \<or> rf_url l \<in> set seen")
    case True
    then show ?thesis using IH [of seen] by simp
  next
    case False
    let ?r = "\<lparr>rf_id = [], rf_title = ''OpenShift release notes'', rf_url = rf_url l\<rparr>"
    have "collect_docs parse seen (l # ls) = ?r # collect_docs parse (rf_url l # seen) ls" using False by simp
    moreover have "rf_url l \<notin> rf_url ` set (collect_docs parse (rf_url l # seen) ls)" using IH [of "rf_url l # seen"] by force
    moreover have "is_release_doc parse ?r" using False by (simp add: is_release_doc_def)
    ultimately show ?thesis using IH [of "rf_url l # seen"] False Cons.prems by simp
  qed
qed simp

lemma sort_slice_key_strict:
  assumes "distinct (map f xs)"
  shows "sorted_wrt (<) (map (f :: 'a \<Rightarrow> string) (sort_slice (\<lambda>x y. f x < f y) xs))"
proof -
  have "sorted_by (\<lambda>x y. f x < f y) (sort_slice (\<lambda>x y. f x < f y) xs)"
    by (rule slice.sorted_srt [OF weak_order_str_key])
  then have "sorted (map f (sort_slice (\<lambda>x y. f x < f y) xs))" by (simp add: sorted_by_def sorted_wrt_map not_less)
  moreover have "mset (map f (sort_slice (\<lambda>x y. f x < f y) xs)) = mset (map f xs)" by (simp add: sort_facts)
  then have "distinct (map f (sort_slice (\<lambda>x y. f x < f y) xs))" using assms mset_eq_imp_distinct_iff by blast
  ultimately show ?thesis by (simp add: strict_sorted_iff)
qed

text \<open>What holds of every accepted page, and how its fields are read off the document.\<close>

lemma parsed_guarantees:
  assumes "parse_advisory_html parse (Inr root) canonical = Inr a"
  shows "ad_id a \<noteq> [] \<and> ad_url a = canonical
     \<and> ad_synopsis a \<noteq> [] \<and> length (ad_synopsis a) \<le> 500 \<and> (page_utf8 root \<longrightarrow> utf8 (ad_synopsis a))
     \<and> (\<forall>r \<in> set (ad_issues a @ ad_cves a @ ad_related a @ ad_release_docs a). rf_url r = [] \<or> safe_url parse (rf_url r))
     \<and> distinct (map rf_id (ad_issues a)) \<and> distinct (map rf_id (ad_cves a))
     \<and> sorted_wrt (<) (map rf_id (ad_related a)) \<and> ad_id a \<notin> rf_id ` set (ad_related a)
     \<and> sorted_wrt (<) (map rf_url (ad_release_docs a))"
proof -
  let ?w = "walk_node parse root empty_walk"
  let ?syn = "first_section_text (wk_sections ?w) ''Synopsis''"
  have w: "walk_ok parse (page_utf8 root) ?w"
    by (rule walk_ok_walk(1)) (simp_all add: walk_ok_def empty_walk_def section_nodes_def)
  then have links: "\<forall>l \<in> set (wk_links ?w). safe_url parse (rf_url l)" by (simp add: walk_ok_def)
  have syn: "page_utf8 root \<Longrightarrow> utf8 (truncate_text ?syn 500)"
    using w by (intro utf8_truncate) (auto simp: first_section_text_def walk_ok_def intro!: first_text_utf8)
  have a: "ad_id a = wk_id ?w" "wk_id ?w \<noteq> []" "ad_url a = canonical" "ad_synopsis a = truncate_text ?syn 500"
    "truncate_text ?syn 500 \<noteq> []"
    "ad_issues a = references_from_section parse issue_pattern [] (section_nodes (wk_sections ?w) ''Fixes'')"
    "ad_cves a = references_from_section parse cve_pattern [] (section_nodes (wk_sections ?w) ''CVEs'')"
    "ad_related a = related_advisories parse (wk_links ?w) (wk_id ?w)"
    "ad_release_docs a = release_documentation parse (wk_links ?w)"
    using assms by (auto simp: parse_advisory_html_def Let_def split: if_splits)
  note rel = related_facts [OF links, of "[wk_id ?w]", THEN conjunct1] related_facts [OF links, of "[wk_id ?w]", THEN conjunct2]
  note docs = docs_facts [OF links, of "[]", THEN conjunct1] docs_facts [OF links, of "[]", THEN conjunct2]
  have "\<forall>r \<in> set (ad_related a). safe_url parse (rf_url r) \<and> rf_id r \<noteq> wk_id ?w"
    "\<forall>r \<in> set (ad_release_docs a). safe_url parse (rf_url r)"
    using rel(1) docs(1) unfolding a(8,9) by (auto simp: related_advisories_def release_documentation_def sort_facts)
  moreover have "sorted_wrt (<) (map rf_id (ad_related a))" "sorted_wrt (<) (map rf_url (ad_release_docs a))"
    unfolding a(8,9) related_advisories_def release_documentation_def
    using sort_slice_key_strict [OF rel(2)] sort_slice_key_strict [OF docs(2)] by simp_all
  ultimately show ?thesis
    using references_facts [of parse issue_pattern "[]" "section_nodes (wk_sections ?w) ''Fixes''"]
      references_facts [of parse cve_pattern "[]" "section_nodes (wk_sections ?w) ''CVEs''"]
      length_truncate [of ?syn 500] syn
    unfolding a(1,3,4,6,7) using a(2,5) by auto
qed

lemma page_fields:
  "parse_advisory_html parse (Inr root) canonical =
     (let w = fold (visit parse) (doc_order root) empty_walk;
          synopsis = truncate_text (first_text (section_items root ''Synopsis'')) 500;
          kind = first_text (section_items root ''Type/Severity'')
      in if wk_id w = [] then Inl NoAdvisoryId
         else if kind = [] \<or> synopsis = [] then Inl SectionsMissing
         else Inr \<lparr>ad_id = wk_id w, ad_url = canonical,
           ad_issued = value_after_token (page_tokens (doc_order root)) ''Issued:'',
           ad_updated = value_after_token (page_tokens (doc_order root)) ''Updated:'', ad_synopsis = synopsis,
           ad_type = fst (split_type_severity kind), ad_severity = snd (split_type_severity kind),
           ad_issues = references_from_section parse issue_pattern [] (section_items root ''Fixes''),
           ad_cves = references_from_section parse cve_pattern [] (section_items root ''CVEs''),
           ad_related = related_advisories parse (page_links parse (doc_order root)) (wk_id w),
           ad_release_docs = release_documentation parse (page_links parse (doc_order root))\<rparr>)"
  unfolding parse_advisory_html_def sum.case walk_in_order first_section_text_def
  by (simp add: Let_def fold_visit_items fold_visit_tokens fold_visit_links section_items_def)

lemma parsed_page:
  assumes "parse_advisory_html parse (Inr root) canonical = Inr a"
  shows "advisory_of_page parse root a"
proof -
  let ?w = "fold (visit parse) (doc_order root) empty_walk" and ?links = "page_links parse (doc_order root)"
  let ?syn = "first_text (section_items root ''Synopsis'')" and ?kind = "first_text (section_items root ''Type/Severity'')"
  have a: "wk_id ?w \<noteq> []" "ad_id a = wk_id ?w" "?syn \<noteq> []" "?kind \<noteq> []" "ad_synopsis a = truncate_text ?syn 500"
    "ad_type a = fst (split_type_severity ?kind)" "ad_severity a = snd (split_type_severity ?kind)"
    "ad_issued a = value_after_token (page_tokens (doc_order root)) ''Issued:''"
    "ad_updated a = value_after_token (page_tokens (doc_order root)) ''Updated:''"
    "ad_issues a = references_from_section parse issue_pattern [] (section_items root ''Fixes'')"
    "ad_cves a = references_from_section parse cve_pattern [] (section_items root ''CVEs'')"
    "ad_related a = related_advisories parse ?links (wk_id ?w)" "ad_release_docs a = release_documentation parse ?links"
    using assms truncate_nonempty [of 500 ?syn]
    by (auto simp: page_fields Let_def ellipsis_def split: if_splits)
  have r: "set (ad_related a) = set (collect_related parse [ad_id a] ?links)" "set (ad_release_docs a) = set (collect_docs parse [] ?links)"
    unfolding a(2,12,13) related_advisories_def release_documentation_def by (simp_all add: sort_facts)
  have "rf_id ` set (ad_related a) = {i. i \<noteq> ad_id a \<and> (\<exists>l \<in> set ?links. link_names parse l i)}"
    "rf_url ` set (ad_release_docs a) = {u. \<exists>l \<in> set ?links. release_notes_link parse l \<and> rf_url l = u}"
    unfolding r collect_related_ids collect_docs_urls by simp_all
  moreover have "\<forall>r \<in> set (ad_related a). \<exists>l \<in> set ?links. rf_url r = rf_url l \<and> link_names parse l (rf_id r)"
    unfolding r using collect_related_links by blast
  moreover have "titled (doc_order root) (ad_id a)" using fold_visit_id [of parse "doc_order root"] a(1,2) by simp
  ultimately show ?thesis
    using a(3,4) split_type [of ?kind] issue_section [of parse] cve_section [of parse] value_after_token_date
      truncate_shortened [of 500 ?syn]
    unfolding advisory_of_page_def Let_def a(5-11) by simp
qed

text \<open>
  C33: What is read off an errata page. A page is refused exactly when no top heading has an advisory
  identifier, or the sections Synopsis and Type/Severity do not both have a text. Otherwise the advisory
  is the last one a top heading names; the dates are those after their labels; synopsis (shortened to 500
  bytes), type and severity are the first texts of their sections; the fixes are the issue numbers of the items under the heading Fixes, the CVEs the CVE numbers of the
  items under CVEs, each once, at its first place and with the title and link of its first item; the
  related advisories are all those that a link of the page names, in order and without the advisory
  itself; the release notes are all links to release notes on \<^verbatim>\<open>docs.redhat.com\<close>, each once and in order.
  The numbers are leftmost texts of their forms, as the definitions of \<open>Openshift_Patterns\<close> spell them out.
  The synopsis has at most 500 bytes and is well-formed UTF-8 when the page is, and every link is empty or
  leads to an http or https URL with a host, whatever the page contains.
\<close>

theorem parse_advisory_sound:
  "case parse_advisory_html parse (Inr root) canonical of
     Inl e \<Rightarrow>
       if \<exists>i. titled (doc_order root) i
       then e = SectionsMissing
         \<and> (first_text (section_items root ''Synopsis'') = [] \<or> first_text (section_items root ''Type/Severity'') = [])
       else e = NoAdvisoryId
   | Inr a \<Rightarrow> advisory_of_page parse root a \<and> ad_id a \<noteq> [] \<and> ad_url a = canonical
     \<and> ad_synopsis a \<noteq> [] \<and> length (ad_synopsis a) \<le> 500 \<and> (page_utf8 root \<longrightarrow> utf8 (ad_synopsis a))
     \<and> (\<forall>r \<in> set (ad_issues a @ ad_cves a @ ad_related a @ ad_release_docs a). rf_url r = [] \<or> safe_url parse (rf_url r))
     \<and> distinct (map rf_id (ad_issues a)) \<and> distinct (map rf_id (ad_cves a))
     \<and> sorted_wrt (<) (map rf_id (ad_related a)) \<and> ad_id a \<notin> rf_id ` set (ad_related a)
     \<and> sorted_wrt (<) (map rf_url (ad_release_docs a))"
proof (cases "parse_advisory_html parse (Inr root) canonical")
  case (Inl e)
  have "wk_id (fold (visit parse) (doc_order root) empty_walk) = [] \<longleftrightarrow> \<not> (\<exists>i. titled (doc_order root) i)"
    using fold_visit_id [of parse "doc_order root"] titled_occurs [of "doc_order root"] by (auto split: if_splits)
  then show ?thesis
    using Inl truncate_nonempty [of 500 "first_text (section_items root ''Synopsis'')"]
    by (auto simp: page_fields Let_def ellipsis_def split: if_splits)
next
  case (Inr a)
  then show ?thesis using parsed_page [OF Inr] parsed_guarantees [OF Inr] by simp
qed

section \<open>A sample page\<close>

definition ex_url :: "string \<Rightarrow> url option" where
  "ex_url raw =
     (if has_prefix raw ''https://access.redhat.com/''
      then Some \<lparr>u_scheme = ''https'', u_host = ''access.redhat.com'', u_hostname = ''access.redhat.com'', u_path = drop 25 raw\<rparr>
      else if has_prefix raw ''https://docs.redhat.com/''
      then Some \<lparr>u_scheme = ''https'', u_host = ''docs.redhat.com'', u_hostname = ''docs.redhat.com'', u_path = drop 23 raw\<rparr>
      else if has_prefix raw ''javascript:'' then Some \<lparr>u_scheme = ''javascript'', u_host = [], u_hostname = [], u_path = []\<rparr>
      else None)"

definition ex_page :: html_node where
  "ex_page = OtherNode
     [ElementNode ''h1'' [] [TextNode ''RHSA-2026:1234 - Security Advisory''],
      ElementNode ''h2'' [] [TextNode ''Synopsis''], ElementNode ''p'' [] [TextNode ''Important:  fix''],
      ElementNode ''h2'' [] [TextNode ''Type/Severity''], ElementNode ''p'' [] [TextNode ''Security: Important''],
      ElementNode ''h2'' [] [TextNode ''Fixes''],
      ElementNode ''li'' [] [ElementNode ''a'' [(''href'', ''javascript:x'')] [TextNode ''OCPBUGS-7''], TextNode ''- crash''],
      ElementNode ''h2'' [] [TextNode ''CVEs''],
      ElementNode ''li'' [] [ElementNode ''a'' [(''href'', ''/security/CVE-2026-1'')] [TextNode ''CVE-2026-1'']]]"

lemma ex_parsed:
  "parse_advisory_html ex_url (Inr ex_page) ''https://access.redhat.com/errata/RHSA-2026:1234'' =
     Inr \<lparr>ad_id = ''RHSA-2026:1234'', ad_url = ''https://access.redhat.com/errata/RHSA-2026:1234'', ad_issued = [], ad_updated = [],
       ad_synopsis = ''Important: fix'', ad_type = ''Security'', ad_severity = ''Important'',
       ad_issues = [\<lparr>rf_id = ''OCPBUGS-7'', rf_title = ''OCPBUGS-7 - crash'', rf_url = []\<rparr>],
       ad_cves = [\<lparr>rf_id = ''CVE-2026-1'', rf_title = [], rf_url = ''https://access.redhat.com/security/CVE-2026-1''\<rparr>],
       ad_related = [], ad_release_docs = []\<rparr>"
  by code_simp

theorem parse_advisory_sound_witness:
  "\<exists>a. parse_advisory_html ex_url (Inr ex_page) ''https://access.redhat.com/errata/RHSA-2026:1234'' = Inr a
     \<and> titled (doc_order ex_page) ''RHSA-2026:1234'' \<and> utf8 (ad_synopsis a)
     \<and> section_refs ex_url issue_text (section_items ex_page ''Fixes'')
         [\<lparr>rf_id = ''OCPBUGS-7'', rf_title = ''OCPBUGS-7 - crash'', rf_url = []\<rparr>]"
proof -
  have "utf8 t" if "\<forall>c \<in> set t. of_char c < (128 :: nat)" for t
    using that utf8_append [OF utf8_rune [OF is_rune_ascii]] by (induction t) force+
  then have "page_utf8 ex_page" by (simp add: ex_page_def)
  then show ?thesis
    using parse_advisory_sound [where parse = ex_url and root = ex_page and canonical = "''https://access.redhat.com/errata/RHSA-2026:1234''"]
    unfolding ex_parsed by (simp add: advisory_of_page_def Let_def) metis
qed

end
