(* ===== verification/Openshift_Changelog.thy ===== *)
theory Openshift_Changelog
  imports Openshift_Summary Service_State
begin

text \<open>
  The lookup of advisory summaries in \<^verbatim>\<open>internal/openshift/changelog.go\<close>: fetching one advisory, the
  shared cache that lets one goroutine fetch while the others wait, and \<open>enrichChangelogs\<close> with its
  budget for a whole response. The HTTP client and the HTML parser are arguments.
\<close>

section \<open>Fetching an advisory\<close>

text \<open>
  What a request is answered with; the body is the bytes that arrive and the error that ends them,
  if one does. \<open>read_limited n\<close> is \<open>io.ReadAll(io.LimitReader(body, n))\<close>.
\<close>

datatype http_result = RequestInvalid string | TransportError string | Response int "string \<times> string option"

definition read_limited :: "nat \<Rightarrow> string \<times> string option \<Rightarrow> string + string" where
  "read_limited n b =
     (if n \<le> length (fst b) then Inr (take n (fst b))
      else (case snd b of Some e \<Rightarrow> Inl e | None \<Rightarrow> Inr (fst b)))"

definition success_status :: "int \<Rightarrow> bool" where
  "success_status code \<longleftrightarrow> \<not> (code < 200 \<or> 300 \<le> code)"

definition max_errata_bytes :: nat where
  "max_errata_bytes = 8388608"

datatype changelog_error =
    AdvisoryRequest string
  | AdvisoryFetch string
  | AdvisoryStatus int
  | AdvisoryRead string
  | AdvisoryTooLarge
  | AdvisoryPage page_error
  | AdvisoryMismatch string string
  | WaitCancelled

record web =
  wb_http :: "string \<Rightarrow> http_result"
  wb_html :: "string \<Rightarrow> string + html_node"
  wb_url :: "string \<Rightarrow> url option"

definition fetch_changelog :: "web \<Rightarrow> string \<Rightarrow> string \<Rightarrow> string \<Rightarrow> changelog_error + string" where
  "fetch_changelog wb base i canonical =
     (case wb_http wb (base @ ''/'' @ i) of
        RequestInvalid e \<Rightarrow> Inl (AdvisoryRequest e)
      | TransportError e \<Rightarrow> Inl (AdvisoryFetch e)
      | Response code body \<Rightarrow>
          if \<not> success_status code then Inl (AdvisoryStatus code)
          else (case read_limited (max_errata_bytes + 1) body of
            Inl e \<Rightarrow> Inl (AdvisoryRead e)
          | Inr page \<Rightarrow>
              if length page > max_errata_bytes then Inl AdvisoryTooLarge
              else (case parse_advisory_html (wb_url wb) (wb_html wb page) canonical of
                Inl e \<Rightarrow> Inl (AdvisoryPage e)
              | Inr a \<Rightarrow> if ad_id a \<noteq> i then Inl (AdvisoryMismatch (ad_id a) i)
                         else Inr (render_advisory_markdown a max_changelog_bytes))))"

text \<open>The base URL, the cache key and the canonical URL that \<open>changelog\<close> derives.\<close>

definition errata_base :: "string \<Rightarrow> string" where
  "errata_base errata = (let base = trim_right (CHR ''/'') errata in if base = [] then default_errata_url else base)"

definition changelog_key :: "string \<Rightarrow> string \<Rightarrow> string" where
  "changelog_key errata i = errata_base errata @ [CHR 0x00] @ i"

definition changelog_fetch :: "web \<Rightarrow> string \<Rightarrow> string \<Rightarrow> changelog_error + string" where
  "changelog_fetch wb errata i = fetch_changelog wb (errata_base errata) i (default_errata_url @ ''/'' @ i)"

section \<open>The cache\<close>

definition changelog_cache_ttl :: int where
  "changelog_cache_ttl = 6 * 3600 * 1000000000"

record changelog_entry =
  ce_content :: string
  ce_fetched_at :: time

text \<open>\<open>pending\<close> holds pointers to calls: addresses in \<open>cc_calls\<close>, where \<open>None\<close> is a call that is not done.\<close>

record changelog_cache =
  cc_entries :: "(string, changelog_entry) gomap"
  cc_pending :: "(string, nat) gomap"
  cc_calls :: "(changelog_error + string) option list"

definition new_changelog_cache :: changelog_cache where
  "new_changelog_cache = \<lparr>cc_entries = [], cc_pending = [], cc_calls = []\<rparr>"

datatype cache_answer = CacheHit string | WaitFor nat | Lead nat "changelog_entry option"

text \<open>The first critical section of \<open>cachedChangelog\<close>, entered at \<open>now\<close>.\<close>

definition cache_begin :: "string \<Rightarrow> time \<Rightarrow> changelog_cache \<Rightarrow> changelog_cache \<times> cache_answer" where
  "cache_begin key now c =
     (let stale = map_of (cc_entries c) key in
      case (case stale of Some e \<Rightarrow> if time_sub now (ce_fetched_at e) < changelog_cache_ttl then Some e else None | None \<Rightarrow> None) of
        Some e \<Rightarrow> (c, CacheHit (ce_content e))
      | None \<Rightarrow>
          (case map_of (cc_pending c) key of
             Some call \<Rightarrow> (c, WaitFor call)
           | None \<Rightarrow>
               (c\<lparr>cc_pending := AList.update key (length (cc_calls c)) (cc_pending c), cc_calls := cc_calls c @ [None]\<rparr>,
                Lead (length (cc_calls c)) stale)))"

text \<open>The second one, of the goroutine that fetched.\<close>

definition cache_finish ::
  "string \<Rightarrow> time \<Rightarrow> changelog_entry option \<Rightarrow> nat \<Rightarrow> changelog_error + string \<Rightarrow> changelog_cache
     \<Rightarrow> changelog_cache \<times> (changelog_error + string)" where
  "cache_finish key now stale call fetched c =
     (let answer = (case (fetched, stale) of (Inl e, Some s) \<Rightarrow> Inr (ce_content s) | _ \<Rightarrow> fetched);
          entries = (case fetched of
             Inr content \<Rightarrow> AList.update key \<lparr>ce_content = content, ce_fetched_at = now\<rparr> (cc_entries c)
           | Inl e \<Rightarrow> cc_entries c)
      in (\<lparr>cc_entries = entries, cc_pending = AList.delete key (cc_pending c), cc_calls = (cc_calls c)[call := Some answer]\<rparr>,
          answer))"

section \<open>The budget of a response\<close>

definition max_aggregate_changelog_bytes :: nat where
  "max_aggregate_changelog_bytes = 24000"

text \<open>
  \<open>answers i\<close> is what the goroutine of the \<open>i\<close>-th release gets; a cancelled one gets an error. Each
  goroutine writes its own element.
\<close>

definition fill_changelogs ::
  "(string \<Rightarrow> url option) \<Rightarrow> (nat \<Rightarrow> changelog_error + string) \<Rightarrow> release list \<Rightarrow> release list" where
  "fill_changelogs parse answers rs =
     map (\<lambda>(i, r). case advisory_id_from_url parse (rl_changelog_url r) of
                     None \<Rightarrow> r
                   | Some _ \<Rightarrow> (case answers i of Inl e \<Rightarrow> r | Inr content \<Rightarrow> r\<lparr>rl_changelog := content\<rparr>))
         (enumerate 0 rs)"

definition fallback_notice :: "(string \<Rightarrow> url option) \<Rightarrow> release \<Rightarrow> string" where
  "fallback_notice parse r =
     ''### Release advisory summary'' @ [CHR 0x0A, CHR 0x0A]
     @ ''_Summary omitted to keep aggregated release notes within limits. See the [full advisory](''
     @ (case advisory_id_from_url parse (rl_changelog_url r) of
          None \<Rightarrow> default_errata_url | Some i \<Rightarrow> default_errata_url @ ''/'' @ i)
     @ '')._''"

text \<open>The loop from the last release to the first, on the reversed list.\<close>

fun budget_loop :: "(string \<Rightarrow> url option) \<Rightarrow> nat \<Rightarrow> release list \<Rightarrow> release list" where
  "budget_loop parse remaining [] = []"
| "budget_loop parse remaining (r # rs) =
     (let content = rl_changelog r in
      if content = [] then r # budget_loop parse remaining rs
      else if length content > remaining then
        (let fallback = fallback_notice parse r in
         if length fallback \<le> remaining
         then r\<lparr>rl_changelog := fallback\<rparr> # budget_loop parse (remaining - length fallback) rs
         else r\<lparr>rl_changelog := []\<rparr> # budget_loop parse remaining rs)
      else r # budget_loop parse (remaining - length content) rs)"

definition enrich_changelogs ::
  "(string \<Rightarrow> url option) \<Rightarrow> (nat \<Rightarrow> changelog_error + string) \<Rightarrow> release list \<Rightarrow> release list" where
  "enrich_changelogs parse answers rs =
     rev (budget_loop parse max_aggregate_changelog_bytes (rev (fill_changelogs parse answers rs)))"

section \<open>The budget holds\<close>

abbreviation changelog_sizes :: "release list \<Rightarrow> nat" where
  "changelog_sizes rs \<equiv> sum_list (map (\<lambda>r. length (rl_changelog r)) rs)"

lemma budget_loop_size: "changelog_sizes (budget_loop parse n rs) \<le> n"
proof (induction rs arbitrary: n)
  case (Cons r rs)
  have "changelog_sizes (budget_loop parse (n - k) rs) + k \<le> n" if "k \<le> n" for k
    using Cons [of "n - k"] that by linarith
  then show ?case using Cons [of n] by (auto simp: Let_def add.commute)
qed simp

lemma budget_loop_length: "length (budget_loop parse n rs) = length rs"
  by (induction rs arbitrary: n) (simp_all add: Let_def)

lemma budget_loop_kept: "changelog_sizes rs \<le> n \<Longrightarrow> budget_loop parse n rs = rs"
  by (induction rs arbitrary: n) (auto simp: Let_def)

lemma budget_loop_nth:
  "i < length rs \<Longrightarrow> \<exists>content \<in> {rl_changelog (rs ! i), fallback_notice parse (rs ! i), []}.
     budget_loop parse n rs ! i = (rs ! i)\<lparr>rl_changelog := content\<rparr>"
proof (induction rs arbitrary: n i)
  case (Cons r rs)
  show ?case
  proof (cases i)
    case 0
    then show ?thesis by (auto simp: Let_def)
  next
    case (Suc j)
    then show ?thesis using Cons.IH [of j] Cons.prems by (simp add: Let_def)
  qed
qed simp

lemma fill_changelogs_length [simp]: "length (fill_changelogs parse answers rs) = length rs"
  by (simp add: fill_changelogs_def)

end
