(* ===== verification/Openshift_Releases.thy ===== *)
theory Openshift_Releases
  imports Openshift_Changelog Semver_Interface Go_Net
begin

text \<open>
  The OpenShift release client: \<open>Updates\<close> of \<^verbatim>\<open>internal/openshift/releases.go\<close> and the release
  stream of \<^verbatim>\<open>release_stream.go\<close>. HTTP, JSON decoding and the URL parser are arguments; what the code
  checks of the decoded values is in the model. A value that JSON leaves out or sets to null is \<open>None\<close>.
\<close>

section \<open>The client and its environment\<close>

record client =
  oc_graph_url :: string
  oc_controller_url :: string

record node =
  nd_version :: string
  nd_metadata :: "(string, string) gomap"

record tag =
  tg_name :: string
  tg_phase :: string

type_synonym edge = "int option list"

text \<open>\<open>rw_set_query\<close> parses a URL, sets query parameters and renders it.\<close>

record release_web = web +
  rw_set_query :: "string \<Rightarrow> (string \<times> string) list \<Rightarrow> string + string"
  rw_graph :: "string \<Rightarrow> string + node list option \<times> edge list option"
  rw_tags :: "string \<Rightarrow> string + tag list option"

datatype data_error = DataRead string | DataTooLarge | DataJson string

datatype stream_error =
    StreamRequest string
  | StreamFetch string
  | StreamStatus int
  | StreamDecode data_error
  | TagsMissing
  | TagIncomplete

datatype update_error =
    ChannelRequired
  | ArchitectureRequired
  | CurrentVersionRequired
  | NegativeLag
  | GraphUrlInvalid string
  | GraphRequest string
  | GraphFetch string
  | GraphStatus int
  | GraphDecode data_error
  | ArraysMissing
  | NodeVersionMissing
  | DuplicateNode string
  | EdgeShape
  | EdgeRange
  | CurrentVersionNotFound
  | StreamFailed stream_error

definition default_graph_url :: string where
  "default_graph_url = ''https://api.openshift.com/api/upgrades_info/v1/graph''"

definition default_controller_url :: string where
  "default_controller_url = ''https://multi.ocp.releases.ci.openshift.org''"

definition max_graph_bytes :: nat where
  "max_graph_bytes = 33554432"

definition max_release_controller_bytes :: nat where
  "max_release_controller_bytes = 8388608"

definition manifest_ref_key :: string where
  "manifest_ref_key = ''io.openshift.upgrades.graph.release.manifestref''"

definition decode_release_data ::
  "nat \<Rightarrow> (string \<Rightarrow> string + 'a) \<Rightarrow> string \<times> string option \<Rightarrow> data_error + 'a" where
  "decode_release_data limit decode body =
     (case read_limited (limit + 1) body of
        Inl e \<Rightarrow> Inl (DataRead e)
      | Inr data \<Rightarrow>
          if length data > limit then Inl DataTooLarge
          else (case decode data of Inl e \<Rightarrow> Inl (DataJson e) | Inr v \<Rightarrow> Inr v))"

section \<open>The graph\<close>

fun check_nodes :: "node list \<Rightarrow> string list \<Rightarrow> update_error option" where
  "check_nodes [] seen = None"
| "check_nodes (n # ns) seen =
     (if nd_version n = [] then Some NodeVersionMissing
      else if nd_version n \<in> set seen then Some (DuplicateNode (nd_version n))
      else check_nodes ns (nd_version n # seen))"

fun check_edges :: "nat \<Rightarrow> edge list \<Rightarrow> update_error option" where
  "check_edges n [] = None"
| "check_edges n (e # es) =
     (case e of
        [Some a, Some b] \<Rightarrow>
          if a < 0 \<or> int n \<le> a \<or> b < 0 \<or> int n \<le> b then Some EdgeRange else check_edges n es
      | _ \<Rightarrow> Some EdgeShape)"

text \<open>The index of the first node of the version.\<close>

fun find_current :: "node list \<Rightarrow> string \<Rightarrow> nat \<Rightarrow> nat option" where
  "find_current [] v i = None"
| "find_current (n # ns) v i = (if nd_version n = v then Some i else find_current ns v (Suc i))"

text \<open>The map \<open>targetIndexes\<close>, whose values are all true, is the list of its keys.\<close>

fun target_indexes :: "nat \<Rightarrow> edge list \<Rightarrow> nat list" where
  "target_indexes current [] = []"
| "target_indexes current (e # es) =
     (case e of
        [Some a, Some b] \<Rightarrow>
          if a = int current \<and> b \<noteq> int current then List.insert (nat b) (target_indexes current es)
          else target_indexes current es
      | _ \<Rightarrow> target_indexes current es)"

definition metadata :: "node \<Rightarrow> string \<Rightarrow> string" where
  "metadata n key = (case map_of (nd_metadata n) key of Some v \<Rightarrow> v | None \<Rightarrow> [])"

definition release_from_node :: "node \<Rightarrow> release" where
  "release_from_node n = \<lparr>rl_version = nd_version n, rl_deprecated = False, rl_changelog = [],
     rl_changelog_url = metadata n ''url'', rl_digest = metadata n manifest_ref_key\<rparr>"

definition release_less :: "'v semver \<Rightarrow> release \<Rightarrow> release \<Rightarrow> bool" where
  "release_less sv x y =
     (case (sv_parse sv (rl_version x), sv_parse sv (rl_version y)) of
        (Some a, Some b) \<Rightarrow> sv_less sv a b
      | _ \<Rightarrow> rl_version x < rl_version y)"

definition sort_releases :: "'v semver \<Rightarrow> release list \<Rightarrow> release list" where
  "sort_releases sv rs = sort_slice (release_less sv) rs"

definition apply_lag :: "int \<Rightarrow> release list \<Rightarrow> release list" where
  "apply_lag lag rs =
     (if int (length rs) \<le> lag then [] else if 0 < lag then take (length rs - nat lag) rs else rs)"

text \<open>From the decoded graph to the installed release and its lagged targets.\<close>

definition graph_candidates ::
  "'v semver \<Rightarrow> (nat list \<Rightarrow> nat list) \<Rightarrow> os_request \<Rightarrow> node list \<Rightarrow> edge list \<Rightarrow> update_error + release list" where
  "graph_candidates sv iter req nodes edges =
     (case check_nodes nodes [] of
        Some e \<Rightarrow> Inl e
      | None \<Rightarrow>
     (case check_edges (length nodes) edges of
        Some e \<Rightarrow> Inl e
      | None \<Rightarrow>
     (case find_current nodes (rq_current_version req) 0 of
        None \<Rightarrow> Inl CurrentVersionNotFound
      | Some current \<Rightarrow>
          (let targets = sort_releases sv (map (\<lambda>i. release_from_node (nodes ! i)) (iter (target_indexes current edges)))
           in Inr (release_from_node (nodes ! current) # apply_lag (rq_lag req) targets)))))"

definition advisory_urls :: "(string \<Rightarrow> url option) \<Rightarrow> node list \<Rightarrow> (string, string) gomap" where
  "advisory_urls parse nodes =
     fold (\<lambda>n m. if advisory_id_from_url parse (metadata n ''url'') \<noteq> None
                 then AList.update (nd_version n) (metadata n ''url'') m else m) nodes []"

section \<open>The release stream\<close>

definition private_graph :: "client \<Rightarrow> bool" where
  "private_graph c \<longleftrightarrow> oc_graph_url c \<noteq> [] \<and> oc_graph_url c \<noteq> default_graph_url \<and> oc_controller_url c = []"

definition release_controller_source :: "client \<Rightarrow> string \<Rightarrow> (string \<times> string) option" where
  "release_controller_source c arch =
     (let trimmed = trim_right (CHR ''/'') (oc_controller_url c);
          base = (if trimmed = [] then default_controller_url else trimmed);
          host = (\<lambda>h. if oc_controller_url c = [] then h else base)
      in if arch = ''multi'' then Some (base, ''4-stable-multi'')
         else if arch = ''amd64'' then Some (host ''https://amd64.ocp.releases.ci.openshift.org'', ''4-stable'')
         else if arch = ''arm64'' then Some (host ''https://arm64.ocp.releases.ci.openshift.org'', ''4-stable-arm64'')
         else if arch = ''ppc64le'' then Some (host ''https://ppc64le.ocp.releases.ci.openshift.org'', ''4-stable-ppc64le'')
         else if arch = ''s390x'' then Some (host ''https://s390x.ocp.releases.ci.openshift.org'', ''4-stable-s390x'')
         else None)"

definition release_comparison_url :: "'w release_web_scheme \<Rightarrow> client \<Rightarrow> string \<Rightarrow> string \<Rightarrow> string \<Rightarrow> string" where
  "release_comparison_url wb c arch from_version to_version =
     (if private_graph c then []
      else if from_version = [] \<or> to_version = [] \<or> from_version = to_version then []
      else (case release_controller_source c arch of
        None \<Rightarrow> []
      | Some (base, stream) \<Rightarrow>
          (case rw_set_query wb (trim_right (CHR ''/'') base @ ''/releasestream/'' @ path_escape stream @ ''/release/''
                 @ path_escape to_version) [(''from'', from_version)] of
             Inl e \<Rightarrow> []
           | Inr u \<Rightarrow> u)))"

definition fetch_release_controller_tags ::
  "'w release_web_scheme \<Rightarrow> string \<Rightarrow> string \<Rightarrow> stream_error + tag list" where
  "fetch_release_controller_tags wb base stream =
     (case wb_http wb (trim_right (CHR ''/'') base @ ''/api/v1/releasestream/'' @ path_escape stream @ ''/tags'') of
        RequestInvalid e \<Rightarrow> Inl (StreamRequest e)
      | TransportError e \<Rightarrow> Inl (StreamFetch e)
      | Response code body \<Rightarrow>
          if \<not> success_status code then Inl (StreamStatus code)
          else (case decode_release_data max_release_controller_bytes (rw_tags wb) body of
            Inl e \<Rightarrow> Inl (StreamDecode e)
          | Inr None \<Rightarrow> Inl TagsMissing
          | Inr (Some tags) \<Rightarrow>
              if list_ex (\<lambda>t. tg_name t = [] \<or> tg_phase t = []) tags then Inl TagIncomplete else Inr tags))"

definition accepted_tag :: "'v semver \<Rightarrow> tag \<Rightarrow> bool" where
  "accepted_tag sv t \<longleftrightarrow> tg_phase t = ''Accepted''
     \<and> (case sv_parse sv (tg_name t) of None \<Rightarrow> False | Some v \<Rightarrow> sv_prerelease sv v = [])"

text \<open>Sorting and the range check parse versions that parsed before.\<close>

definition parsed_less :: "'v semver \<Rightarrow> string \<Rightarrow> string \<Rightarrow> bool" where
  "parsed_less sv x y = (case (sv_parse sv x, sv_parse sv y) of (Some a, Some b) \<Rightarrow> sv_less sv a b | _ \<Rightarrow> False)"

definition stream_releases_between :: "'v semver \<Rightarrow> tag list \<Rightarrow> string \<Rightarrow> string \<Rightarrow> string list" where
  "stream_releases_between sv tags from_version to_version =
     (case (sv_parse sv from_version, sv_parse sv to_version) of
        (Some f, Some t) \<Rightarrow>
          if \<not> sv_less sv f t then []
          else filter (\<lambda>v. case sv_parse sv v of None \<Rightarrow> False | Some w \<Rightarrow> sv_less sv f w \<and> \<not> sv_less sv t w)
                 (sort_slice (parsed_less sv) (map tg_name (filter (accepted_tag sv) tags)))
      | _ \<Rightarrow> [])"

fun latest_from :: "'v semver \<Rightarrow> string \<Rightarrow> release list \<Rightarrow> string" where
  "latest_from sv latest [] = latest"
| "latest_from sv latest (r # rs) =
     latest_from sv (if parsed_less sv latest (rl_version r) then rl_version r else latest) rs"

text \<open>\<open>latestVersion\<close> panics on an empty slice, which its caller excludes.\<close>

definition latest_version :: "'v semver \<Rightarrow> release list \<Rightarrow> string" where
  "latest_version sv rs = latest_from sv (rl_version (hd rs)) (tl rs)"

text \<open>The map \<open>positions\<close> is not updated in the loop.\<close>

definition missing_entries :: "string list \<Rightarrow> (string, string) gomap \<Rightarrow> string list \<Rightarrow> release list" where
  "missing_entries known urls entries =
     map (\<lambda>v. \<lparr>rl_version = v, rl_deprecated = True, rl_changelog = [],
               rl_changelog_url = (case map_of urls v of Some u \<Rightarrow> u | None \<Rightarrow> []), rl_digest = []\<rparr>)
       (filter (\<lambda>v. v \<notin> set known) entries)"

definition add_release_stream_history ::
  "'v semver \<Rightarrow> 'w release_web_scheme \<Rightarrow> client \<Rightarrow> string \<Rightarrow> string \<Rightarrow> (string, string) gomap \<Rightarrow> release list
     \<Rightarrow> stream_error + release list" where
  "add_release_stream_history sv wb c arch current urls rs =
     (if length rs < 2 then Inr rs
      else if private_graph c then Inr rs
      else (case release_controller_source c arch of
        None \<Rightarrow> Inr rs
      | Some (base, stream) \<Rightarrow>
          (case fetch_release_controller_tags wb base stream of
             Inl e \<Rightarrow> Inl e
           | Inr tags \<Rightarrow>
               (let entries = stream_releases_between sv tags current (latest_version sv rs)
                in if length entries = 0 then Inr rs
                   else Inr (rs @ missing_entries (map rl_version rs) urls entries)))))"

section \<open>Updates\<close>

definition fetch_graph :: "'w release_web_scheme \<Rightarrow> client \<Rightarrow> os_request \<Rightarrow> update_error + node list \<times> edge list" where
  "fetch_graph wb c req =
     (let graph_url = (if oc_graph_url c = [] then default_graph_url else oc_graph_url c) in
      case rw_set_query wb graph_url [(''channel'', rq_channel req), (''arch'', rq_architecture req)] of
        Inl e \<Rightarrow> Inl (GraphUrlInvalid e)
      | Inr u \<Rightarrow>
     (case wb_http wb u of
        RequestInvalid e \<Rightarrow> Inl (GraphRequest e)
      | TransportError e \<Rightarrow> Inl (GraphFetch e)
      | Response code body \<Rightarrow>
          if \<not> success_status code then Inl (GraphStatus code)
          else (case decode_release_data max_graph_bytes (rw_graph wb) body of
            Inl e \<Rightarrow> Inl (GraphDecode e)
          | Inr (Some nodes, Some edges) \<Rightarrow> Inr (nodes, edges)
          | Inr _ \<Rightarrow> Inl ArraysMissing)))"

text \<open>\<open>answers\<close> is what the goroutines of \<open>enrichChangelogs\<close> are given.\<close>

definition updates ::
  "'v semver \<Rightarrow> (nat list \<Rightarrow> nat list) \<Rightarrow> 'w release_web_scheme \<Rightarrow> (nat \<Rightarrow> changelog_error + string)
     \<Rightarrow> client \<Rightarrow> os_request \<Rightarrow> update_error + release list" where
  "updates sv iter wb answers c req =
     (if trim_text (rq_channel req) = [] then Inl ChannelRequired
      else if trim_text (rq_architecture req) = [] then Inl ArchitectureRequired
      else if trim_text (rq_current_version req) = [] then Inl CurrentVersionRequired
      else if rq_lag req < 0 then Inl NegativeLag
      else (case fetch_graph wb c req of
        Inl e \<Rightarrow> Inl e
      | Inr (nodes, edges) \<Rightarrow>
          (case graph_candidates sv iter req nodes edges of
             Inl e \<Rightarrow> Inl e
           | Inr out \<Rightarrow>
               (case add_release_stream_history sv wb c (rq_architecture req) (rq_current_version req)
                       (advisory_urls (wb_url wb) nodes) out of
                  Inl e \<Rightarrow> Inl (StreamFailed e)
                | Inr all \<Rightarrow>
                    (let sorted_all = sort_releases sv all
                     in Inr (take 1 sorted_all @ enrich_changelogs (wb_url wb) answers (drop 1 sorted_all)))))))"

end
