(* ===== verification/Openshift_Cache.thy ===== *)
theory Openshift_Cache
  imports Openshift_Changelog
begin

text \<open>
  Properties of the advisory lookups: the budget of one response, and the single-flight protocol of
  the shared cache as a step relation over its two critical sections.
\<close>

section \<open>The budget\<close>

text \<open>
  C34: The embedded summaries of a response take at most 24000 bytes, whatever the pages contain.
  Enrichment changes nothing but the summaries, and each is the one that was fetched, the fixed notice
  with the advisory link, or empty; when they fit together, every fetched summary is kept.
\<close>

theorem changelog_budget:
  "changelog_sizes (enrich_changelogs parse answers rs) \<le> 24000
   \<and> length (enrich_changelogs parse answers rs) = length rs
   \<and> (\<forall>i < length rs. \<exists>content \<in> {rl_changelog (fill_changelogs parse answers rs ! i),
          fallback_notice parse (fill_changelogs parse answers rs ! i), []}.
        enrich_changelogs parse answers rs ! i = (fill_changelogs parse answers rs ! i)\<lparr>rl_changelog := content\<rparr>)
   \<and> (changelog_sizes (fill_changelogs parse answers rs) \<le> 24000 \<longrightarrow>
        enrich_changelogs parse answers rs = fill_changelogs parse answers rs)"
proof (intro conjI allI impI)
  let ?f = "fill_changelogs parse answers rs"
  have rev_sizes: "changelog_sizes (rev xs) = changelog_sizes xs" for xs
    by (simp add: rev_map [symmetric])
  show "changelog_sizes (enrich_changelogs parse answers rs) \<le> 24000"
    using budget_loop_size [of parse 24000 "rev ?f"]
    by (simp only: enrich_changelogs_def max_aggregate_changelog_bytes_def rev_sizes)
  show "length (enrich_changelogs parse answers rs) = length rs"
    by (simp add: enrich_changelogs_def budget_loop_length)
  show "enrich_changelogs parse answers rs = ?f" if "changelog_sizes ?f \<le> 24000"
    using budget_loop_kept [of "rev ?f" 24000 parse] that
    by (simp only: enrich_changelogs_def max_aggregate_changelog_bytes_def rev_sizes rev_rev_ident)
  fix i assume i: "i < length rs"
  let ?j = "length rs - Suc i"
  have "?j < length (rev ?f)" "rev ?f ! ?j = ?f ! i" using i by (simp_all add: rev_nth)
  moreover have "enrich_changelogs parse answers rs ! i = budget_loop parse max_aggregate_changelog_bytes (rev ?f) ! ?j"
    using i by (simp add: enrich_changelogs_def rev_nth budget_loop_length)
  ultimately show "\<exists>content \<in> {rl_changelog (?f ! i), fallback_notice parse (?f ! i), []}.
        enrich_changelogs parse answers rs ! i = (?f ! i)\<lparr>rl_changelog := content\<rparr>"
    using budget_loop_nth [of ?j "rev ?f" parse max_aggregate_changelog_bytes] by simp
qed

section \<open>Single flight\<close>

record leader =
  ld_key :: string
  ld_now :: time
  ld_stale :: "changelog_entry option"
  ld_call :: nat

text \<open>The answers are those that lookups were given, by key; they are what the theorem is about.\<close>

record cache_world =
  cw_cache :: changelog_cache
  cw_leaders :: "leader list"
  cw_waiters :: "(string \<times> nat) list"
  cw_answers :: "(string \<times> (changelog_error + string)) list"

text \<open>\<open>yields key content\<close>: fetching under this key can give this content.\<close>

inductive cache_step :: "(string \<Rightarrow> string \<Rightarrow> bool) \<Rightarrow> cache_world \<Rightarrow> cache_world \<Rightarrow> bool" for yields where
  step_hit: "cache_begin key now (cw_cache w) = (c, CacheHit content) \<Longrightarrow>
     cache_step yields w (w\<lparr>cw_cache := c, cw_answers := (key, Inr content) # cw_answers w\<rparr>)"
| step_wait: "cache_begin key now (cw_cache w) = (c, WaitFor call) \<Longrightarrow>
     cache_step yields w (w\<lparr>cw_cache := c, cw_waiters := (key, call) # cw_waiters w\<rparr>)"
| step_lead: "cache_begin key now (cw_cache w) = (c, Lead call stale) \<Longrightarrow>
     cache_step yields w (w\<lparr>cw_cache := c, cw_leaders := \<lparr>ld_key = key, ld_now = now, ld_stale = stale, ld_call = call\<rparr> # cw_leaders w\<rparr>)"
| step_finish: "l \<in> set (cw_leaders w) \<Longrightarrow> (\<forall>content. fetched = Inr content \<longrightarrow> yields (ld_key l) content) \<Longrightarrow>
     cache_finish (ld_key l) (ld_now l) (ld_stale l) (ld_call l) fetched (cw_cache w) = (c, answer) \<Longrightarrow>
     cache_step yields w (w\<lparr>cw_cache := c, cw_leaders := remove1 l (cw_leaders w),
       cw_answers := (ld_key l, answer) # cw_answers w\<rparr>)"
| step_done: "(key, call) \<in> set (cw_waiters w) \<Longrightarrow> cc_calls (cw_cache w) ! call = Some answer \<Longrightarrow>
     cache_step yields w (w\<lparr>cw_waiters := remove1 (key, call) (cw_waiters w), cw_answers := (key, answer) # cw_answers w\<rparr>)"
| step_cancel: "(key, call) \<in> set (cw_waiters w) \<Longrightarrow>
     cache_step yields w (w\<lparr>cw_waiters := remove1 (key, call) (cw_waiters w), cw_answers := (key, Inl WaitCancelled) # cw_answers w\<rparr>)"

inductive cache_runs :: "(string \<Rightarrow> string \<Rightarrow> bool) \<Rightarrow> cache_world \<Rightarrow> bool" for yields where
  runs_start: "cache_runs yields \<lparr>cw_cache = new_changelog_cache, cw_leaders = [], cw_waiters = [], cw_answers = []\<rparr>"
| runs_step: "cache_runs yields w \<Longrightarrow> cache_step yields w w' \<Longrightarrow> cache_runs yields w'"

definition good_answer :: "(string \<Rightarrow> string \<Rightarrow> bool) \<Rightarrow> string \<Rightarrow> changelog_error + string \<Rightarrow> bool" where
  "good_answer yields key res \<longleftrightarrow> (\<forall>content. res = Inr content \<longrightarrow> yields key content)"

definition entries_ok :: "(string \<Rightarrow> string \<Rightarrow> bool) \<Rightarrow> changelog_cache \<Rightarrow> bool" where
  "entries_ok yields c \<longleftrightarrow> (\<forall>key e. map_of (cc_entries c) key = Some e \<longrightarrow> yields key (ce_content e))"

text \<open>Leaders and pending calls correspond, one for each key; a call not done has a leader.\<close>

definition flight_ok :: "(string \<Rightarrow> string \<Rightarrow> bool) \<Rightarrow> changelog_cache \<Rightarrow> leader list \<Rightarrow> bool" where
  "flight_ok yields c ls \<longleftrightarrow>
     distinct (map ld_key ls) \<and> distinct (map ld_call ls)
     \<and> (\<forall>key call. map_of (cc_pending c) key = Some call \<longleftrightarrow> (\<exists>l \<in> set ls. ld_key l = key \<and> ld_call l = call))
     \<and> (\<forall>l \<in> set ls. ld_call l < length (cc_calls c) \<and> cc_calls c ! ld_call l = None
          \<and> (\<forall>e. ld_stale l = Some e \<longrightarrow> yields (ld_key l) (ce_content e)))"

definition waiters_ok :: "(string \<Rightarrow> string \<Rightarrow> bool) \<Rightarrow> changelog_cache \<Rightarrow> leader list \<Rightarrow> (string \<times> nat) list \<Rightarrow> bool" where
  "waiters_ok yields c ls ws \<longleftrightarrow>
     (\<forall>(key, call) \<in> set ws. call < length (cc_calls c)
        \<and> (case cc_calls c ! call of
             None \<Rightarrow> \<exists>l \<in> set ls. ld_key l = key \<and> ld_call l = call
           | Some res \<Rightarrow> good_answer yields key res))"

definition cache_world_ok :: "(string \<Rightarrow> string \<Rightarrow> bool) \<Rightarrow> cache_world \<Rightarrow> bool" where
  "cache_world_ok yields w \<longleftrightarrow>
     entries_ok yields (cw_cache w) \<and> flight_ok yields (cw_cache w) (cw_leaders w)
     \<and> waiters_ok yields (cw_cache w) (cw_leaders w) (cw_waiters w)
     \<and> (\<forall>(key, res) \<in> set (cw_answers w). good_answer yields key res)"

lemma cache_begin_hit:
  "cache_begin key now c = (c', CacheHit content) \<Longrightarrow>
     c' = c \<and> (\<exists>e. map_of (cc_entries c) key = Some e \<and> ce_content e = content
        \<and> time_sub now (ce_fetched_at e) < changelog_cache_ttl)"
  by (auto simp: cache_begin_def Let_def split: option.splits if_splits)

lemma cache_begin_wait:
  "cache_begin key now c = (c', WaitFor call) \<Longrightarrow> c' = c \<and> map_of (cc_pending c) key = Some call"
  by (auto simp: cache_begin_def Let_def split: option.splits if_splits)

lemma cache_begin_lead:
  "cache_begin key now c = (c', Lead call stale) \<Longrightarrow>
     map_of (cc_pending c) key = None \<and> call = length (cc_calls c) \<and> stale = map_of (cc_entries c) key
     \<and> c' = c\<lparr>cc_pending := AList.update key call (cc_pending c), cc_calls := cc_calls c @ [None]\<rparr>"
  by (auto simp: cache_begin_def Let_def split: option.splits if_splits)

lemma flight_lead:
  assumes ok: "flight_ok yields c ls" and en: "entries_ok yields c"
    and b: "cache_begin key now c = (c', Lead call stale)"
  shows "flight_ok yields c' (\<lparr>ld_key = key, ld_now = now, ld_stale = stale, ld_call = call\<rparr> # ls)"
proof -
  note f = cache_begin_lead [OF b]
  have calls: "\<forall>l \<in> set ls. ld_call l < length (cc_calls c)" using ok by (simp add: flight_ok_def)
  then have "call \<notin> ld_call ` set ls" using f by auto
  moreover have "key \<notin> ld_key ` set ls"
  proof
    assume "key \<in> ld_key ` set ls"
    then have "\<exists>call. map_of (cc_pending c) key = Some call" using ok unfolding flight_ok_def by blast
    then show False using f by simp
  qed
  moreover have "map_of (cc_pending c') k = Some a \<longleftrightarrow> (k = key \<and> a = call) \<or> (\<exists>l \<in> set ls. ld_key l = k \<and> ld_call l = a)" for k a
    using ok f \<open>key \<notin> ld_key ` set ls\<close> by (auto simp: flight_ok_def)
  moreover have "\<forall>l \<in> set ls. ld_call l < length (cc_calls c') \<and> cc_calls c' ! ld_call l = None"
    using ok calls f by (auto simp: flight_ok_def nth_append)
  moreover have "call < length (cc_calls c')" "cc_calls c' ! call = None" using f by simp_all
  moreover have "\<forall>e. stale = Some e \<longrightarrow> yields key (ce_content e)" using f en by (auto simp: entries_ok_def)
  ultimately show ?thesis using ok by (auto simp: flight_ok_def)
qed

lemma waiters_lead:
  assumes ok: "waiters_ok yields c ls ws" and b: "cache_begin key now c = (c', Lead call stale)"
  shows "waiters_ok yields c' (l # ls) ws"
  unfolding waiters_ok_def
proof (clarify)
  fix k a assume "(k, a) \<in> set ws"
  then have a: "a < length (cc_calls c)"
    "case cc_calls c ! a of None \<Rightarrow> \<exists>l \<in> set ls. ld_key l = k \<and> ld_call l = a | Some res \<Rightarrow> good_answer yields k res"
    using ok by (auto simp: waiters_ok_def)
  have "cc_calls c' = cc_calls c @ [None]" using cache_begin_lead [OF b] by simp
  then show "a < length (cc_calls c') \<and> (case cc_calls c' ! a of
      None \<Rightarrow> \<exists>l' \<in> set (l # ls). ld_key l' = k \<and> ld_call l' = a | Some res \<Rightarrow> good_answer yields k res)"
    using a by (auto simp: nth_append split: option.splits)
qed

lemma waiters_wait:
  assumes ok: "waiters_ok yields c ls ws" and fl: "flight_ok yields c ls"
    and b: "cache_begin key now c = (c', WaitFor call)"
  shows "waiters_ok yields c' ls ((key, call) # ws)"
proof -
  obtain l where l: "l \<in> set ls" "ld_key l = key" "ld_call l = call"
    using fl cache_begin_wait [OF b] unfolding flight_ok_def by blast
  moreover have "ld_call l < length (cc_calls c)" "cc_calls c ! ld_call l = None"
    using fl l(1) unfolding flight_ok_def by blast+
  ultimately show ?thesis using ok cache_begin_wait [OF b] by (auto simp: waiters_ok_def)
qed

text \<open>What the end of a fetch does to the cache.\<close>

lemma cache_finish_fields:
  assumes "cache_finish key now stale call fetched c = (c', answer)"
  shows "cc_pending c' = AList.delete key (cc_pending c)" "cc_calls c' = (cc_calls c)[call := Some answer]"
    "cc_entries c' = (case fetched of Inr content \<Rightarrow> AList.update key \<lparr>ce_content = content, ce_fetched_at = now\<rparr> (cc_entries c)
       | Inl e \<Rightarrow> cc_entries c)"
    "answer = fetched \<or> (\<exists>s. stale = Some s \<and> answer = Inr (ce_content s))"
  using assms by (auto simp: cache_finish_def Let_def split: sum.splits option.splits)

lemma finish_answer:
  assumes "flight_ok yields c ls" and "l \<in> set ls" and "good_answer yields (ld_key l) fetched"
    and "cache_finish (ld_key l) (ld_now l) (ld_stale l) (ld_call l) fetched c = (c', answer)"
  shows "good_answer yields (ld_key l) answer"
  using cache_finish_fields(4) [OF assms(4)] assms(1-3) by (auto simp: good_answer_def flight_ok_def)

lemma finish_entries:
  assumes "entries_ok yields c" and "good_answer yields key fetched"
    and "cache_finish key now stale call fetched c = (c', answer)"
  shows "entries_ok yields c'"
  using cache_finish_fields(3) [OF assms(3)] assms(1,2)
  by (auto simp: entries_ok_def good_answer_def split: sum.splits if_splits)

lemma remove1_leader:
  assumes "distinct (map ld_key ls)" and "l \<in> set ls"
  shows "set (remove1 l ls) = {l' \<in> set ls. ld_key l' \<noteq> ld_key l}" "distinct (map ld_key (remove1 l ls))"
proof -
  have "distinct ls" using assms(1) by (simp add: distinct_map)
  then show "set (remove1 l ls) = {l' \<in> set ls. ld_key l' \<noteq> ld_key l}"
    using assms by (auto simp: set_remove1_eq distinct_map dest: inj_onD)
  then show "distinct (map ld_key (remove1 l ls))"
    using assms(1) \<open>distinct ls\<close> by (auto simp: distinct_map intro: inj_on_subset)
qed

lemma flight_finish:
  assumes fl: "flight_ok yields c ls" and l: "l \<in> set ls"
    and f: "cache_finish (ld_key l) (ld_now l) (ld_stale l) (ld_call l) fetched c = (c', answer)"
  shows "flight_ok yields c' (remove1 l ls)"
proof -
  have d: "distinct (map ld_key ls)" "distinct (map ld_call ls)" using fl by (simp_all add: flight_ok_def)
  note s = remove1_leader [OF d(1) l]
  have call: "ld_call l' \<noteq> ld_call l" if "l' \<in> set (remove1 l ls)" for l'
    using that d(2) l s(1) by (auto simp: distinct_map dest: inj_onD)
  have "distinct (map ld_call (remove1 l ls))"
    using d(2) by (auto simp: distinct_map intro: inj_on_diff)
  moreover have "map_of (cc_pending c') key = Some a \<longleftrightarrow> (\<exists>l' \<in> set (remove1 l ls). ld_key l' = key \<and> ld_call l' = a)" for key a
    using fl unfolding s(1) cache_finish_fields(1) [OF f] by (auto simp: flight_ok_def)
  moreover have "ld_call l' < length (cc_calls c') \<and> cc_calls c' ! ld_call l' = None
      \<and> (\<forall>e. ld_stale l' = Some e \<longrightarrow> yields (ld_key l') (ce_content e))" if "l' \<in> set (remove1 l ls)" for l'
    using fl call [OF that] that unfolding s(1) cache_finish_fields(2) [OF f] by (auto simp: flight_ok_def)
  ultimately show ?thesis using s(2) by (simp add: flight_ok_def)
qed

lemma waiters_finish:
  assumes ok: "waiters_ok yields c ls ws" and fl: "flight_ok yields c ls" and l: "l \<in> set ls"
    and y: "good_answer yields (ld_key l) fetched"
    and f: "cache_finish (ld_key l) (ld_now l) (ld_stale l) (ld_call l) fetched c = (c', answer)"
  shows "waiters_ok yields c' (remove1 l ls) ws"
  unfolding waiters_ok_def
proof (clarify)
  fix key a assume "(key, a) \<in> set ws"
  then have a: "a < length (cc_calls c)"
    "case cc_calls c ! a of None \<Rightarrow> \<exists>l \<in> set ls. ld_key l = key \<and> ld_call l = a | Some res \<Rightarrow> good_answer yields key res"
    using ok by (auto simp: waiters_ok_def)
  have calls: "cc_calls c' = (cc_calls c)[ld_call l := Some answer]" by (rule cache_finish_fields(2) [OF f])
  have d: "distinct (map ld_key ls)" "distinct (map ld_call ls)" using fl by (simp_all add: flight_ok_def)
  show "a < length (cc_calls c') \<and> (case cc_calls c' ! a of
      None \<Rightarrow> \<exists>l' \<in> set (remove1 l ls). ld_key l' = key \<and> ld_call l' = a | Some res \<Rightarrow> good_answer yields key res)"
  proof (cases "a = ld_call l")
    case True
    have "cc_calls c ! ld_call l = None" using fl l by (simp add: flight_ok_def)
    then obtain l' where "l' \<in> set ls" "ld_key l' = key" "ld_call l' = ld_call l" using a(2) True by auto
    then have "key = ld_key l" using d(2) l by (auto simp: distinct_map dest: inj_onD)
    then show ?thesis using True a(1) calls finish_answer [OF fl l y f] by simp
  next
    case False
    have "l' \<in> set (remove1 l ls)" if "l' \<in> set ls" "ld_call l' = a" for l'
    proof -
      have "l' \<noteq> l" using that(2) False by auto
      then show ?thesis using that(1) by simp
    qed
    then show ?thesis using a False calls by (fastforce split: option.splits)
  qed
qed

lemma waiters_remove: "waiters_ok yields c ls ws \<Longrightarrow> waiters_ok yields c ls (remove1 x ws)"
  using set_remove1_subset [of x ws] unfolding waiters_ok_def by blast

lemma cache_world_ok_step:
  assumes "cache_step yields w w'" and "cache_world_ok yields w"
  shows "cache_world_ok yields w'"
  using assms
proof cases
  case (step_hit key now c content)
  then show ?thesis using assms(2) cache_begin_hit [OF step_hit(2)]
    by (auto simp: cache_world_ok_def entries_ok_def good_answer_def)
next
  case (step_wait key now c call)
  then show ?thesis using assms(2) cache_begin_wait [OF step_wait(2)] waiters_wait [OF _ _ step_wait(2)]
    by (simp add: cache_world_ok_def)
next
  case (step_lead key now c call stale)
  have "cc_entries c = cc_entries (cw_cache w)" using cache_begin_lead [OF step_lead(2)] by simp
  then show ?thesis using assms(2) step_lead(1) flight_lead [OF _ _ step_lead(2)] waiters_lead [OF _ step_lead(2)]
    by (simp add: cache_world_ok_def entries_ok_def)
next
  case (step_finish l fetched c answer)
  then have y: "good_answer yields (ld_key l) fetched" by (simp add: good_answer_def)
  show ?thesis using assms(2) step_finish(1) finish_entries [OF _ y step_finish(4)] flight_finish [OF _ step_finish(2,4)]
      waiters_finish [OF _ _ step_finish(2) y step_finish(4)] finish_answer [OF _ step_finish(2) y step_finish(4)]
    by (simp add: cache_world_ok_def)
next
  case (step_done key call answer)
  then have "good_answer yields key answer"
    using assms(2) by (fastforce simp: cache_world_ok_def waiters_ok_def split: option.splits)
  then show ?thesis using assms(2) step_done(1) waiters_remove by (simp add: cache_world_ok_def)
next
  case (step_cancel key call)
  then show ?thesis using assms(2) waiters_remove by (simp add: cache_world_ok_def good_answer_def)
qed

lemma cache_runs_ok: "cache_runs yields w \<Longrightarrow> cache_world_ok yields w"
proof (induction rule: cache_runs.induct)
  case runs_start
  then show ?case
    by (simp add: cache_world_ok_def entries_ok_def flight_ok_def waiters_ok_def new_changelog_cache_def)
next
  case (runs_step w w')
  then show ?case using cache_world_ok_step by blast
qed

text \<open>
  C35: Concurrent lookups of one advisory fetch it once. In every reachable state of the cache at most
  one fetch per key is under way, pending holds exactly the keys being fetched, and a waiting lookup
  either waits for a call that a goroutine is fetching or can take its result, so none waits for
  nobody. Whatever content a lookup is given was obtained by a successful fetch of its own key, and an
  answer from the cache alone is less than six hours old.
\<close>

theorem changelog_single_flight:
  assumes "cache_runs yields w"
  shows "distinct (map ld_key (cw_leaders w))
     \<and> dom (map_of (cc_pending (cw_cache w))) = ld_key ` set (cw_leaders w)
     \<and> (\<forall>(key, call) \<in> set (cw_waiters w).
          (\<exists>l \<in> set (cw_leaders w). ld_key l = key \<and> ld_call l = call)
          \<or> (\<exists>res. cc_calls (cw_cache w) ! call = Some res))
     \<and> (\<forall>(key, res) \<in> set (cw_answers w). \<forall>content. res = Inr content \<longrightarrow> yields key content)
     \<and> (\<forall>key now c content. cache_begin key now (cw_cache w) = (c, CacheHit content) \<longrightarrow>
          (\<exists>e. map_of (cc_entries (cw_cache w)) key = Some e \<and> ce_content e = content
             \<and> time_sub now (ce_fetched_at e) < 6 * 3600 * 1000000000))"
proof -
  have ok: "flight_ok yields (cw_cache w) (cw_leaders w)"
    "waiters_ok yields (cw_cache w) (cw_leaders w) (cw_waiters w)"
    "\<forall>(key, res) \<in> set (cw_answers w). good_answer yields key res"
    using cache_runs_ok [OF assms] by (simp_all add: cache_world_ok_def)
  have a: "distinct (map ld_key (cw_leaders w))" using ok(1) by (simp add: flight_ok_def)
  have b: "dom (map_of (cc_pending (cw_cache w))) = ld_key ` set (cw_leaders w)"
  proof (rule set_eqI)
    fix key
    have "key \<in> dom (map_of (cc_pending (cw_cache w))) \<longleftrightarrow> (\<exists>call. map_of (cc_pending (cw_cache w)) key = Some call)"
      by blast
    also have "\<dots> \<longleftrightarrow> (\<exists>l \<in> set (cw_leaders w). ld_key l = key)" using ok(1) unfolding flight_ok_def by blast
    finally show "key \<in> dom (map_of (cc_pending (cw_cache w))) \<longleftrightarrow> key \<in> ld_key ` set (cw_leaders w)" by auto
  qed
  have c: "\<forall>(key, call) \<in> set (cw_waiters w). (\<exists>l \<in> set (cw_leaders w). ld_key l = key \<and> ld_call l = call)
      \<or> (\<exists>res. cc_calls (cw_cache w) ! call = Some res)"
    using ok(2) by (fastforce simp: waiters_ok_def split: option.splits)
  have d: "\<forall>(key, res) \<in> set (cw_answers w). \<forall>content. res = Inr content \<longrightarrow> yields key content"
    using ok(3) unfolding good_answer_def by blast
  have e: "\<forall>key now c content. cache_begin key now (cw_cache w) = (c, CacheHit content) \<longrightarrow>
      (\<exists>e. map_of (cc_entries (cw_cache w)) key = Some e \<and> ce_content e = content
         \<and> time_sub now (ce_fetched_at e) < 6 * 3600 * 1000000000)"
    using cache_begin_hit [where c = "cw_cache w"] unfolding changelog_cache_ttl_def by blast
  show ?thesis by (rule conjI [OF a conjI [OF b conjI [OF c conjI [OF d e]]]])
qed

section \<open>Samples\<close>

definition ex_release :: "string \<Rightarrow> string \<Rightarrow> release" where
  "ex_release v u = \<lparr>rl_version = v, rl_deprecated = False, rl_changelog = [], rl_changelog_url = u, rl_digest = []\<rparr>"

theorem changelog_budget_witness:
  "enrich_changelogs ex_url (\<lambda>i. Inr ''notes'') [ex_release ''4.18.2'' ''https://access.redhat.com/errata/RHSA-2026:1234'']
   = [(ex_release ''4.18.2'' ''https://access.redhat.com/errata/RHSA-2026:1234'')\<lparr>rl_changelog := ''notes''\<rparr>]"
proof -
  let ?rs = "[ex_release ''4.18.2'' ''https://access.redhat.com/errata/RHSA-2026:1234'']"
  have "fill_changelogs ex_url (\<lambda>i. Inr ''notes'') ?rs
      = [(ex_release ''4.18.2'' ''https://access.redhat.com/errata/RHSA-2026:1234'')\<lparr>rl_changelog := ''notes''\<rparr>]"
    by code_simp
  then show ?thesis using changelog_budget [of ex_url "\<lambda>i. Inr ''notes''" ?rs] by simp
qed

text \<open>Two lookups of one key: the first fetches, the second waits and is given the result.\<close>

definition ex_flight :: cache_world where
  "ex_flight = \<lparr>cw_cache = \<lparr>cc_entries = [(''k'', \<lparr>ce_content = ''notes'', ce_fetched_at = 5\<rparr>)], cc_pending = [], cc_calls = [Some (Inr ''notes'')]\<rparr>,
     cw_leaders = [], cw_waiters = [], cw_answers = [(''k'', Inr ''notes''), (''k'', Inr ''notes'')]\<rparr>"

lemma ex_flight_reached: "cache_runs (\<lambda>key content. content = ''notes'') ex_flight"
proof -
  let ?y = "\<lambda>(key :: string) content. content = ''notes''"
  let ?c1 = "\<lparr>cc_entries = [], cc_pending = [(''k'', 0)], cc_calls = [None]\<rparr> :: changelog_cache"
  let ?c2 = "cw_cache ex_flight"
  let ?l = "\<lparr>ld_key = ''k'', ld_now = 5, ld_stale = None, ld_call = 0\<rparr> :: leader"
  let ?w0 = "\<lparr>cw_cache = new_changelog_cache, cw_leaders = [], cw_waiters = [], cw_answers = []\<rparr>"
  let ?w1 = "\<lparr>cw_cache = ?c1, cw_leaders = [?l], cw_waiters = [], cw_answers = []\<rparr>"
  let ?w2 = "\<lparr>cw_cache = ?c1, cw_leaders = [?l], cw_waiters = [(''k'', 0)], cw_answers = []\<rparr>"
  let ?w3 = "\<lparr>cw_cache = ?c2, cw_leaders = [], cw_waiters = [(''k'', 0)], cw_answers = [(''k'', Inr ''notes'')]\<rparr>"
  have "cache_runs ?y ?w0" by (rule runs_start)
  then have "cache_runs ?y ?w1"
    using runs_step [OF _ step_lead [of "''k''" 5 ?w0 ?c1 0 None]]
    by (simp add: cache_begin_def new_changelog_cache_def)
  then have "cache_runs ?y ?w2"
    using runs_step [OF _ step_wait [of "''k''" 6 ?w1 ?c1 0]] by (simp add: cache_begin_def)
  then have "cache_runs ?y ?w3"
    using runs_step [OF _ step_finish [of ?l ?w2 "Inr ''notes''" ?y ?c2 "Inr ''notes''"]]
    by (simp add: cache_finish_def ex_flight_def Let_def)
  then show ?thesis
    using runs_step [OF _ step_done [of "''k''" 0 ?w3 "Inr ''notes''"]] by (simp add: ex_flight_def)
qed

theorem changelog_single_flight_witness:
  "\<exists>w. cache_runs (\<lambda>key content. content = ''notes'') w \<and> length (cw_answers w) = 2
     \<and> dom (map_of (cc_pending (cw_cache w))) = {} \<and> (\<forall>(key, res) \<in> set (cw_answers w). \<forall>content. res = Inr content \<longrightarrow> content = ''notes'')"
proof -
  have "length (cw_answers ex_flight) = 2" "cw_leaders ex_flight = []" by (simp_all add: ex_flight_def)
  then show ?thesis using ex_flight_reached changelog_single_flight [OF ex_flight_reached] by auto
qed

end
