(* ===== verification/Openshift_Updates.thy ===== *)
theory Openshift_Updates
  imports Openshift_Releases Openshift_Cache
begin

text \<open>
  Properties of \<open>Client.Updates\<close>: which releases are eligible, and what the release stream adds.
\<close>

section \<open>The checked graph\<close>

lemma check_nodes_None:
  "check_nodes ns seen = None \<longleftrightarrow>
     distinct (map nd_version ns) \<and> set (map nd_version ns) \<inter> set seen = {} \<and> [] \<notin> set (map nd_version ns)"
  by (induction ns arbitrary: seen) auto

lemma check_edges_None:
  "check_edges n es = None \<Longrightarrow> e \<in> set es \<Longrightarrow>
     \<exists>a b. e = [Some a, Some b] \<and> 0 \<le> a \<and> a < int n \<and> 0 \<le> b \<and> b < int n"
proof (induction es)
  case (Cons x es)
  obtain a b where x: "x = [Some a, Some b]" using Cons.prems(1) by (auto split: list.splits option.splits)
  then have "\<not> (a < 0 \<or> int n \<le> a \<or> b < 0 \<or> int n \<le> b)" "check_edges n es = None"
    using Cons.prems(1) by (auto split: if_splits)
  then show ?case using Cons x by auto
qed simp

lemma find_current_Some:
  "find_current ns v i = Some j \<Longrightarrow> i \<le> j \<and> j - i < length ns \<and> nd_version (ns ! (j - i)) = v"
proof (induction ns v i rule: find_current.induct)
  case (2 n ns v i)
  show ?case
  proof (cases "nd_version n = v")
    case False
    then have "Suc i \<le> j \<and> j - Suc i < length ns \<and> nd_version (ns ! (j - Suc i)) = v" using 2 by simp
    then show ?thesis by (auto simp: nth_Cons split: nat.split) (metis Suc_diff_Suc Suc_le_lessD nat.inject)
  qed (use 2 in auto)
qed simp

lemma find_current_None: "find_current ns v i = None \<longleftrightarrow> v \<notin> set (map nd_version ns)"
  by (induction ns v i rule: find_current.induct) auto

lemma target_indexes_distinct: "distinct (target_indexes cur es)"
  by (induction es) (auto split: list.splits option.splits)

lemma target_indexes_set:
  "check_edges n es = None \<Longrightarrow>
     set (target_indexes cur es) = {j. j \<noteq> cur \<and> [Some (int cur), Some (int j)] \<in> set es}"
proof (induction es)
  case (Cons e es)
  obtain a b where e: "e = [Some a, Some b]" "0 \<le> a" "0 \<le> b"
    using check_edges_None [OF Cons.prems, of e] by auto
  have "check_edges n es = None" using Cons.prems e by (auto split: if_splits)
  then have IH: "set (target_indexes cur es) = {j. j \<noteq> cur \<and> [Some (int cur), Some (int j)] \<in> set es}"
    by (rule Cons.IH)
  show ?case
  proof (cases "a = int cur \<and> b \<noteq> int cur")
    case True
    then have "{j. j \<noteq> cur \<and> [Some (int cur), Some (int j)] \<in> set (e # es)}
        = insert (nat b) {j. j \<noteq> cur \<and> [Some (int cur), Some (int j)] \<in> set es}"
      using e by auto
    then show ?thesis using True e(1) IH by simp
  next
    case False
    then have "{j. j \<noteq> cur \<and> [Some (int cur), Some (int j)] \<in> set (e # es)}
        = {j. j \<noteq> cur \<and> [Some (int cur), Some (int j)] \<in> set es}"
      using e(1) by auto
    then show ?thesis using False e(1) IH by auto
  qed
qed simp

text \<open>The versions one update edge away from the version \<open>v\<close>.\<close>

definition direct_targets :: "node list \<Rightarrow> edge list \<Rightarrow> string \<Rightarrow> string set" where
  "direct_targets nodes edges v =
     {nd_version (nodes ! j) | i j. i < length nodes \<and> j < length nodes \<and> i \<noteq> j
        \<and> nd_version (nodes ! i) = v \<and> [Some (int i), Some (int j)] \<in> set edges}"

section \<open>Sorting\<close>

definition release_rank :: "'v semver \<Rightarrow> release \<Rightarrow> release \<Rightarrow> bool" where
  "release_rank sv x y = opt_less (sv_less sv) (sv_parse sv (rl_version x)) (sv_parse sv (rl_version y))"

definition all_parse :: "'v semver \<Rightarrow> string list \<Rightarrow> bool" where
  "all_parse sv vs \<longleftrightarrow> (\<forall>v \<in> set vs. sv_parse sv v \<noteq> None)"

lemma release_less_rank:
  assumes "all_parse sv (map rl_version rs)" and "x \<in> set rs" and "y \<in> set rs"
  shows "release_less sv x y = release_rank sv x y"
proof -
  have "sv_parse sv (rl_version x) \<noteq> None" "sv_parse sv (rl_version y) \<noteq> None"
    using assms by (simp_all add: all_parse_def)
  then show ?thesis by (auto simp: release_less_def release_rank_def opt_less_def)
qed

context semver_laws
begin

lemma release_rank_weak: "weak_order (release_rank sv)"
proof -
  have "release_rank sv = (\<lambda>x y. opt_less (sv_less sv) (sv_parse sv (rl_version x)) (sv_parse sv (rl_version y)))"
    by (intro ext) (simp add: release_rank_def)
  then show ?thesis
    using weak_order_key [OF weak_order_opt [OF less_order], of "\<lambda>r. sv_parse sv (rl_version r)"] by simp
qed

lemma sort_releases_rank:
  "all_parse sv (map rl_version rs) \<Longrightarrow> sort_releases sv rs = sort_slice (release_rank sv) rs"
  unfolding sort_releases_def using release_less_rank by (rule sort_slice_cong)

lemma sort_releases_sorted:
  assumes "all_parse sv (map rl_version rs)"
  shows "sorted_by (release_less sv) (sort_releases sv rs)"
proof -
  have "sorted_by (release_rank sv) (sort_releases sv rs)"
    unfolding sort_releases_rank [OF assms] by (rule slice.sorted_srt [OF release_rank_weak])
  moreover have "set (sort_releases sv rs) = set rs" by (simp add: sort_releases_def sort_facts)
  ultimately show ?thesis
    using release_less_rank [OF assms] unfolding sorted_by_def by (auto intro: sorted_wrt_mono_rel [rotated])
qed

end

lemma sorted_by_versions:
  "sorted_by (release_less sv) rs = sorted_wrt (\<lambda>x y. \<not> (case (sv_parse sv y, sv_parse sv x) of
     (Some a, Some b) \<Rightarrow> sv_less sv a b | _ \<Rightarrow> y < x)) (map rl_version rs)"
  by (simp add: sorted_by_def sorted_wrt_map release_less_def)

lemma mset_sort_releases: "mset (sort_releases sv rs) = mset rs"
  by (simp add: sort_releases_def sort_facts)

lemma sort_releases_facts:
  "set (sort_releases sv rs) = set rs" "length (sort_releases sv rs) = length rs"
  "distinct (map rl_version (sort_releases sv rs)) = distinct (map rl_version rs)"
proof -
  show "set (sort_releases sv rs) = set rs" "length (sort_releases sv rs) = length rs"
    by (simp_all add: sort_releases_def sort_facts)
  have "mset (map rl_version (sort_releases sv rs)) = mset (map rl_version rs)" by (simp add: mset_sort_releases)
  then show "distinct (map rl_version (sort_releases sv rs)) = distinct (map rl_version rs)"
    by (rule mset_eq_imp_distinct_iff)
qed

section \<open>Enrichment keeps the releases\<close>

definition without_changelog :: "release \<Rightarrow> release" where
  "without_changelog r = r\<lparr>rl_changelog := []\<rparr>"

lemma without_changelog_fields [simp]:
  "rl_version (without_changelog r) = rl_version r" "rl_deprecated (without_changelog r) = rl_deprecated r"
  "rl_changelog_url (without_changelog r) = rl_changelog_url r" "rl_digest (without_changelog r) = rl_digest r"
  "without_changelog (r\<lparr>rl_changelog := c\<rparr>) = without_changelog r"
  by (simp_all add: without_changelog_def)

lemma budget_loop_releases: "map without_changelog (budget_loop parse n rs) = map without_changelog rs"
  by (induction rs arbitrary: n) (simp_all add: Let_def)

lemma fill_changelogs_releases: "map without_changelog (fill_changelogs parse answers rs) = map without_changelog rs"
proof (rule nth_equalityI)
  fix i assume "i < length (map without_changelog (fill_changelogs parse answers rs))"
  then have i: "i < length rs" by simp
  then have "fill_changelogs parse answers rs ! i
      = (case advisory_id_from_url parse (rl_changelog_url (rs ! i)) of None \<Rightarrow> rs ! i
         | Some _ \<Rightarrow> (case answers i of Inl e \<Rightarrow> rs ! i | Inr content \<Rightarrow> (rs ! i)\<lparr>rl_changelog := content\<rparr>))"
    by (simp add: fill_changelogs_def nth_enumerate_eq)
  then show "map without_changelog (fill_changelogs parse answers rs) ! i = map without_changelog rs ! i"
    using i by (simp split: option.split sum.split)
qed simp

lemma enrich_releases: "map without_changelog (enrich_changelogs parse answers rs) = map without_changelog rs"
  by (simp add: enrich_changelogs_def rev_map [symmetric] budget_loop_releases fill_changelogs_releases)

section \<open>The candidates of the graph\<close>

lemma release_from_node_fields [simp]:
  "rl_version (release_from_node n) = nd_version n" "\<not> rl_deprecated (release_from_node n)"
  by (simp_all add: release_from_node_def)

lemma nd_version_inj:
  "distinct (map nd_version nodes) \<Longrightarrow> i < length nodes \<Longrightarrow> j < length nodes \<Longrightarrow>
     nd_version (nodes ! i) = nd_version (nodes ! j) \<longleftrightarrow> i = j"
  using nth_eq_iff_index_eq [of "map nd_version nodes" i j] by simp

lemma graph_candidates_cases:
  assumes it: "is_iter iter" and ok: "graph_candidates sv iter req nodes edges = Inr out"
  obtains cur ts where "out = release_from_node (nodes ! cur) # apply_lag (rq_lag req) (sort_releases sv ts)"
    "cur < length nodes" "nd_version (nodes ! cur) = rq_current_version req"
    "distinct (map rl_version ts)" "set (map rl_version ts) = direct_targets nodes edges (rq_current_version req)"
    "rq_current_version req \<notin> set (map rl_version ts)" "\<forall>r \<in> set ts. \<exists>n \<in> set nodes. r = release_from_node n"
proof -
  obtain cur where c: "check_nodes nodes [] = None" "check_edges (length nodes) edges = None"
    "find_current nodes (rq_current_version req) 0 = Some cur"
    using ok by (auto simp: graph_candidates_def split: option.splits)
  let ?ids = "iter (target_indexes cur edges)"
  let ?ts = "map (\<lambda>i. release_from_node (nodes ! i)) ?ids"
  have d: "distinct (map nd_version nodes)" using c(1) by (simp add: check_nodes_None)
  have cur: "cur < length nodes" "nd_version (nodes ! cur) = rq_current_version req"
    using find_current_Some [OF c(3)] by auto
  have ids: "set ?ids = {j. j \<noteq> cur \<and> [Some (int cur), Some (int j)] \<in> set edges}" "distinct ?ids"
    using target_indexes_set [OF c(2)] target_indexes_distinct is_iter_set [OF it] is_iter_distinct [OF it] by auto
  have range: "j < length nodes" if "j \<in> set ?ids" for j
    using that ids(1) check_edges_None [OF c(2)] by fastforce
  have "set (map rl_version ?ts) = (\<lambda>j. nd_version (nodes ! j)) ` set ?ids" by simp
  also have "\<dots> = direct_targets nodes edges (rq_current_version req)"
  proof
    show "(\<lambda>j. nd_version (nodes ! j)) ` set ?ids \<subseteq> direct_targets nodes edges (rq_current_version req)"
      using ids(1) range cur unfolding direct_targets_def by blast
    show "direct_targets nodes edges (rq_current_version req) \<subseteq> (\<lambda>j. nd_version (nodes ! j)) ` set ?ids"
    proof
      fix v assume "v \<in> direct_targets nodes edges (rq_current_version req)"
      then obtain i j where ij: "v = nd_version (nodes ! j)" "i < length nodes" "j < length nodes" "i \<noteq> j"
        "nd_version (nodes ! i) = rq_current_version req" "[Some (int i), Some (int j)] \<in> set edges"
        unfolding direct_targets_def by blast
      then have "i = cur" using nd_version_inj [OF d, of i cur] cur by simp
      then show "v \<in> (\<lambda>j. nd_version (nodes ! j)) ` set ?ids" using ij ids(1) by auto
    qed
  qed
  finally have set: "set (map rl_version ?ts) = direct_targets nodes edges (rq_current_version req)" .
  have "distinct (map rl_version ?ts)"
    using ids(2) range nd_version_inj [OF d] by (auto simp: distinct_map intro!: inj_onI)
  moreover have "rq_current_version req \<notin> set (map rl_version ?ts)"
    using ids(1) range cur nd_version_inj [OF d cur(1)] by auto
  moreover have "\<forall>r \<in> set ?ts. \<exists>n \<in> set nodes. r = release_from_node n" using range by auto
  moreover have "out = release_from_node (nodes ! cur) # apply_lag (rq_lag req) (sort_releases sv ?ts)"
    using ok c by (simp add: graph_candidates_def Let_def)
  ultimately show ?thesis using that [of cur ?ts] cur set by blast
qed

lemma apply_lag_take: "0 \<le> lag \<Longrightarrow> apply_lag lag rs = take (length rs - nat lag) rs"
  by (auto simp: apply_lag_def)

lemma lag_keeps_lowest:
  assumes sv: "semver_laws sv" and parse: "all_parse sv (map rl_version ts)"
    and k: "k \<in> rl_version ` set (take n (sort_releases sv ts))"
    and d: "d \<in> rl_version ` set ts - rl_version ` set (take n (sort_releases sv ts))"
    and ab: "sv_parse sv k = Some a" "sv_parse sv d = Some b"
  shows "\<not> sv_less sv b a"
proof -
  let ?st = "sort_releases sv ts"
  have "sorted_by (release_less sv) (take n ?st @ drop n ?st)"
    using semver_laws.sort_releases_sorted [OF sv parse] by simp
  then have s: "\<forall>x \<in> set (take n ?st). \<forall>y \<in> set (drop n ?st). \<not> release_less sv y x"
    unfolding sorted_by_def sorted_wrt_append by blast
  obtain x where x: "x \<in> set (take n ?st)" "k = rl_version x" using k by blast
  obtain y where y: "y \<in> set ts" "d = rl_version y" using d by blast
  have "y \<in> set (take n ?st) \<union> set (drop n ?st)"
    using y(1) sort_releases_facts(1) [of sv ts] set_append [of "take n ?st" "drop n ?st"] by simp
  then have "y \<in> set (drop n ?st)" using d y(2) by blast
  then have "\<not> release_less sv y x" using s x(1) by blast
  then show ?thesis using ab x(2) y(2) by (simp add: release_less_def)
qed

lemma eligible_erase:
  "map rl_version (filter (\<lambda>r. \<not> rl_deprecated r) (map without_changelog rs)) = map rl_version (filter (\<lambda>r. \<not> rl_deprecated r) rs)"
  by (induction rs) simp_all

lemma history_shape:
  assumes "add_release_stream_history sv wb c arch cur urls rs = Inr all"
  shows "\<exists>extra. all = rs @ missing_entries (map rl_version rs) urls extra"
proof -
  have "missing_entries (map rl_version rs) urls [] = []" by (simp add: missing_entries_def)
  then show ?thesis using assms
    by (auto simp: add_release_stream_history_def Let_def split: if_splits option.splits prod.splits sum.splits)
qed

lemma missing_entries_deprecated: "r \<in> set (missing_entries known urls vs) \<Longrightarrow> rl_deprecated r"
  by (auto simp: missing_entries_def)

lemma updates_parts:
  assumes "updates sv iter wb answers c req = Inr out"
  obtains nodes edges cands all where "fetch_graph wb c req = Inr (nodes, edges)"
    "graph_candidates sv iter req nodes edges = Inr cands"
    "add_release_stream_history sv wb c (rq_architecture req) (rq_current_version req) (advisory_urls (wb_url wb) nodes) cands = Inr all"
    "map without_changelog out = map without_changelog (sort_releases sv all)" "0 \<le> rq_lag req"
proof -
  obtain nodes edges cands all where p: "fetch_graph wb c req = Inr (nodes, edges)"
    "graph_candidates sv iter req nodes edges = Inr cands"
    "add_release_stream_history sv wb c (rq_architecture req) (rq_current_version req) (advisory_urls (wb_url wb) nodes) cands = Inr all"
    "out = take 1 (sort_releases sv all) @ enrich_changelogs (wb_url wb) answers (drop 1 (sort_releases sv all))" "0 \<le> rq_lag req"
    using assms by (auto simp: updates_def Let_def split: if_splits sum.splits prod.splits)
  have "map without_changelog out = map without_changelog (take 1 (sort_releases sv all) @ drop 1 (sort_releases sv all))"
    unfolding p(4) map_append enrich_releases ..
  then show ?thesis using that p by (simp only: append_take_drop_id)
qed

lemma deprecated_erase:
  "map rl_version (filter rl_deprecated (map without_changelog rs)) = map rl_version (filter rl_deprecated rs)"
  by (induction rs) simp_all

text \<open>The eligible releases are the candidates of the graph; the deprecated ones are what the stream added.\<close>

lemma offered_versions:
  assumes "add_release_stream_history sv wb c arch cur urls cands = Inr all"
    and e: "map without_changelog out = map without_changelog (sort_releases sv all)"
    and nd: "\<forall>r \<in> set cands. \<not> rl_deprecated r"
  shows "mset (map rl_version (filter (\<lambda>r. \<not> rl_deprecated r) out)) = mset (map rl_version cands)"
    "set (map rl_version (filter rl_deprecated out)) = set (map rl_version all) - {v. v \<in> set (map rl_version cands)}"
proof -
  obtain extra where all: "all = cands @ missing_entries (map rl_version cands) urls extra"
    using history_shape [OF assms(1)] by blast
  let ?m = "missing_entries (map rl_version cands) urls extra"
  have m: "\<forall>r \<in> set ?m. rl_deprecated r" using missing_entries_deprecated by blast
  have f: "filter (\<lambda>r. \<not> rl_deprecated r) all = cands" "filter rl_deprecated all = ?m"
    unfolding all using nd m by (simp_all add: filter_id_conv filter_empty_conv)
  have "map rl_version (filter (\<lambda>r. \<not> rl_deprecated r) out) = map rl_version (filter (\<lambda>r. \<not> rl_deprecated r) (sort_releases sv all))"
    using eligible_erase [of out] eligible_erase [of "sort_releases sv all"] e by simp
  then show "mset (map rl_version (filter (\<lambda>r. \<not> rl_deprecated r) out)) = mset (map rl_version cands)"
    using mset_sort_releases [of sv all] f(1) by (metis mset_filter mset_map)
  have "map rl_version (filter rl_deprecated out) = map rl_version (filter rl_deprecated (sort_releases sv all))"
    using deprecated_erase [of out] deprecated_erase [of "sort_releases sv all"] e by simp
  then have "mset (map rl_version (filter rl_deprecated out)) = mset (map rl_version ?m)"
    using mset_sort_releases [of sv all] f(2) by (metis mset_filter mset_map)
  then have "set (map rl_version (filter rl_deprecated out)) = set (map rl_version ?m)" by (rule mset_eq_setD)
  moreover have "set (map rl_version ?m) \<inter> set (map rl_version cands) = {}" by (auto simp: missing_entries_def)
  ultimately show "set (map rl_version (filter rl_deprecated out)) = set (map rl_version all) - {v. v \<in> set (map rl_version cands)}"
    unfolding all by auto
qed

text \<open>The candidates: the installed version and the direct targets that the lag keeps.\<close>

lemma graph_candidates_kept:
  assumes sv: "semver_laws sv" and it: "is_iter iter" and c: "graph_candidates sv iter req nodes edges = Inr cands"
    and lag: "0 \<le> rq_lag req"
  obtains kept where "distinct (map rl_version cands)" "set (map rl_version cands) = insert (rq_current_version req) kept"
    "rq_current_version req \<in> set (map nd_version nodes)" "rq_current_version req \<notin> kept"
    "kept \<subseteq> direct_targets nodes edges (rq_current_version req)"
    "card kept = card (direct_targets nodes edges (rq_current_version req)) - nat (rq_lag req)"
    "all_parse sv (map nd_version nodes) \<longrightarrow>
       (\<forall>k \<in> kept. \<forall>d \<in> direct_targets nodes edges (rq_current_version req) - kept.
          \<forall>a b. sv_parse sv k = Some a \<longrightarrow> sv_parse sv d = Some b \<longrightarrow> \<not> sv_less sv b a)"
    "\<forall>r \<in> set cands. \<exists>n \<in> set nodes. r = release_from_node n"
proof -
  let ?v = "rq_current_version req" and ?D = "direct_targets nodes edges (rq_current_version req)"
  obtain cur ts where g: "cands = release_from_node (nodes ! cur) # apply_lag (rq_lag req) (sort_releases sv ts)"
    "cur < length nodes" "nd_version (nodes ! cur) = ?v" "distinct (map rl_version ts)" "set (map rl_version ts) = ?D"
    "?v \<notin> set (map rl_version ts)" "\<forall>r \<in> set ts. \<exists>n \<in> set nodes. r = release_from_node n"
    by (rule graph_candidates_cases [OF it c])
  let ?st = "sort_releases sv ts" and ?n = "length ts - nat (rq_lag req)"
  let ?kept = "set (map rl_version (take ?n ?st))"
  have st: "set ?st = set ts" "length ?st = length ts" "distinct (map rl_version ?st)"
    using g(4) by (simp_all add: sort_releases_facts)
  have cands: "cands = release_from_node (nodes ! cur) # take ?n ?st"
    using g(1) apply_lag_take [OF lag] st(2) by simp
  have sub: "?kept \<subseteq> ?D" using st(1) g(5) by (auto dest: in_set_takeD)
  have "card ?D = length ts" unfolding g(5) [symmetric] using distinct_card [OF g(4)] by simp
  moreover have "card ?kept = length (take ?n ?st)"
    using distinct_card [of "map rl_version (take ?n ?st)"] st(3) by (simp add: take_map [symmetric] del: set_map)
  ultimately have card: "card ?kept = card ?D - nat (rq_lag req)" using st(2) by simp
  have order: "\<not> sv_less sv b a" if h: "all_parse sv (map nd_version nodes)" "k \<in> ?kept" "d \<in> ?D - ?kept"
    "sv_parse sv k = Some a" "sv_parse sv d = Some b" for k d a b
  proof (rule lag_keeps_lowest [OF sv _ _ _ h(4,5)])
    show "all_parse sv (map rl_version ts)" using h(1) g(7) by (fastforce simp: all_parse_def)
    show "k \<in> rl_version ` set (take ?n ?st)" using h(2) by simp
    show "d \<in> rl_version ` set ts - rl_version ` set (take ?n ?st)" using h(3) g(5) by simp
  qed
  show ?thesis
  proof (rule that)
    show "distinct (map rl_version cands)"
      using st(3) g(3,6) st(1) unfolding cands by (auto simp: take_map [symmetric] dest: in_set_takeD)
    show "set (map rl_version cands) = insert ?v ?kept" using g(3) unfolding cands by simp
    show "?v \<in> set (map nd_version nodes)" using g(2) unfolding g(3) [symmetric] by simp
    show "?v \<notin> ?kept" using sub g(5,6) by blast
    show "\<forall>r \<in> set cands. \<exists>n \<in> set nodes. r = release_from_node n"
      using g(2,7) st(1) cands by (auto dest: in_set_takeD)
  qed (use sub card order in blast)+
qed

text \<open>What is offered comes from a candidate; enrichment changes the notes only.\<close>

lemma offered_candidate:
  assumes "add_release_stream_history sv wb c arch cur urls cands = Inr all"
    and e: "map without_changelog out = map without_changelog (sort_releases sv all)"
    and r: "r \<in> set out" "\<not> rl_deprecated r"
  shows "\<exists>r' \<in> set cands. rl_version r = rl_version r' \<and> rl_digest r = rl_digest r' \<and> rl_changelog_url r = rl_changelog_url r'"
proof -
  have "without_changelog r \<in> set (map without_changelog (sort_releases sv all))" using r(1) e by (metis image_eqI set_map)
  then obtain r' where r': "r' \<in> set all" "without_changelog r = without_changelog r'"
    using mset_sort_releases [of sv all] by (metis (no_types, lifting) imageE set_map set_mset_mset)
  have f: "rl_version r = rl_version r'" "rl_deprecated r = rl_deprecated r'" "rl_digest r = rl_digest r'" "rl_changelog_url r = rl_changelog_url r'"
    using without_changelog_fields(1-4) [of r] without_changelog_fields(1-4) [of r'] r'(2) by metis+
  then have "r' \<in> set cands" using r'(1) history_shape [OF assms(1)] missing_entries_deprecated r(2) by auto
  then show ?thesis using f by blast
qed

lemma updates_offer:
  assumes sv: "semver_laws sv" and it: "is_iter iter" and ok: "updates sv iter wb answers c req = Inr out"
  shows "\<exists>nodes edges kept. fetch_graph wb c req = Inr (nodes, edges)
     \<and> rq_current_version req \<in> set (map nd_version nodes) \<and> rq_current_version req \<notin> kept
     \<and> distinct (map rl_version (filter (\<lambda>r. \<not> rl_deprecated r) out))
     \<and> set (map rl_version (filter (\<lambda>r. \<not> rl_deprecated r) out)) = insert (rq_current_version req) kept
     \<and> kept \<subseteq> direct_targets nodes edges (rq_current_version req)
     \<and> card kept = card (direct_targets nodes edges (rq_current_version req)) - nat (rq_lag req)
     \<and> (all_parse sv (map nd_version nodes) \<longrightarrow>
          (\<forall>k \<in> kept. \<forall>d \<in> direct_targets nodes edges (rq_current_version req) - kept.
             \<forall>a b. sv_parse sv k = Some a \<longrightarrow> sv_parse sv d = Some b \<longrightarrow> \<not> sv_less sv b a))
     \<and> (\<forall>r \<in> set out. \<not> rl_deprecated r \<longrightarrow> (\<exists>n \<in> set nodes. rl_version r = nd_version n
          \<and> rl_digest r = metadata n manifest_ref_key \<and> rl_changelog_url r = metadata n ''url''))"
proof -
  obtain nodes edges cands all where p: "fetch_graph wb c req = Inr (nodes, edges)"
    "graph_candidates sv iter req nodes edges = Inr cands"
    "add_release_stream_history sv wb c (rq_architecture req) (rq_current_version req) (advisory_urls (wb_url wb) nodes) cands = Inr all"
    "map without_changelog out = map without_changelog (sort_releases sv all)" "0 \<le> rq_lag req"
    by (rule updates_parts [OF ok])
  let ?v = "rq_current_version req" and ?D = "direct_targets nodes edges (rq_current_version req)"
  let ?nd = "\<lambda>r. \<not> rl_deprecated r"
  obtain kept where k: "distinct (map rl_version cands)" "set (map rl_version cands) = insert ?v kept"
    "?v \<in> set (map nd_version nodes)" "?v \<notin> kept" "kept \<subseteq> ?D" "card kept = card ?D - nat (rq_lag req)"
    "all_parse sv (map nd_version nodes) \<longrightarrow> (\<forall>k \<in> kept. \<forall>d \<in> ?D - kept.
        \<forall>a b. sv_parse sv k = Some a \<longrightarrow> sv_parse sv d = Some b \<longrightarrow> \<not> sv_less sv b a)"
    "\<forall>r \<in> set cands. \<exists>n \<in> set nodes. r = release_from_node n"
    by (rule graph_candidates_kept [OF sv it p(2,5)])
  have "\<forall>r \<in> set cands. \<not> rl_deprecated r" using k(8) release_from_node_fields(2) by metis
  then have elig: "mset (map rl_version (filter ?nd out)) = mset (map rl_version cands)"
    by (rule offered_versions(1) [OF p(3,4)])
  have last: "\<exists>n \<in> set nodes. rl_version r = nd_version n \<and> rl_digest r = metadata n manifest_ref_key
      \<and> rl_changelog_url r = metadata n ''url''" if "r \<in> set out" "\<not> rl_deprecated r" for r
    using offered_candidate [OF p(3,4) that] k(8) by (fastforce simp: release_from_node_def)
  show ?thesis
  proof (intro exI conjI)
    show "fetch_graph wb c req = Inr (nodes, edges)" by (rule p(1))
    show "distinct (map rl_version (filter ?nd out))" using k(1) mset_eq_imp_distinct_iff [OF elig] by blast
    show "set (map rl_version (filter ?nd out)) = insert ?v kept" using mset_eq_setD [OF elig] k(2) by simp
  qed (use k last in blast)+
qed

text \<open>
  C37: Which releases an update lookup offers. In a successful answer the releases that are not marked
  deprecated are the installed version and versions that one unconditional edge of the graph leads to
  from it, each once, with the digest and the advisory link of their nodes. The lag leaves out exactly
  that many of the direct targets (all of them if there are no more), and of versions that parse none
  that is left out precedes one that is kept. Nothing else is eligible.
\<close>

theorem updates_eligible:
  assumes sv: "semver_laws sv" and it: "is_iter iter" and ok: "updates sv iter wb answers c req = Inr out"
  shows "\<exists>nodes edges kept. fetch_graph wb c req = Inr (nodes, edges)
     \<and> rq_current_version req \<in> set (map nd_version nodes) \<and> rq_current_version req \<notin> kept
     \<and> distinct (map rl_version (filter (\<lambda>r. \<not> rl_deprecated r) out))
     \<and> set (map rl_version (filter (\<lambda>r. \<not> rl_deprecated r) out)) = insert (rq_current_version req) kept
     \<and> kept \<subseteq> direct_targets nodes edges (rq_current_version req)
     \<and> card kept = card (direct_targets nodes edges (rq_current_version req)) - nat (rq_lag req)
     \<and> (all_parse sv (map nd_version nodes) \<longrightarrow>
          (\<forall>k \<in> kept. \<forall>d \<in> direct_targets nodes edges (rq_current_version req) - kept.
             \<forall>a b. sv_parse sv k = Some a \<longrightarrow> sv_parse sv d = Some b \<longrightarrow> \<not> sv_less sv b a))
     \<and> (\<forall>r \<in> set out. \<not> rl_deprecated r \<longrightarrow> (\<exists>n \<in> set nodes. rl_version r = nd_version n
          \<and> rl_digest r = metadata n manifest_ref_key \<and> rl_changelog_url r = metadata n ''url''))"
  by (rule updates_offer [OF assms])

section \<open>The release stream\<close>

text \<open>An accepted stable version in the half-open range after \<open>f\<close> up to \<open>t\<close>.\<close>

definition stream_version :: "'v semver \<Rightarrow> tag list \<Rightarrow> string \<Rightarrow> 'v \<Rightarrow> bool" where
  "stream_version sv tags v w \<longleftrightarrow>
     \<lparr>tg_name = v, tg_phase = ''Accepted''\<rparr> \<in> set tags \<and> sv_parse sv v = Some w \<and> sv_prerelease sv w = []"

lemma accepted_versions:
  "v \<in> tg_name ` set (filter (accepted_tag sv) tags) \<longleftrightarrow> (\<exists>w. stream_version sv tags v w)"
proof
  assume "v \<in> tg_name ` set (filter (accepted_tag sv) tags)"
  then obtain tg where tg: "tg \<in> set tags" "accepted_tag sv tg" "v = tg_name tg" by auto
  have "tg = \<lparr>tg_name = v, tg_phase = ''Accepted''\<rparr>" using tg(2,3) by (cases tg) (simp add: accepted_tag_def)
  then have "\<lparr>tg_name = v, tg_phase = ''Accepted''\<rparr> \<in> set tags" using tg(1) by simp
  then show "\<exists>w. stream_version sv tags v w"
    using tg unfolding stream_version_def accepted_tag_def by (auto split: option.splits)
next
  assume "\<exists>w. stream_version sv tags v w"
  then obtain w where w: "stream_version sv tags v w" by blast
  then have "\<lparr>tg_name = v, tg_phase = ''Accepted''\<rparr> \<in> set (filter (accepted_tag sv) tags)"
    by (simp add: stream_version_def accepted_tag_def)
  then show "v \<in> tg_name ` set (filter (accepted_tag sv) tags)" by (rule rev_image_eqI) simp
qed

lemma stream_releases_set:
  assumes "sv_parse sv from_version = Some f"
  shows "v \<in> set (stream_releases_between sv tags from_version to_version) \<longleftrightarrow>
     (\<exists>t w. sv_parse sv to_version = Some t \<and> sv_less sv f t \<and> stream_version sv tags v w \<and> sv_less sv f w \<and> \<not> sv_less sv t w)"
proof (cases "sv_parse sv to_version")
  case None
  then show ?thesis by (simp add: stream_releases_between_def assms)
next
  case (Some t)
  have "v \<in> set (sort_slice (parsed_less sv) (map tg_name (filter (accepted_tag sv) tags))) \<longleftrightarrow> (\<exists>w. stream_version sv tags v w)"
    using accepted_versions [of v sv tags] by (simp add: sort_facts del: set_filter)
  then show ?thesis
    by (auto simp: stream_releases_between_def assms Some stream_version_def split: option.splits)
qed

lemma stream_releases_parse: "v \<in> set (stream_releases_between sv tags from_version to_version) \<Longrightarrow> sv_parse sv from_version \<noteq> None"
  by (cases "sv_parse sv from_version") (auto simp: stream_releases_between_def)

text \<open>When the first version parses, \<open>latestVersion\<close> is a greatest version of those that parse.\<close>

lemma latest_from_max:
  assumes sv: "semver_laws sv" and "sv_parse sv latest = Some a"
  shows "\<exists>m. sv_parse sv (latest_from sv latest rs) = Some m \<and> \<not> sv_less sv m a
     \<and> latest_from sv latest rs \<in> insert latest (rl_version ` set rs)
     \<and> (\<forall>r \<in> set rs. \<forall>b. sv_parse sv (rl_version r) = Some b \<longrightarrow> \<not> sv_less sv m b)"
  using assms(2)
proof (induction rs arbitrary: latest a)
  case Nil
  then show ?case using weak_order.irrefl [OF semver_laws.less_order [OF sv]] by simp
next
  case (Cons r rs)
  note wo = semver_laws.less_order [OF sv]
  show ?case
  proof (cases "parsed_less sv latest (rl_version r)")
    case True
    then obtain b where b: "sv_parse sv (rl_version r) = Some b" "sv_less sv a b"
      using Cons.prems by (auto simp: parsed_less_def split: option.splits)
    obtain m where m: "sv_parse sv (latest_from sv (rl_version r) rs) = Some m" "\<not> sv_less sv m b"
      "latest_from sv (rl_version r) rs \<in> insert (rl_version r) (rl_version ` set rs)"
      "\<forall>r \<in> set rs. \<forall>b. sv_parse sv (rl_version r) = Some b \<longrightarrow> \<not> sv_less sv m b"
      using Cons.IH [OF b(1)] by blast
    have "\<not> sv_less sv m a" using m(2) b(2) weak_order.trans [OF wo] by blast
    then show ?thesis using True m b(1) by auto
  next
    case False
    obtain m where m: "sv_parse sv (latest_from sv latest rs) = Some m" "\<not> sv_less sv m a"
      "latest_from sv latest rs \<in> insert latest (rl_version ` set rs)"
      "\<forall>r \<in> set rs. \<forall>b. sv_parse sv (rl_version r) = Some b \<longrightarrow> \<not> sv_less sv m b"
      using Cons.IH [OF Cons.prems] by blast
    have "\<not> sv_less sv m b" if "sv_parse sv (rl_version r) = Some b" for b
      using False Cons.prems that m(2) weak_order.ntrans [OF wo] by (auto simp: parsed_less_def)
    then show ?thesis using False m by auto
  qed
qed

lemma missing_entries_versions: "map rl_version (missing_entries known urls entries) = filter (\<lambda>v. v \<notin> set known) entries"
  by (simp add: missing_entries_def comp_def)

lemma stream_range:
  assumes sv: "semver_laws sv" and cur: "sv_parse sv cur = Some f" and hd: "rl_version r0 = cur"
  shows "set (stream_releases_between sv tags cur (latest_version sv (r0 # rs))) =
     {v. \<exists>w k b. stream_version sv tags v w \<and> sv_less sv f w \<and> k \<in> set (map rl_version (r0 # rs))
              \<and> sv_parse sv k = Some b \<and> \<not> sv_less sv b w}" (is "set ?entries = ?R")
proof -
  note wo = semver_laws.less_order [OF sv]
  let ?latest = "latest_version sv (r0 # rs)"
  obtain m where m: "sv_parse sv ?latest = Some m" "?latest \<in> rl_version ` set (r0 # rs)"
    "\<forall>r \<in> set (r0 # rs). \<forall>b. sv_parse sv (rl_version r) = Some b \<longrightarrow> \<not> sv_less sv m b"
    using latest_from_max [OF sv cur, of rs] hd cur unfolding latest_version_def by auto
  show ?thesis
  proof
    show "set ?entries \<subseteq> ?R"
    proof
      fix v assume "v \<in> set ?entries"
      then obtain w where "stream_version sv tags v w" "sv_less sv f w" "\<not> sv_less sv m w"
        unfolding stream_releases_set [OF cur] using m(1) by auto
      moreover have "?latest \<in> set (map rl_version (r0 # rs))" using m(2) by simp
      ultimately show "v \<in> ?R" using m(1) by blast
    qed
    show "?R \<subseteq> set ?entries"
    proof
      fix v assume "v \<in> ?R"
      then obtain w k b where v: "stream_version sv tags v w" "sv_less sv f w" "k \<in> rl_version ` set (r0 # rs)"
        "sv_parse sv k = Some b" "\<not> sv_less sv b w" by auto
      then have "\<not> sv_less sv m b" using m(3) by auto
      then have "\<not> sv_less sv m w" using v(5) weak_order.ntrans [OF wo] by blast
      then show "v \<in> set ?entries"
        unfolding stream_releases_set [OF cur] using m(1) v(1,2) weak_order.lt_ntrans [OF wo] by blast
    qed
  qed
qed

lemma history_versions:
  assumes sv: "semver_laws sv" and cur: "sv_parse sv cur = Some f" and hd: "rs \<noteq> []" "rl_version (hd rs) = cur"
    and src: "release_controller_source c arch = Some (base, stream)" "\<not> private_graph c"
    and tags: "fetch_release_controller_tags wb base stream = Inr tags"
    and all: "add_release_stream_history sv wb c arch cur urls rs = Inr all"
  shows "set (map rl_version all) = set (map rl_version rs)
     \<union> {v. \<exists>w k b. stream_version sv tags v w \<and> sv_less sv f w \<and> k \<in> set (map rl_version rs)
              \<and> sv_parse sv k = Some b \<and> \<not> sv_less sv b w}"
proof -
  let ?entries = "stream_releases_between sv tags cur (latest_version sv rs)"
  obtain r0 rs' where rs: "rs = r0 # rs'" using hd(1) by (cases rs) auto
  then have r0: "rl_version r0 = cur" using hd(2) by simp
  note range = stream_range [OF sv cur r0, of tags rs', folded rs]
  show ?thesis
  proof (cases "length rs < 2")
    case True
    then have "rs = [r0]" using rs by (cases rs') auto
    then have "latest_version sv rs = cur" using r0 by (simp add: latest_version_def)
    then have "?entries = []"
      using weak_order.irrefl [OF semver_laws.less_order [OF sv]] cur by (simp add: stream_releases_between_def)
    then show ?thesis using range all True by (auto simp: add_release_stream_history_def)
  next
    case False
    then have "all = (if ?entries = [] then rs else rs @ missing_entries (map rl_version rs) urls ?entries)"
      using all src tags by (auto simp: add_release_stream_history_def Let_def)
    then have "set (map rl_version all) = set (map rl_version rs) \<union> set ?entries"
      using missing_entries_versions [of "map rl_version rs" urls ?entries] by (auto simp del: set_map)
    then show ?thesis using range by simp
  qed
qed

text \<open>
  C39: What the release stream adds. When the stream was consulted and the installed version parses,
  the deprecated releases of a successful answer are exactly the accepted stable versions of the
  stream that are newer than the installed version, not newer than some eligible release, and not
  eligible themselves: the range documented as ending at the highest target, complete and without
  overlap. The whole answer ascends in version when all its versions parse.
\<close>

theorem stream_history:
  assumes sv: "semver_laws sv" and it: "is_iter iter" and ok: "updates sv iter wb answers c req = Inr out"
    and cur: "sv_parse sv (rq_current_version req) = Some f"
    and src: "release_controller_source c (rq_architecture req) = Some (base, stream)" "\<not> private_graph c"
    and tags: "fetch_release_controller_tags wb base stream = Inr tags"
    and elig: "eligible = set (map rl_version (filter (\<lambda>r. \<not> rl_deprecated r) out))"
  shows "set (map rl_version (filter rl_deprecated out)) =
       {v. v \<notin> eligible \<and> (\<exists>w k b. stream_version sv tags v w \<and> sv_less sv f w \<and> k \<in> eligible
              \<and> sv_parse sv k = Some b \<and> \<not> sv_less sv b w)}
     \<and> (all_parse sv (map rl_version out) \<longrightarrow> sorted_by (release_less sv) out)"
proof
  obtain nodes edges cands all where p: "fetch_graph wb c req = Inr (nodes, edges)"
    "graph_candidates sv iter req nodes edges = Inr cands"
    "add_release_stream_history sv wb c (rq_architecture req) (rq_current_version req) (advisory_urls (wb_url wb) nodes) cands = Inr all"
    "map without_changelog out = map without_changelog (sort_releases sv all)" "0 \<le> rq_lag req"
    by (rule updates_parts [OF ok])
  obtain cur ts where g: "cands = release_from_node (nodes ! cur) # apply_lag (rq_lag req) (sort_releases sv ts)"
    "nd_version (nodes ! cur) = rq_current_version req" "\<forall>r \<in> set ts. \<exists>n \<in> set nodes. r = release_from_node n"
    by (rule graph_candidates_cases [OF it p(2)])
  have plain: "\<forall>r \<in> set ts. \<not> rl_deprecated r" using g(3) release_from_node_fields(2) by metis
  have "\<forall>r \<in> set (apply_lag (rq_lag req) (sort_releases sv ts)). \<not> rl_deprecated r"
    using plain sort_releases_facts(1) [of sv ts] by (auto simp: apply_lag_def dest!: in_set_takeD split: if_splits)
  then have nd: "\<forall>r \<in> set cands. \<not> rl_deprecated r" using g(1) by simp
  note o = offered_versions [OF p(3,4) nd]
  have e: "eligible = set (map rl_version cands)" unfolding elig by (rule mset_eq_setD [OF o(1)])
  have "cands \<noteq> []" "rl_version (hd cands) = rq_current_version req" using g(1,2) by simp_all
  from history_versions [OF sv assms(4) this src tags p(3)]
  show "set (map rl_version (filter rl_deprecated out)) =
       {v. v \<notin> eligible \<and> (\<exists>w k b. stream_version sv tags v w \<and> sv_less sv f w \<and> k \<in> eligible
              \<and> sv_parse sv k = Some b \<and> \<not> sv_less sv b w)}"
    unfolding o(2) e by blast
  have v: "map rl_version out = map rl_version (sort_releases sv all)"
    using arg_cong [OF p(4), of "map rl_version"] by (simp add: comp_def)
  show "all_parse sv (map rl_version out) \<longrightarrow> sorted_by (release_less sv) out"
  proof
    assume "all_parse sv (map rl_version out)"
    then have "all_parse sv (map rl_version all)"
      using sort_releases_facts(1) [of sv all] unfolding v by (simp add: all_parse_def)
    then have "sorted_by (release_less sv) (sort_releases sv all)" by (rule semver_laws.sort_releases_sorted [OF sv])
    then show "sorted_by (release_less sv) out" unfolding sorted_by_versions v .
  qed
qed

section \<open>A concrete lookup\<close>

text \<open>Two targets, of which a lag of one keeps the lower; the stream lists a release in between.\<close>

definition ex_node :: "string \<Rightarrow> node" where
  "ex_node v = \<lparr>nd_version = v, nd_metadata = [(manifest_ref_key, ''sha256:'' @ v)]\<rparr>"

definition ex_graph :: "node list \<times> edge list" where
  "ex_graph = (map ex_node [''4.18.1'', ''4.18.5'', ''4.18.3''], [[Some 0, Some 1], [Some 0, Some 2], [Some 2, Some 1]])"

definition ex_tags :: "tag list" where
  "ex_tags = [\<lparr>tg_name = ''4.18.4'', tg_phase = ''Accepted''\<rparr>, \<lparr>tg_name = ''4.18.3-rc.1'', tg_phase = ''Accepted''\<rparr>,
     \<lparr>tg_name = ''4.18.2'', tg_phase = ''Accepted''\<rparr>, \<lparr>tg_name = ''4.18.0'', tg_phase = ''Accepted''\<rparr>,
     \<lparr>tg_name = ''4.18.1'', tg_phase = ''Rejected''\<rparr>]"

definition ex_web :: "release_web" where
  "ex_web = \<lparr>wb_http = (\<lambda>u. Response 200 ([], None)), wb_html = (\<lambda>d. Inl ''no page''), wb_url = ex_url,
     rw_set_query = (\<lambda>u q. Inr u), rw_graph = (\<lambda>d. Inr (Some (fst ex_graph), Some (snd ex_graph))), rw_tags = (\<lambda>d. Inr (Some ex_tags))\<rparr>"

definition ex_client :: client where
  "ex_client = \<lparr>oc_graph_url = [], oc_controller_url = []\<rparr>"

definition ex_query :: os_request where
  "ex_query = \<lparr>rq_channel = ''stable-4.18'', rq_architecture = ''amd64'', rq_current_version = ''4.18.1'', rq_lag = 1\<rparr>"

definition ex_offer :: "release list" where
  "ex_offer = [\<lparr>rl_version = ''4.18.1'', rl_deprecated = False, rl_changelog = [], rl_changelog_url = [], rl_digest = ''sha256:4.18.1''\<rparr>,
     \<lparr>rl_version = ''4.18.2'', rl_deprecated = True, rl_changelog = [], rl_changelog_url = [], rl_digest = []\<rparr>,
     \<lparr>rl_version = ''4.18.3'', rl_deprecated = False, rl_changelog = [], rl_changelog_url = [], rl_digest = ''sha256:4.18.3''\<rparr>]"

lemma ex_fetched:
  "fetch_graph ex_web ex_client ex_query = Inr ex_graph"
  "fetch_release_controller_tags ex_web base stream = Inr ex_tags"
  by (simp_all add: fetch_graph_def fetch_release_controller_tags_def ex_web_def decode_release_data_def read_limited_def
      success_status_def max_graph_bytes_def max_release_controller_bytes_def ex_tags_def ex_graph_def)

lemma ex_history:
  "release_controller_source ex_client ''amd64'' = Some (''https://amd64.ocp.releases.ci.openshift.org'', ''4-stable'')"
  "\<not> private_graph ex_client"
  "stream_releases_between std_semver ex_tags ''4.18.1'' ''4.18.3'' = [''4.18.2'']"
  by code_simp+

lemma ex_parts:
  "graph_candidates std_semver rev ex_query (fst ex_graph) (snd ex_graph) = Inr (map release_from_node [ex_node ''4.18.1'', ex_node ''4.18.3''])"
  "map release_from_node [ex_node ''4.18.1'', ex_node ''4.18.3''] = [ex_offer ! 0, ex_offer ! 2]"
  "latest_version std_semver [ex_offer ! 0, ex_offer ! 2] = ''4.18.3''"
  "missing_entries (map rl_version [ex_offer ! 0, ex_offer ! 2]) (advisory_urls ex_url (fst ex_graph)) [''4.18.2''] = [ex_offer ! 1]"
  "sort_releases std_semver [ex_offer ! 0, ex_offer ! 2, ex_offer ! 1] = ex_offer"
  "take 1 ex_offer @ enrich_changelogs ex_url (\<lambda>i. Inl WaitCancelled) (drop 1 ex_offer) = ex_offer"
  by code_simp+

lemma ex_updates: "updates std_semver rev ex_web (\<lambda>i. Inl WaitCancelled) ex_client ex_query = Inr ex_offer"
proof -
  have t: "trim_text (rq_channel ex_query) \<noteq> []" "trim_text (rq_architecture ex_query) \<noteq> []"
    "trim_text (rq_current_version ex_query) \<noteq> []" by code_simp+
  have f: "rq_lag ex_query = 1" "rq_architecture ex_query = ''amd64''" "rq_current_version ex_query = ''4.18.1''" "wb_url ex_web = ex_url"
    by (simp_all add: ex_query_def ex_web_def)
  obtain ns es where g: "ex_graph = (ns, es)" by (cases ex_graph)
  have h: "add_release_stream_history std_semver ex_web ex_client ''amd64'' ''4.18.1'' (advisory_urls ex_url ns) [ex_offer ! 0, ex_offer ! 2]
      = Inr ([ex_offer ! 0, ex_offer ! 2] @ [ex_offer ! 1])"
    using ex_parts(4) unfolding g
    unfolding add_release_stream_history_def by (simp add: ex_history ex_fetched ex_parts(3) Let_def)
  show ?thesis
    using t f h ex_parts(1,2,5,6) ex_fetched(1) unfolding updates_def g by (simp add: Let_def)
qed

theorem updates_eligible_witness:
  "\<exists>out. updates std_semver rev ex_web (\<lambda>i. Inl WaitCancelled) ex_client ex_query = Inr out
     \<and> card {v. \<exists>r \<in> set out. \<not> rl_deprecated r \<and> v = rl_version r} = 2"
proof -
  obtain kept where k: "rq_current_version ex_query \<notin> kept"
    "set (map rl_version (filter (\<lambda>r. \<not> rl_deprecated r) ex_offer)) = insert (rq_current_version ex_query) kept"
    using updates_eligible [OF std.semver_laws_axioms is_iter_rev ex_updates] by blast
  have "set (map rl_version (filter (\<lambda>r. \<not> rl_deprecated r) ex_offer)) = {''4.18.1'', ''4.18.3''}"
    by (simp add: ex_offer_def)
  moreover have "{v. \<exists>r \<in> set ex_offer. \<not> rl_deprecated r \<and> v = rl_version r}
      = set (map rl_version (filter (\<lambda>r. \<not> rl_deprecated r) ex_offer))" by auto
  ultimately show ?thesis using ex_updates by auto
qed

theorem stream_history_witness:
  "\<exists>out. updates std_semver rev ex_web (\<lambda>i. Inl WaitCancelled) ex_client ex_query = Inr out
     \<and> ''4.18.2'' \<in> set (map rl_version (filter rl_deprecated out)) \<and> sorted_by (release_less std_semver) out"
proof -
  have c: "sv_parse std_semver (rq_current_version ex_query) = Some (Version 4 18 1 [])" by code_simp
  have s: "release_controller_source ex_client (rq_architecture ex_query)
      = Some (''https://amd64.ocp.releases.ci.openshift.org'', ''4-stable'')" by code_simp
  have "all_parse std_semver (map rl_version ex_offer)" unfolding all_parse_def by code_simp
  then have "sorted_by (release_less std_semver) ex_offer"
    using stream_history [OF std.semver_laws_axioms is_iter_rev ex_updates c s ex_history(2) ex_fetched(2) refl] by blast
  moreover have "''4.18.2'' \<in> set (map rl_version (filter rl_deprecated ex_offer))" by (simp add: ex_offer_def)
  ultimately show ?thesis using ex_updates by blast
qed

end
