(* ===== verification/Service_OpenShift.thy ===== *)
theory Service_OpenShift
  imports Service_Api Service_Cache Openshift_Updates
begin

text \<open>
  The handler of OpenShift releases and the routing table of \<open>Handler\<close>
  (\<^verbatim>\<open>internal/service/service.go\<close>): the handler joins the service's lookups (\<open>Service_Lookup\<close>) with
  the release client (\<open>Openshift_Releases\<close>), the table joins all handlers.
\<close>

section \<open>The handler\<close>

text \<open>
  What a lookup meets: the release client's environment, the orders of its two ranges over maps, what
  the advisory goroutines get, the text of an error, and the clock when freshness is judged, when a
  result is published and when the headers are written.
\<close>

record 'v os_env =
  oe_env :: "'v env"
  oe_web :: release_web
  oe_targets :: "nat list \<Rightarrow> nat list"
  oe_entries :: "(os_request \<times> os_snapshot) list \<Rightarrow> (os_request \<times> os_snapshot) list"
  oe_answers :: "nat \<Rightarrow> changelog_error + string"
  oe_describe :: "update_error \<Rightarrow> string"
  oe_judged :: time
  oe_published :: time
  oe_now :: time

definition query_lag :: "request \<Rightarrow> int option" where
  "query_lag r =
     (if arg r ''lag'' = [] then Some 0
      else (case atoi (arg r ''lag'') of None \<Rightarrow> None | Some n \<Rightarrow> if n < 0 then None else Some n))"

definition openshift_request :: "request \<Rightarrow> response + os_request" where
  "openshift_request r =
     (let parts = path_parts (http_path r) in
      if length parts \<noteq> 4 \<or> parts ! 0 \<noteq> ''v1'' \<or> parts ! 1 \<noteq> ''openshift-releases'' \<or> parts ! 3 \<noteq> ''updates''
      then Inl (not_found [])
      else if http_method r \<noteq> ''GET'' then Inl (method_not_allowed ''GET'')
      else (case query_lag r of
        None \<Rightarrow> Inl (http_error [] ''lag must be a non-negative integer'' 400)
      | Some lag \<Rightarrow>
          (let architecture = (if arg r ''arch'' = [] then ''multi'' else arg r ''arch'');
               current = arg r ''currentVersion''
           in if current = [] then Inl (http_error [] ''currentVersion is required'' 400)
              else Inr \<lparr>rq_channel = parts ! 2, rq_architecture = architecture, rq_current_version = current, rq_lag = lag\<rparr>)))"

definition graph_client :: "string \<Rightarrow> client" where
  "graph_client url = \<lparr>oc_graph_url = url, oc_controller_url = []\<rparr>"

definition openshift_fetch :: "'v os_env \<Rightarrow> string \<Rightarrow> os_request \<Rightarrow> fetch_outcome" where
  "openshift_fetch oe url req =
     (case updates (en_semver (oe_env oe)) (oe_targets oe) (oe_web oe) (oe_answers oe) (graph_client url) req of
        Inr rs \<Rightarrow> Fetched rs
      | Inl CurrentVersionNotFound \<Rightarrow> CurrentNotFound
      | Inl e \<Rightarrow> FetchError (oe_describe oe e))"

definition changelog_link :: "'v os_env \<Rightarrow> string \<Rightarrow> os_request \<Rightarrow> release list \<Rightarrow> string" where
  "changelog_link oe url req values =
     (if 1 < length values
      then release_comparison_url (oe_web oe) (graph_client url) (rq_architecture req) (rq_current_version req)
             (rl_version (last values))
      else [])"

definition openshift_response ::
  "'v os_env \<Rightarrow> string \<Rightarrow> os_request \<Rightarrow> lookup_error + release list \<times> time \<Rightarrow> response" where
  "openshift_response oe url req res =
     (case res of
        Inl e \<Rightarrow> http_error [] ''OpenShift release data is unavailable'' 503
      | Inr (values, made) \<Rightarrow>
          write_json (snapshot_headers made (oe_now oe)) 200
            (OpenShiftBody values (''https://'' @ rq_architecture req @ ''.ocp.releases.ci.openshift.org'')
               (changelog_link oe url req values)))"

text \<open>Reading the configuration and the two parts of the lookup are critical sections of their own.\<close>

definition openshift_releases :: "'v os_env \<Rightarrow> request \<Rightarrow> service \<Rightarrow> outcome" where
  "openshift_releases oe r s =
     (case openshift_request r of
        Inl rsp \<Rightarrow> unchanged s rsp
      | Inr req \<Rightarrow>
          (let between = en_between (oe_env oe);
               s1 = between 1 s;
               url = sc_graph_url (sv_cfg s1)
           in case lookup_begin req url (between 2 s1) of (s2, h) \<Rightarrow>
             (case lookup_finish (oe_entries oe) h (openshift_fetch oe url req) (oe_judged oe) (oe_published oe)
                     (between 3 s2) of
                (s3, res) \<Rightarrow> (s3, openshift_response oe url req res, []))))"

section \<open>Routing\<close>

datatype endpoint = Healthz | Readyz | RefreshAll | CatalogV1 | OpenShiftReleases | CatalogV2 | SourceV2

text \<open>The patterns of \<open>Handler\<close>; one that ends in a slash matches every path below it.\<close>

definition patterns :: "(string \<times> endpoint) list" where
  "patterns =
     [(''/healthz'', Healthz), (''/readyz'', Readyz), (''/v1/refresh'', RefreshAll),
      (''/v1/catalogs'', CatalogV1), (''/v1/catalogs/'', CatalogV1), (''/v1/openshift-releases/'', OpenShiftReleases),
      (''/v2/catalogs'', CatalogV2), (''/v2/catalogs/'', CatalogV2), (''/v2/sources'', SourceV2), (''/v2/sources/'', SourceV2)]"

text \<open>
  \<open>ServeMux\<close> compares segment by segment, each unescaped where it can be; the empty last segment of a
  pattern stands for any rest.
\<close>

definition mux_segments :: "string \<Rightarrow> string list" where
  "mux_segments p =
     map (\<lambda>e. case path_unescape e of None \<Rightarrow> e | Some u \<Rightarrow> u) (split_on (CHR ''/'') p)"

definition pattern_matches :: "string list \<Rightarrow> string \<Rightarrow> bool" where
  "pattern_matches segs pat =
     (let ps = split_on (CHR ''/'') pat
      in if last ps = [] then length ps \<le> length segs \<and> take (length ps - 1) segs = butlast ps else segs = ps)"

text \<open>\<open>cleanPath\<close>: the clean path, with a trailing slash when there was one.\<close>

definition clean_mux_path :: "string \<Rightarrow> string" where
  "clean_mux_path p =
     (if p = [] then ''/''
      else let rooted = (if hd p = CHR ''/'' then p else CHR ''/'' # p);
               np = path_clean rooted
           in if last rooted = CHR ''/'' \<and> np \<noteq> ''/'' then np @ ''/'' else np)"

text \<open>No two patterns match the same path, so the first that matches is the one that is served.\<close>

definition route :: "request \<Rightarrow> endpoint option" where
  "route r =
     (let p = http_escaped_path r in
      if http_method r \<noteq> ''CONNECT'' \<and> clean_mux_path p \<noteq> p then None
      else map_option snd (find (\<lambda>(pat, e). pattern_matches (mux_segments p) pat) patterns))"

definition plain_ok :: response where
  "plain_ok = \<lparr>re_status = 200, re_headers = [], re_body = Empty\<rparr>"

text \<open>What is not served is answered by the mux: a redirect to the clean path, or 404.\<close>

definition serve_http :: "'v os_env \<Rightarrow> request \<Rightarrow> service \<Rightarrow> outcome" where
  "serve_http oe r s =
     (let env = oe_env oe in
      case route r of
        None \<Rightarrow> unchanged s (en_mux env r)
      | Some Healthz \<Rightarrow> unchanged s plain_ok
      | Some Readyz \<Rightarrow> unchanged s (ready_http env s)
      | Some RefreshAll \<Rightarrow> refresh_all_http env r s
      | Some CatalogV1 \<Rightarrow> catalog_v1 env r s
      | Some OpenShiftReleases \<Rightarrow> openshift_releases oe r s
      | Some CatalogV2 \<Rightarrow> catalog_v2 env r s
      | Some SourceV2 \<Rightarrow> source_v2 env r s)"

section \<open>What a request can change\<close>

text \<open>Everything but the cache of OpenShift lookups.\<close>

definition same_catalogs :: "service \<Rightarrow> service \<Rightarrow> bool" where
  "same_catalogs s s' \<longleftrightarrow>
     sv_cfg s' = sv_cfg s \<and> sv_snapshots s' = sv_snapshots s \<and> sv_statuses s' = sv_statuses s
     \<and> sv_queued s' = sv_queued s \<and> sv_running s' = sv_running s \<and> sv_generation s' = sv_generation s"

lemma lookup_begin_catalogs: "lookup_begin req url s = (s', h) \<Longrightarrow> same_catalogs s s'"
  by (auto simp: lookup_begin_def Let_def same_catalogs_def split: option.splits)

lemma evict_catalogs: "same_catalogs s (evict iter s)"
  by (simp add: evict_def same_catalogs_def split: option.split)

lemma lookup_decide_catalogs: "lookup_decide iter h out now1 now2 s = (s', res) \<Longrightarrow> same_catalogs s s'"
  using evict_catalogs [of s iter]
  by (auto simp: lookup_decide_def Let_def same_catalogs_def split: if_splits sum.splits option.splits)

lemma lookup_finish_catalogs:
  assumes "lookup_finish iter h out now1 now2 s = (s', res)"
  shows "same_catalogs s s'"
proof -
  obtain s1 where s1: "lookup_decide iter h out now1 now2 s = (s1, res)" "s' = release_lookup h s1"
    using assms by (auto simp: lookup_finish_def split: prod.splits)
  have "same_catalogs s1 (release_lookup h s1)" by (simp add: release_lookup_def Let_def same_catalogs_def)
  then show ?thesis using lookup_decide_catalogs [OF s1(1)] s1(2) by (simp add: same_catalogs_def)
qed

lemma openshift_releases_effect:
  assumes "openshift_releases oe r s = (s', rsp, threads)"
  shows "threads = [] \<and> (s' = s \<or> http_method r = ''GET''
     \<and> (\<exists>s2. same_catalogs (en_between (oe_env oe) 2 (en_between (oe_env oe) 1 s)) s2
            \<and> same_catalogs (en_between (oe_env oe) 3 s2) s'))"
proof (cases "openshift_request r")
  case (Inl e)
  then show ?thesis using assms by (simp add: openshift_releases_def unchanged_def)
next
  case (Inr req)
  then have get: "http_method r = ''GET''" by (auto simp: openshift_request_def Let_def split: if_splits)
  let ?s1 = "en_between (oe_env oe) 1 s"
  obtain s2 h where b: "lookup_begin req (sc_graph_url (sv_cfg ?s1)) (en_between (oe_env oe) 2 ?s1) = (s2, h)"
    by (cases "lookup_begin req (sc_graph_url (sv_cfg ?s1)) (en_between (oe_env oe) 2 ?s1)")
  obtain s3 res where f: "lookup_finish (oe_entries oe) h (openshift_fetch oe (sc_graph_url (sv_cfg ?s1)) req)
      (oe_judged oe) (oe_published oe) (en_between (oe_env oe) 3 s2) = (s3, res)"
    by (cases "lookup_finish (oe_entries oe) h (openshift_fetch oe (sc_graph_url (sv_cfg ?s1)) req)
      (oe_judged oe) (oe_published oe) (en_between (oe_env oe) 3 s2)")
  have "threads = []" "s' = s3" using assms Inr b f by (simp_all add: openshift_releases_def Let_def)
  then show ?thesis using get lookup_begin_catalogs [OF b] lookup_finish_catalogs [OF f] by blast
qed

lemma denied_cases:
  "denied_or_authorized env r s (s', rsp, threads) \<Longrightarrow>
     threads = [] \<and> s' \<in> {s, en_between env 1 s, en_between env 2 (en_between env 1 s)}
     \<or> http_method r = ''POST'' \<and> re_status rsp = 202 \<and> (authorized env r s \<or> authorized env r (en_between env 1 s))"
  by (auto simp: denied_or_authorized_def split: if_splits)

text \<open>
  C27: What a request can change. A request either leaves the service as the other goroutines left it
  and starts nothing, or it is an accepted refresh, a POST that carries the scheme Bearer, in any
  case, with a credential whose hash is that of the non-empty trimmed token read from the configured
  file, or it is a GET of OpenShift releases, which changes the cache of lookups only: never the
  catalogs, their statuses, the queues or the configuration. Without a token file no request starts a
  refresh.
\<close>

theorem request_effects:
  assumes "serve_http oe r s = (s', rsp, threads)"
  shows "threads = [] \<and> s' \<in> {s, en_between (oe_env oe) 1 s, en_between (oe_env oe) 2 (en_between (oe_env oe) 1 s)}
   \<or> (http_method r = ''POST'' \<and> re_status rsp = 202
      \<and> route r \<in> {Some RefreshAll, Some CatalogV1, Some CatalogV2, Some SourceV2}
      \<and> (\<exists>s0 \<in> {s, en_between (oe_env oe) 1 s}. \<exists>content scheme credential.
            sc_refresh_token_file (sv_cfg s0) \<noteq> []
            \<and> en_read_file (oe_env oe) (sc_refresh_token_file (sv_cfg s0)) = Some content \<and> trim_text content \<noteq> []
            \<and> http_authorization r = scheme @ '' '' @ credential \<and> to_lower scheme = ''bearer'' \<and> credential \<noteq> []
            \<and> en_sha (oe_env oe) credential = en_sha (oe_env oe) (trim_text content)))
   \<or> (http_method r = ''GET'' \<and> route r = Some OpenShiftReleases \<and> threads = []
      \<and> (\<exists>s2. same_catalogs (en_between (oe_env oe) 2 (en_between (oe_env oe) 1 s)) s2
            \<and> same_catalogs (en_between (oe_env oe) 3 s2) s'))"
proof -
  let ?env = "oe_env oe"
  have plain: "s' = s \<and> threads = []" if "serve_http oe r s = unchanged s x" for x
    using that assms by (simp add: unchanged_def)
  consider (fixed) "route r \<in> {None, Some Healthz, Some Readyz}" | (openshift) "route r = Some OpenShiftReleases"
    | (catalog) "route r \<in> {Some RefreshAll, Some CatalogV1, Some CatalogV2, Some SourceV2}"
    by (cases "route r"; cases "the (route r)") auto
  then show ?thesis
  proof cases
    case fixed
    then have "\<exists>x. serve_http oe r s = unchanged s x" by (auto simp: serve_http_def Let_def)
    then show ?thesis using plain by blast
  next
    case openshift
    then have "openshift_releases oe r s = (s', rsp, threads)" using assms by (simp add: serve_http_def Let_def)
    from openshift_releases_effect [OF this] show ?thesis using openshift by blast
  next
    case catalog
    then have "denied_or_authorized ?env r s (s', rsp, threads)"
      using assms refresh_all_denied [of ?env r s] catalog_v1_denied [of ?env r s] catalog_v2_denied [of ?env r s]
        source_v2_denied [of ?env r s] by (auto simp: serve_http_def Let_def)
    from denied_cases [OF this] show ?thesis using catalog unfolding authorized_def by blast
  qed
qed

section \<open>A lookup on its own\<close>

lemma lone_lookup:
  assumes b: "lookup_begin req (sc_graph_url (sv_cfg s)) s = (s2, h)" and idle: "map_of (sv_in_flight s) req = None"
    and cache: "cache_ok (sv_attempt s) (sv_os_snapshots s)" and few: "sv_attempt s + 1 < 2 ^ 64"
    and f: "lookup_finish iter h out now1 now2 s2 = (s', res)"
  shows "map_of (sv_in_flight s') req = None"
    and "fetched out = Inr values \<Longrightarrow> res = Inr (values, now2) \<and> map_of (sv_os_snapshots s') req
           = Some \<lparr>os_releases = values, os_generated_at = now2, os_attempt = sv_attempt s + 1\<rparr>"
    and "fetched out = Inl e \<Longrightarrow> sv_os_snapshots s' = sv_os_snapshots s
           \<and> res = (case map_of (sv_os_snapshots s) req of
               Some p \<Rightarrow> if snapshot_acceptable (sv_cfg s) now1 (os_generated_at p)
                         then Inr (os_releases p, os_generated_at p) else Inl (LookupFailed e)
             | None \<Rightarrow> Inl (LookupFailed e))"
proof -
  note h = lookup_begin_fields [OF b] and fresh = lookup_begin_new [OF idle b]
  have att: "lh_attempt h = sv_attempt s + 1" using few by (simp add: h(4) wrap64_def)
  have cell: "sv_heap s2 ! lh_addr h = \<lparr>lk_pending = 1, lk_latest = 0\<rparr>" by (simp add: fresh)
  obtain s1 where d: "lookup_decide iter h out now1 now2 s2 = (s1, res)" "s' = release_lookup h s1"
    using f by (auto simp: lookup_finish_def split: prod.splits)
  note df = lookup_decide_fields [OF d(1)]
  have "lk_pending (sv_heap s1 ! lh_addr h) = 1"
    unfolding df(3) using cell by (simp add: set_latest_def fresh(1) fresh(3))
  then show "map_of (sv_in_flight s') req = None"
    unfolding d(2) release_fields(4) using h(3) by simp
  show "res = Inr (values, now2) \<and> map_of (sv_os_snapshots s') req
           = Some \<lparr>os_releases = values, os_generated_at = now2, os_attempt = sv_attempt s + 1\<rparr>"
    if v: "fetched out = Inr values"
  proof -
    have "os_attempt p \<le> lh_attempt h" if "map_of (sv_os_snapshots s2) (lh_req h) = Some p" for p
      using cache map_of_SomeD [OF that] unfolding h(2) att by (fastforce simp: cache_ok_def)
    then have "publishes h out s2" using v cell by (simp add: publishes_def h)
    from lookup_decide_publish [OF this, of iter now1 now2] show ?thesis
      using v d att h(3) by (auto simp: release_fields(1))
  qed
  show "sv_os_snapshots s' = sv_os_snapshots s
           \<and> res = (case map_of (sv_os_snapshots s) req of
               Some p \<Rightarrow> if snapshot_acceptable (sv_cfg s) now1 (os_generated_at p)
                         then Inr (os_releases p, os_generated_at p) else Inl (LookupFailed e)
             | None \<Rightarrow> Inl (LookupFailed e))"
    if e: "fetched out = Inl e"
    using d e h(2,3,5,6,7,8) by (auto simp: lookup_decide_def Let_def release_fields(1) split: option.splits if_splits)
qed


text \<open>
  A blank \<open>currentVersion\<close> passes the handler's check and is refused by the client, so it is
  answered with 503 and not with 400.
\<close>

lemma blank_version_unavailable:
  assumes "openshift_request r = Inr req" and "trim_text (rq_current_version req) = []"
    and "en_between (oe_env oe) = (\<lambda>n s. s)" and "map_of (sv_in_flight s) req = None"
    and "cache_ok (sv_attempt s) (sv_os_snapshots s)" and "sv_attempt s + 1 < 2 ^ 64"
    and "map_of (sv_os_snapshots s) req = None"
  shows "re_status (fst (snd (openshift_releases oe r s))) = 503"
proof -
  let ?url = "sc_graph_url (sv_cfg s)"
  obtain s2 h where b: "lookup_begin req ?url s = (s2, h)" by (cases "lookup_begin req ?url s")
  obtain s3 res where f: "lookup_finish (oe_entries oe) h (openshift_fetch oe ?url req) (oe_judged oe) (oe_published oe) s2 = (s3, res)"
    by (cases "lookup_finish (oe_entries oe) h (openshift_fetch oe ?url req) (oe_judged oe) (oe_published oe) s2")
  have "updates (en_semver (oe_env oe)) (oe_targets oe) (oe_web oe) (oe_answers oe) (graph_client ?url) req
      \<in> {Inl ChannelRequired, Inl ArchitectureRequired, Inl CurrentVersionRequired}"
    using assms(2) by (simp add: updates_def)
  then have "\<exists>e. fetched (openshift_fetch oe ?url req) = Inl e" by (auto simp: openshift_fetch_def fetched_def)
  then have "\<exists>e. res = Inl e" using lone_lookup(3) [OF b assms(4-6) f] assms(7) by auto
  then show ?thesis using assms(1,3) b f
    by (auto simp: openshift_releases_def Let_def openshift_response_def http_error_def)
qed

section \<open>Concrete requests\<close>

definition ex_os_env :: "version os_env" where
  "ex_os_env = \<lparr>oe_env = ex_env, oe_web = ex_web, oe_targets = rev, oe_entries = (\<lambda>xs. xs),
     oe_answers = (\<lambda>i. Inl WaitCancelled), oe_describe = (\<lambda>e. []), oe_judged = 200, oe_published = 210, oe_now = 220\<rparr>"


theorem request_effects_witness:
  "\<exists>s' rsp. serve_http ex_os_env (ex_http ''POST'' [''v1'', ''refresh''] []) ex_token_service = (s', rsp, [''ops'']) \<and> re_status rsp = 202"
proof -
  let ?r = "ex_http ''POST'' [''v1'', ''refresh''] []"
  have t: "snd (snd (serve_http ex_os_env ?r ex_token_service)) = [''ops'']" by code_simp
  obtain s' rsp where r: "serve_http ex_os_env ?r ex_token_service = (s', rsp, [''ops''])"
    using t by (metis prod.collapse)
  then show ?thesis using request_effects [OF r] by blast
qed


end
