(* ===== verification/Service_Releases.thy ===== *)
theory Service_Releases
  imports Service_OpenShift
begin

text \<open>
  The lookups of the service (\<open>Service_Lookup\<close>) on top of the release client (\<open>Openshift_Updates\<close>).
  What the service needs of a client is the locale \<open>release_client\<close>; its promise is kept by the cache
  and by every answer, through overlapping lookups, reloads and refreshes. The interpretation is
  \<open>Client.Updates\<close>.
\<close>

section \<open>Served releases\<close>

text \<open>
  An answer: the configuration when it was decided, the request, the releases, when they were
  made, and the two clocks of \<open>lookup_decide\<close>.
\<close>

record answered =
  an_cfg :: service_config
  an_req :: os_request
  an_releases :: "release list"
  an_made :: time
  an_judged :: time
  an_published :: time

record served_world =
  sw_svc :: service
  sw_open :: "lookup_handle multiset"
  sw_answers :: "answered list"

definition answers_of :: "service_config \<Rightarrow> os_request \<Rightarrow> time \<Rightarrow> time \<Rightarrow> lookup_error + release list \<times> time \<Rightarrow> answered list" where
  "answers_of cfg req now1 now2 res =
     (case res of Inl e \<Rightarrow> []
      | Inr (rs, made) \<Rightarrow> [\<lparr>an_cfg = cfg, an_req = req, an_releases = rs, an_made = made, an_judged = now1, an_published = now2\<rparr>])"

text \<open>\<open>yields url req out\<close>: fetching for this request from this graph can end in this outcome.\<close>

inductive served :: "(string \<Rightarrow> os_request \<Rightarrow> fetch_outcome \<Rightarrow> bool) \<Rightarrow> served_world \<Rightarrow> bool" for yields where
  served_start: "served yields \<lparr>sw_svc = new_service cfg, sw_open = {#}, sw_answers = []\<rparr>"
| served_begin: "served yields w \<Longrightarrow> lookup_begin req url (sw_svc w) = (s', h) \<Longrightarrow>
     served yields \<lparr>sw_svc = s', sw_open = add_mset h (sw_open w), sw_answers = sw_answers w\<rparr>"
| served_finish: "served yields w \<Longrightarrow> h \<in># sw_open w \<Longrightarrow> is_iter iter \<Longrightarrow> yields (lh_url h) (lh_req h) out \<Longrightarrow>
     lookup_finish iter h out now1 now2 (sw_svc w) = (s', res) \<Longrightarrow>
     served yields \<lparr>sw_svc = s', sw_open = sw_open w - {#h#},
       sw_answers = answers_of (sv_cfg (sw_svc w)) (lh_req h) now1 now2 res @ sw_answers w\<rparr>"
| served_reload: "served yields w \<Longrightarrow> served yields (w\<lparr>sw_svc := fst (reload cfg (sw_svc w))\<rparr>)"
| served_refresh: "served yields w \<Longrightarrow> run_thread inp th sem (sw_svc w) = Some (sem', s', ths) \<Longrightarrow>
     served yields (w\<lparr>sw_svc := s'\<rparr>)"

text \<open>These are the runs of \<open>lookups\<close>, so its invariants hold of them too.\<close>

lemma served_lookups: "served yields w \<Longrightarrow> \<exists>n log. lookups n \<lparr>lw_svc = sw_svc w, lw_open = sw_open w, lw_log = log\<rparr>"
proof (induction rule: served.induct)
  case (served_start cfg)
  show ?case using lookups_start [of cfg] by (simp, blast)
next
  case (served_begin w req url s' h)
  then obtain n log where "lookups n \<lparr>lw_svc = sw_svc w, lw_open = sw_open w, lw_log = log\<rparr>" by blast
  from lookups_begin [OF this] show ?case using served_begin(2) by (simp, blast)
next
  case (served_finish w h iter out now1 now2 s' res)
  then obtain n log where "lookups n \<lparr>lw_svc = sw_svc w, lw_open = sw_open w, lw_log = log\<rparr>" by blast
  from lookups_finish [OF this, of h iter out now1 now2 s' res] show ?case using served_finish(2,3,5) by (simp, blast)
next
  case (served_reload w cfg)
  then obtain n log where "lookups n \<lparr>lw_svc = sw_svc w, lw_open = sw_open w, lw_log = log\<rparr>" by blast
  from lookups_reload [OF this, of cfg] show ?case by (simp, blast)
next
  case (served_refresh w inp th sem sem' s' ths)
  then obtain n log where "lookups n \<lparr>lw_svc = sw_svc w, lw_open = sw_open w, lw_log = log\<rparr>" by blast
  from lookups_refresh [OF this, of inp th sem sem' s' ths] show ?case using served_refresh(2) by (simp, blast)
qed

section \<open>What the sections do to the cache\<close>

lemma evict_keeps: "map_of (sv_os_snapshots (evict iter s)) r = Some p \<Longrightarrow> map_of (sv_os_snapshots s) r = Some p"
  by (auto simp: evict_def AList.delete_conv split: option.splits if_splits)

lemma room_keeps: "map_of (sv_os_snapshots (room iter req s)) r = Some p \<Longrightarrow> map_of (sv_os_snapshots s) r = Some p"
  using evict_keeps [of iter s r p] by (auto simp: room_def split: if_splits)

lemma run_thread_cfg: "run_thread inp th sem s = Some (sem', s', ths) \<Longrightarrow>
  sv_cfg s' = sv_cfg s \<and> sv_os_snapshots s' = sv_os_snapshots s"
  by (cases th; cases inp)
    (auto simp: on_go_def mark_attempt_def mark_failure_def publish_def finish_queued_def queue_refresh_def
      begin_queued_def end_queued_def stop_refreshing_def Let_def split: if_splits prod.splits option.splits list.splits)

section \<open>The interface of the release client\<close>

locale release_client =
  fixes yields :: "string \<Rightarrow> os_request \<Rightarrow> fetch_outcome \<Rightarrow> bool"
    and promise :: "string \<Rightarrow> os_request \<Rightarrow> release list \<Rightarrow> bool"
  assumes yields_promise: "yields url req out \<Longrightarrow> fetched out = Inr rs \<Longrightarrow> promise url req rs"
begin

definition cache_promise :: "service \<Rightarrow> bool" where
  "cache_promise s \<longleftrightarrow>
     (\<forall>req p. map_of (sv_os_snapshots s) req = Some p \<longrightarrow> promise (sc_graph_url (sv_cfg s)) req (os_releases p))"

definition answer_promise :: "answered \<Rightarrow> bool" where
  "answer_promise a \<longleftrightarrow> promise (sc_graph_url (an_cfg a)) (an_req a) (an_releases a)
     \<and> (an_made a = an_published a \<or> snapshot_acceptable (an_cfg a) (an_judged a) (an_made a))"

lemma finish_promise:
  assumes "cache_promise s" and "yields (lh_url h) (lh_req h) out" and "lookup_finish iter h out now1 now2 s = (s', res)"
  shows "cache_promise s' \<and> (\<forall>a \<in> set (answers_of (sv_cfg s) (lh_req h) now1 now2 res). answer_promise a)"
proof -
  obtain s1 where d: "lookup_decide iter h out now1 now2 s = (s1, res)" "s' = release_lookup h s1"
    using assms(3) by (auto simp: lookup_finish_def split: prod.splits)
  have s': "sv_os_snapshots s' = sv_os_snapshots s1" "sv_cfg s' = sv_cfg s1"
    by (simp_all add: d(2) release_lookup_def Let_def)
  have cfg: "sv_cfg s1 = sv_cfg s" using lookup_decide_catalogs [OF d(1)] by (simp add: same_catalogs_def)
  show ?thesis
  proof (cases "publishes h out s")
    case True
    obtain rs where rs: "fetched out = Inr rs" "res = Inr (rs, now2)"
      "sv_os_snapshots s1 = AList.update (lh_req h) \<lparr>os_releases = rs, os_generated_at = now2, os_attempt = lh_attempt h\<rparr>
         (sv_os_snapshots (room iter (lh_req h) s))"
      using lookup_decide_publish [OF True, of iter now1 now2] d(1) by auto
    have p: "promise (sc_graph_url (sv_cfg s)) (lh_req h) rs"
      using yields_promise [OF assms(2) rs(1)] True by (simp add: publishes_def)
    have "cache_promise s'"
      using p assms(1) room_keeps [of iter "lh_req h" s] unfolding cache_promise_def s' cfg rs(3)
      by (auto simp: AList.update_conv')
    then show ?thesis using p rs(2) by (simp add: answers_of_def answer_promise_def)
  next
    case False
    then have s1: "s1 = s" using lookup_decide_quiet [OF False, of iter now1 now2] d by simp
    have "answer_promise a" if "a \<in> set (answers_of (sv_cfg s) (lh_req h) now1 now2 res)" for a
      using d(1) that False assms(1) unfolding s1
      by (auto simp: lookup_decide_def publishes_def Let_def answers_of_def answer_promise_def cache_promise_def
          split: if_splits sum.splits option.splits)
    then show ?thesis using assms(1) s1 s' by (simp add: cache_promise_def)
  qed
qed

lemma served_promise: "served yields w \<Longrightarrow> cache_promise (sw_svc w) \<and> (\<forall>a \<in> set (sw_answers w). answer_promise a)"
proof (induction rule: served.induct)
  case (served_start cfg)
  show ?case by (simp add: cache_promise_def new_service_def)
next
  case (served_begin w req url s' h)
  have "sv_os_snapshots s' = sv_os_snapshots (sw_svc w)" using lookup_begin_fields [OF served_begin(2)] by simp
  moreover have "sv_cfg s' = sv_cfg (sw_svc w)"
    using lookup_begin_catalogs [OF served_begin(2)] by (simp add: same_catalogs_def)
  ultimately show ?case using served_begin.IH by (simp add: cache_promise_def)
next
  case (served_finish w h iter out now1 now2 s' res)
  then show ?case using finish_promise [OF _ served_finish(4,5)] by auto
next
  case (served_reload w cfg)
  then show ?case by (auto simp: cache_promise_def reload_def Let_def)
next
  case (served_refresh w inp th sem sem' s' ths)
  then show ?case using run_thread_cfg [OF served_refresh(2)] by (simp add: cache_promise_def)
qed

end

section \<open>The client of the service\<close>

text \<open>What \<open>openshift_fetch\<close> can give at some moment, and what \<open>Client.Updates\<close> promises of a list.\<close>

definition client_yields :: "'v semver \<Rightarrow> string \<Rightarrow> os_request \<Rightarrow> fetch_outcome \<Rightarrow> bool" where
  "client_yields sv url req out \<longleftrightarrow>
     (\<exists>oe. en_semver (oe_env oe) = sv \<and> is_iter (oe_targets oe) \<and> out = openshift_fetch oe url req)"

definition update_result :: "'v semver \<Rightarrow> string \<Rightarrow> os_request \<Rightarrow> release list \<Rightarrow> bool" where
  "update_result sv url req rs \<longleftrightarrow>
     (\<exists>iter (wb :: release_web) answers. is_iter iter
        \<and> (updates sv iter wb answers (graph_client url) req = Inr rs
           \<or> updates sv iter wb answers (graph_client url) req = Inl CurrentVersionNotFound \<and> rs = []))"

lemma openshift_fetch_fetched:
  "fetched (openshift_fetch oe url req) = Inr rs \<Longrightarrow>
     (let u = updates (en_semver (oe_env oe)) (oe_targets oe) (oe_web oe) (oe_answers oe) (graph_client url) req
      in u = Inr rs \<or> u = Inl CurrentVersionNotFound \<and> rs = [])"
  by (simp add: openshift_fetch_def fetched_def Let_def split: sum.splits update_error.splits)

lemma client_keeps:
  assumes "client_yields sv url req out" and "fetched out = Inr rs"
  shows "update_result sv url req rs"
proof -
  obtain oe :: "'a os_env" where oe: "en_semver (oe_env oe) = sv" "is_iter (oe_targets oe)" "out = openshift_fetch oe url req"
    using assms(1) unfolding client_yields_def by blast
  from openshift_fetch_fetched [OF assms(2) [unfolded oe(3)]] show ?thesis
    using oe(2) unfolding oe(1) update_result_def Let_def by blast
qed

interpretation graph: release_client "client_yields sv" "update_result sv" for sv
  by unfold_locales (rule client_keeps)

lemma update_result_shape:
  assumes "semver_laws sv" and "update_result sv url req rs" and "rs \<noteq> []"
  shows "distinct (map rl_version (filter (\<lambda>r. \<not> rl_deprecated r) rs))
    \<and> (\<exists>r \<in> set rs. \<not> rl_deprecated r \<and> rl_version r = rq_current_version req)"
proof -
  obtain iter and wb :: release_web and answers where u: "is_iter iter" "updates sv iter wb answers (graph_client url) req = Inr rs"
    using assms(2,3) by (auto simp: update_result_def)
  let ?elig = "filter (\<lambda>r. \<not> rl_deprecated r) rs"
  obtain kept where k: "distinct (map rl_version ?elig)" "set (map rl_version ?elig) = insert (rq_current_version req) kept"
    using updates_offer [OF assms(1) u] by blast
  then have "rq_current_version req \<in> rl_version ` set ?elig" by simp
  then show ?thesis using k(1) by auto
qed

text \<open>
  C38: What clients are ever given. Through any interleaving of lookups, reloads and refreshes, every
  list of releases in the cache is a complete result of \<open>Client.Updates\<close> for exactly the request it is
  stored under, from the graph that is configured now; and every list a lookup was ever answered with
  is one for exactly its request, from the graph configured at that moment, and was published by this
  lookup or was within the accepted age. Such a list is empty or has the installed version in it, not
  deprecated, and no eligible version twice.
\<close>

theorem served_releases:
  assumes "semver_laws sv" and "served (client_yields sv) w"
  shows "(\<forall>req p. map_of (sv_os_snapshots (sw_svc w)) req = Some p \<longrightarrow>
        update_result sv (sc_graph_url (sv_cfg (sw_svc w))) req (os_releases p))
   \<and> (\<forall>a \<in> set (sw_answers w). update_result sv (sc_graph_url (an_cfg a)) (an_req a) (an_releases a)
        \<and> (an_made a = an_published a \<or> snapshot_acceptable (an_cfg a) (an_judged a) (an_made a))
        \<and> (an_releases a = []
           \<or> distinct (map rl_version (filter (\<lambda>r. \<not> rl_deprecated r) (an_releases a)))
             \<and> (\<exists>r \<in> set (an_releases a). \<not> rl_deprecated r \<and> rl_version r = rq_current_version (an_req a))))"
  using graph.served_promise [OF assms(2)] update_result_shape [OF assms(1)]
  unfolding graph.cache_promise_def graph.answer_promise_def by blast

section \<open>A lookup that is served\<close>

theorem served_releases_witness:
  "\<exists>w a. served (client_yields std_semver) w \<and> sw_answers w = [a] \<and> an_releases a = ex_offer
     \<and> update_result std_semver (sc_graph_url (an_cfg a)) ex_query ex_offer"
proof -
  let ?w0 = "\<lparr>sw_svc = Service_Cache.ex_service, sw_open = {#}, sw_answers = []\<rparr>"
  obtain s1 h where b: "lookup_begin ex_query [] Service_Cache.ex_service = (s1, h)"
    by (cases "lookup_begin ex_query [] Service_Cache.ex_service")
  obtain s2 res where f: "lookup_finish (\<lambda>xs. xs) h (openshift_fetch ex_os_env [] ex_query) 200 210 s1 = (s2, res)"
    by (cases "lookup_finish (\<lambda>xs. xs) h (openshift_fetch ex_os_env [] ex_query) 200 210 s1")
  have h: "lh_req h = ex_query" "lh_url h = []" using lookup_begin_fields [OF b] by simp_all
  have e: "sv_in_flight Service_Cache.ex_service = []" "sv_os_snapshots Service_Cache.ex_service = []"
    "sv_attempt Service_Cache.ex_service = 0" "sc_graph_url (sv_cfg Service_Cache.ex_service) = []"
    by (simp_all add: ex_service_def new_service_def ex_cfg_def)
  have out: "fetched (openshift_fetch ex_os_env [] ex_query) = Inr ex_offer"
    using ex_updates by (simp add: openshift_fetch_def fetched_def ex_os_env_def ex_env_def graph_client_def ex_client_def)
  have "cache_ok (sv_attempt Service_Cache.ex_service) (sv_os_snapshots Service_Cache.ex_service)" by (simp add: e cache_ok_def)
  then have res: "res = Inr (ex_offer, 210)"
    using lone_lookup(2) [of ex_query Service_Cache.ex_service s1 h, unfolded e(4), OF b _ _ _ f out] e by simp
  have "served (client_yields std_semver) ?w0" unfolding ex_service_def by (rule served_start)
  then have 1: "served (client_yields std_semver) \<lparr>sw_svc = s1, sw_open = {#h#}, sw_answers = []\<rparr>"
    using served_begin [of _ ?w0 ex_query "[]" s1 h] b by simp
  have y: "client_yields std_semver (lh_url h) (lh_req h) (openshift_fetch ex_os_env [] ex_query)"
    unfolding h client_yields_def by (intro exI [of _ ex_os_env]) (simp add: ex_os_env_def ex_env_def is_iter_rev)
  let ?w = "\<lparr>sw_svc = s2, sw_open = {#}, sw_answers = answers_of (sv_cfg s1) ex_query 200 210 res\<rparr>"
  have w: "served (client_yields std_semver) ?w"
    using served_finish [OF 1 _ is_iter_id y, of 200 210 s2 res] f h(1) by simp
  have a: "answers_of (sv_cfg s1) ex_query 200 210 res = [\<lparr>an_cfg = sv_cfg s1, an_req = ex_query, an_releases = ex_offer,
      an_made = 210, an_judged = 200, an_published = 210\<rparr>]"
    by (simp add: answers_of_def res)
  let ?a = "\<lparr>an_cfg = sv_cfg s1, an_req = ex_query, an_releases = ex_offer, an_made = 210, an_judged = 200, an_published = 210\<rparr>"
  have "update_result std_semver (sc_graph_url (an_cfg ?a)) ex_query ex_offer"
    using served_releases [OF std.semver_laws_axioms w] by (simp add: a)
  then show ?thesis using w by (intro exI [of _ ?w] exI [of _ ?a]) (simp add: a)
qed

end
