(* ===== verification/Openshift_Enrich.thy ===== *)
theory Openshift_Enrich
  imports Openshift_Cache
begin

text \<open>
  The goroutines of \<open>enrichChangelogs\<close> in \<^verbatim>\<open>internal/openshift/changelog.go\<close>: one for each release with
  an advisory, at most four of one call at work at a time, all of them on the shared cache. The model is a
  step relation over the goroutines of any number of calls. It refines the protocol of the cache
  (\<open>Openshift_Cache\<close>), it always comes to its end, and its end is the functional \<open>fill_changelogs\<close>.
\<close>

section \<open>Goroutines\<close>

definition changelog_concurrency :: nat where
  "changelog_concurrency = 4"

text \<open>
  Before the semaphore (started or not yet), with a slot before the cache, fetching, waiting for the
  goroutine that fetches, with an answer that is not stored yet, at the end with the answer it had; and
  a release that has no goroutine.
\<close>

datatype phase =
    Queued
  | Holding
  | Leading leader
  | Awaiting nat
  | Answered "changelog_error + string"
  | Ended "changelog_error + string"
  | NoTask

text \<open>
  One element of a slice of releases: the call it belongs to, the release as it was handed in, the
  release now, and its goroutine.
\<close>

record task =
  tk_group :: nat
  tk_given :: release
  tk_release :: release
  tk_phase :: phase

fun holds_slot :: "phase \<Rightarrow> bool" where
  "holds_slot Holding = True"
| "holds_slot (Leading l) = True"
| "holds_slot (Awaiting call) = True"
| "holds_slot (Answered res) = True"
| "holds_slot _ = False"

definition slots_used :: "nat \<Rightarrow> task list \<Rightarrow> nat" where
  "slots_used g ts = length (filter (\<lambda>t. tk_group t = g \<and> holds_slot (tk_phase t)) ts)"

definition task_key :: "(string \<Rightarrow> url option) \<Rightarrow> string \<Rightarrow> task \<Rightarrow> string" where
  "task_key parse errata t =
     (case advisory_id_from_url parse (rl_changelog_url (tk_given t)) of None \<Rightarrow> [] | Some i \<Rightarrow> changelog_key errata i)"

definition new_task :: "(string \<Rightarrow> url option) \<Rightarrow> nat \<Rightarrow> release \<Rightarrow> task" where
  "new_task parse g r = \<lparr>tk_group = g, tk_given = r, tk_release = r,
     tk_phase = (case advisory_id_from_url parse (rl_changelog_url r) of None \<Rightarrow> NoTask | Some i \<Rightarrow> Queued)\<rparr>"

definition store_answer :: "changelog_error + string \<Rightarrow> release \<Rightarrow> release" where
  "store_answer res r = (case res of Inl e \<Rightarrow> r | Inr content \<Rightarrow> r\<lparr>rl_changelog := content\<rparr>)"

text \<open>What fetching under a key can give: the page of its advisory on the web at that moment, rendered.\<close>

definition fetch_yields :: "string \<Rightarrow> string \<Rightarrow> string \<Rightarrow> bool" where
  "fetch_yields errata key content \<longleftrightarrow>
     (\<exists>wb i. key = changelog_key errata i \<and> changelog_fetch wb errata i = Inr content)"

text \<open>
  The steps of one goroutine, on the cache and with the slots of its call in use. The first group
  needs no cancelled context.
\<close>

inductive task_moves ::
  "(string \<Rightarrow> url option) \<Rightarrow> string \<Rightarrow> nat \<Rightarrow> changelog_cache \<Rightarrow> task \<Rightarrow> changelog_cache \<Rightarrow> task \<Rightarrow> bool"
  for parse errata used c t where
  acquire: "tk_phase t = Queued \<Longrightarrow> used < changelog_concurrency \<Longrightarrow>
     task_moves parse errata used c t c (t\<lparr>tk_phase := Holding\<rparr>)"
| hit: "tk_phase t = Holding \<Longrightarrow> cache_begin (task_key parse errata t) now c = (c', CacheHit content) \<Longrightarrow>
     task_moves parse errata used c t c' (t\<lparr>tk_phase := Answered (Inr content)\<rparr>)"
| await: "tk_phase t = Holding \<Longrightarrow> cache_begin (task_key parse errata t) now c = (c', WaitFor call) \<Longrightarrow>
     task_moves parse errata used c t c' (t\<lparr>tk_phase := Awaiting call\<rparr>)"
| lead: "tk_phase t = Holding \<Longrightarrow> cache_begin (task_key parse errata t) now c = (c', Lead call stale) \<Longrightarrow>
     task_moves parse errata used c t c'
       (t\<lparr>tk_phase := Leading \<lparr>ld_key = task_key parse errata t, ld_now = now, ld_stale = stale, ld_call = call\<rparr>\<rparr>)"
| fetch: "tk_phase t = Leading l \<Longrightarrow> (\<forall>content. res = Inr content \<longrightarrow> fetch_yields errata (ld_key l) content) \<Longrightarrow>
     cache_finish (ld_key l) (ld_now l) (ld_stale l) (ld_call l) res c = (c', answer) \<Longrightarrow>
     task_moves parse errata used c t c' (t\<lparr>tk_phase := Answered answer\<rparr>)"
| woken: "tk_phase t = Awaiting call \<Longrightarrow> cc_calls c ! call = Some answer \<Longrightarrow>
     task_moves parse errata used c t c (t\<lparr>tk_phase := Answered answer\<rparr>)"
| store: "tk_phase t = Answered answer \<Longrightarrow>
     task_moves parse errata used c t c (t\<lparr>tk_phase := Ended answer, tk_release := store_answer answer (tk_release t)\<rparr>)"

inductive task_cancelled :: "task \<Rightarrow> task \<Rightarrow> bool" for t where
  cancel_queued: "tk_phase t = Queued \<Longrightarrow> task_cancelled t (t\<lparr>tk_phase := Ended (Inl WaitCancelled)\<rparr>)"
| cancel_wait: "tk_phase t = Awaiting call \<Longrightarrow> task_cancelled t (t\<lparr>tk_phase := Answered (Inl WaitCancelled)\<rparr>)"

record enrich_world =
  ew_cache :: changelog_cache
  ew_tasks :: "task list"

inductive enrich_step :: "(string \<Rightarrow> url option) \<Rightarrow> string \<Rightarrow> enrich_world \<Rightarrow> enrich_world \<Rightarrow> bool" for parse errata w where
  moves: "ew_tasks w = before @ t # after \<Longrightarrow>
     task_moves parse errata (slots_used (tk_group t) (ew_tasks w)) (ew_cache w) t c' t' \<Longrightarrow>
     enrich_step parse errata w \<lparr>ew_cache = c', ew_tasks = before @ t' # after\<rparr>"
| cancels: "ew_tasks w = before @ t # after \<Longrightarrow> task_cancelled t t' \<Longrightarrow>
     enrich_step parse errata w (w\<lparr>ew_tasks := before @ t' # after\<rparr>)"

text \<open>A new call may start at any time.\<close>

inductive enrich_runs :: "(string \<Rightarrow> url option) \<Rightarrow> string \<Rightarrow> enrich_world \<Rightarrow> bool" for parse errata where
  runs_none: "enrich_runs parse errata \<lparr>ew_cache = new_changelog_cache, ew_tasks = []\<rparr>"
| runs_call: "enrich_runs parse errata w \<Longrightarrow> g \<notin> tk_group ` set (ew_tasks w) \<Longrightarrow>
     enrich_runs parse errata (w\<lparr>ew_tasks := ew_tasks w @ map (new_task parse g) rs\<rparr>)"
| runs_step: "enrich_runs parse errata w \<Longrightarrow> enrich_step parse errata w w' \<Longrightarrow> enrich_runs parse errata w'"

inductive_cases enrich_stepE: "enrich_step parse errata w w'"
inductive_cases task_movesE: "task_moves parse errata used c t c' t'"
inductive_cases task_cancelledE: "task_cancelled t t'"

definition resting :: "task \<Rightarrow> bool" where
  "resting t \<longleftrightarrow> tk_phase t = NoTask \<or> (\<exists>res. tk_phase t = Ended res)"

definition task_answer :: "task \<Rightarrow> changelog_error + string" where
  "task_answer t = (case tk_phase t of Ended res \<Rightarrow> res | _ \<Rightarrow> Inl WaitCancelled)"

definition task_slice :: "nat \<Rightarrow> enrich_world \<Rightarrow> task list" where
  "task_slice g w = filter (\<lambda>t. tk_group t = g) (ew_tasks w)"

section \<open>Work\<close>

fun phase_work :: "phase \<Rightarrow> nat" where
  "phase_work Queued = 4"
| "phase_work Holding = 3"
| "phase_work (Leading l) = 2"
| "phase_work (Awaiting call) = 2"
| "phase_work (Answered res) = 1"
| "phase_work _ = 0"

definition work :: "enrich_world \<Rightarrow> nat" where
  "work w = sum_list (map (\<lambda>t. phase_work (tk_phase t)) (ew_tasks w))"

lemma task_moves_work: "task_moves parse errata used c t c' t' \<Longrightarrow> phase_work (tk_phase t') < phase_work (tk_phase t)"
  by (erule task_movesE) simp_all

lemma task_cancelled_work: "task_cancelled t t' \<Longrightarrow> phase_work (tk_phase t') < phase_work (tk_phase t)"
  by (erule task_cancelledE) simp_all

lemma enrich_step_work: "enrich_step parse errata w w' \<Longrightarrow> work w' < work w"
  by (erule enrich_stepE) (simp_all add: work_def task_moves_work task_cancelled_work)

lemma task_fixed:
  "task_moves parse errata used c t c' t' \<Longrightarrow> tk_group t' = tk_group t \<and> tk_given t' = tk_given t"
  "task_cancelled t t' \<Longrightarrow> tk_group t' = tk_group t \<and> tk_given t' = tk_given t"
  by (erule task_movesE, simp_all) (erule task_cancelledE, simp_all)

section \<open>Slots\<close>

lemma slots_split:
  "slots_used g (before @ t # after) = slots_used g before + (if tk_group t = g \<and> holds_slot (tk_phase t) then 1 else 0) + slots_used g after"
  by (simp add: slots_used_def)

lemma slots_bound: "enrich_runs parse errata w \<Longrightarrow> slots_used g (ew_tasks w) \<le> changelog_concurrency"
proof (induction rule: enrich_runs.induct)
  case runs_none
  then show ?case by (simp add: slots_used_def)
next
  case (runs_call w g' rs)
  have "filter (\<lambda>t. tk_group t = g \<and> holds_slot (tk_phase t)) (map (new_task parse g') rs) = []"
    by (simp add: filter_empty_conv new_task_def split: option.split)
  then show ?case using runs_call.IH by (simp add: slots_used_def)
next
  case (runs_step w w')
  from runs_step(2) show ?case
  proof (cases rule: enrich_step.cases)
    case (moves before t after c' t')
    show ?thesis using moves(3) runs_step(3) unfolding moves(1,2)
      by (cases rule: task_moves.cases) (auto simp: slots_split)
  next
    case (cancels before t after t')
    show ?thesis using cancels(3) runs_step(3) unfolding cancels(1,2)
      by (cases rule: task_cancelled.cases) (auto simp: slots_split)
  qed
qed

section \<open>Every goroutine keeps its own release\<close>

definition task_ok :: "(string \<Rightarrow> url option) \<Rightarrow> string \<Rightarrow> task \<Rightarrow> bool" where
  "task_ok parse errata t \<longleftrightarrow>
     (tk_phase t = NoTask \<longleftrightarrow> advisory_id_from_url parse (rl_changelog_url (tk_given t)) = None)
     \<and> (\<forall>l. tk_phase t = Leading l \<longrightarrow> ld_key l = task_key parse errata t)
     \<and> tk_release t = (case tk_phase t of Ended res \<Rightarrow> store_answer res (tk_given t) | _ \<Rightarrow> tk_given t)"

lemma task_ok_new: "task_ok parse errata (new_task parse g r)"
  by (simp add: task_ok_def new_task_def split: option.split)

lemma task_ok_moves: "task_moves parse errata used c t c' t' \<Longrightarrow> task_ok parse errata t \<Longrightarrow> task_ok parse errata t'"
  by (erule task_movesE) (simp_all add: task_ok_def task_key_def)

lemma task_ok_cancelled: "task_cancelled t t' \<Longrightarrow> task_ok parse errata t \<Longrightarrow> task_ok parse errata t'"
  by (erule task_cancelledE) (simp_all add: task_ok_def store_answer_def)

lemma enrich_runs_tasks: "enrich_runs parse errata w \<Longrightarrow> t \<in> set (ew_tasks w) \<Longrightarrow> task_ok parse errata t"
proof (induction arbitrary: t rule: enrich_runs.induct)
  case (runs_call w g rs)
  then show ?case by (auto simp: task_ok_new)
next
  case (runs_step w w')
  from runs_step(2) show ?case
  proof (cases rule: enrich_step.cases)
    case (moves before u after c' u')
    have "task_ok parse errata u'" using task_ok_moves [OF moves(3)] runs_step(3) [of u] moves(2) by simp
    then show ?thesis using runs_step(3) [of t] runs_step(4) moves(1,2) by auto
  next
    case (cancels before u after u')
    have "task_ok parse errata u'" using task_ok_cancelled [OF cancels(3)] runs_step(3) [of u] cancels(2) by simp
    then show ?thesis using runs_step(3) [of t] runs_step(4) cancels(1,2) by auto
  qed
qed simp

section \<open>The goroutines refine the cache protocol\<close>

definition leader_of :: "task \<Rightarrow> leader option" where
  "leader_of t = (case tk_phase t of Leading l \<Rightarrow> Some l | _ \<Rightarrow> None)"

definition waiter_of :: "(string \<Rightarrow> url option) \<Rightarrow> string \<Rightarrow> task \<Rightarrow> (string \<times> nat) option" where
  "waiter_of parse errata t = (case tk_phase t of Awaiting call \<Rightarrow> Some (task_key parse errata t, call) | _ \<Rightarrow> None)"

definition answer_known :: "(string \<Rightarrow> url option) \<Rightarrow> string \<Rightarrow> (string \<times> (changelog_error + string)) list \<Rightarrow> task \<Rightarrow> bool" where
  "answer_known parse errata answers t \<longleftrightarrow>
     (\<forall>res. tk_phase t = Answered res \<or> tk_phase t = Ended res \<longrightarrow>
        (task_key parse errata t, res) \<in> set answers \<or> res = Inl WaitCancelled)"

definition enrich_sim :: "(string \<Rightarrow> url option) \<Rightarrow> string \<Rightarrow> enrich_world \<Rightarrow> cache_world \<Rightarrow> bool" where
  "enrich_sim parse errata w cw \<longleftrightarrow>
     cw_cache cw = ew_cache w
     \<and> mset (cw_leaders cw) = mset (List.map_filter leader_of (ew_tasks w))
     \<and> mset (cw_waiters cw) = mset (List.map_filter (waiter_of parse errata) (ew_tasks w))
     \<and> (\<forall>t \<in> set (ew_tasks w). answer_known parse errata (cw_answers cw) t)"

lemmas task_abs = leader_of_def waiter_of_def answer_known_def task_key_def

lemma map_filter_append [simp]: "List.map_filter f (xs @ ys) = List.map_filter f xs @ List.map_filter f ys"
  by (simp add: List.map_filter_def)

lemma map_filter_Cons: "List.map_filter f (x # xs) = (case f x of None \<Rightarrow> [] | Some y \<Rightarrow> [y]) @ List.map_filter f xs"
  by (simp add: List.map_filter_def split: option.split)

lemma answer_known_more: "answer_known parse errata answers t \<Longrightarrow> answer_known parse errata (x # answers) t"
  by (auto simp: answer_known_def)

text \<open>A waiting goroutine is among the waiters of the protocol.\<close>

lemma enrich_sim_waiter:
  assumes "enrich_sim parse errata w cw" and "ew_tasks w = before @ t # after" and "tk_phase t = Awaiting call"
  shows "(task_key parse errata t, call) \<in> set (cw_waiters cw)"
    and "mset (cw_waiters cw) = mset (List.map_filter (waiter_of parse errata) before)
       + {#(task_key parse errata t, call)#} + mset (List.map_filter (waiter_of parse errata) after)"
proof -
  show m: "mset (cw_waiters cw) = mset (List.map_filter (waiter_of parse errata) before)
       + {#(task_key parse errata t, call)#} + mset (List.map_filter (waiter_of parse errata) after)"
    using assms by (simp add: enrich_sim_def map_filter_Cons waiter_of_def)
  then show "(task_key parse errata t, call) \<in> set (cw_waiters cw)"
    by (metis in_multiset_in_set union_iff multi_member_last)
qed

text \<open>A goroutine that waits no longer, whatever it was given; a fetch that ends; the start of a lookup.\<close>

lemma enrich_sim_done:
  assumes sim: "enrich_sim parse errata w cw" and ts: "ew_tasks w = before @ t # after" and t: "tk_phase t = Awaiting call"
  shows "enrich_sim parse errata \<lparr>ew_cache = ew_cache w, ew_tasks = before @ t\<lparr>tk_phase := Answered answer\<rparr> # after\<rparr>
     (cw\<lparr>cw_waiters := remove1 (task_key parse errata t, call) (cw_waiters cw),
         cw_answers := (task_key parse errata t, answer) # cw_answers cw\<rparr>)"
proof -
  note sim' = sim [unfolded enrich_sim_def ts map_filter_append map_filter_Cons]
  have "answer_known parse errata (x # cw_answers cw) u" if "u \<in> set before \<union> set after" for u x
    using sim' that answer_known_more by auto
  then show ?thesis
    using sim' t enrich_sim_waiter(2) [OF sim ts t] by (simp add: enrich_sim_def map_filter_Cons task_abs)
qed

lemma enrich_sim_fetch:
  assumes sim: "enrich_sim parse errata w cw" and ts: "ew_tasks w = before @ t # after"
    and t: "tk_phase t = Leading l" "ld_key l = task_key parse errata t"
  shows "enrich_sim parse errata \<lparr>ew_cache = c', ew_tasks = before @ t\<lparr>tk_phase := Answered answer\<rparr> # after\<rparr>
     (cw\<lparr>cw_cache := c', cw_leaders := remove1 l (cw_leaders cw), cw_answers := (ld_key l, answer) # cw_answers cw\<rparr>)"
    and "l \<in> set (cw_leaders cw)"
proof -
  note sim' = sim [unfolded enrich_sim_def ts map_filter_append map_filter_Cons]
  have known: "answer_known parse errata (x # cw_answers cw) u" if "u \<in> set before \<union> set after" for u x
    using sim' that answer_known_more by auto
  have m: "mset (cw_leaders cw) = mset (List.map_filter leader_of before) + {#l#} + mset (List.map_filter leader_of after)"
    using sim' t by (simp add: leader_of_def)
  then show "l \<in> set (cw_leaders cw)" by (metis in_multiset_in_set union_iff multi_member_last)
  show "enrich_sim parse errata \<lparr>ew_cache = c', ew_tasks = before @ t\<lparr>tk_phase := Answered answer\<rparr> # after\<rparr>
     (cw\<lparr>cw_cache := c', cw_leaders := remove1 l (cw_leaders cw), cw_answers := (ld_key l, answer) # cw_answers cw\<rparr>)"
    using sim' t known m by (simp add: enrich_sim_def map_filter_Cons task_abs)
qed

lemma enrich_sim_begin:
  assumes sim: "enrich_sim parse errata w cw" and ts: "ew_tasks w = before @ t # after" and t: "tk_phase t = Holding"
    and b: "cache_begin (task_key parse errata t) now (ew_cache w) = (c', ans)"
  shows "\<exists>cw'. cache_step (fetch_yields errata) cw cw' \<and>
     enrich_sim parse errata \<lparr>ew_cache = c', ew_tasks = before @ t\<lparr>tk_phase := (case ans of
         CacheHit content \<Rightarrow> Answered (Inr content) | WaitFor call \<Rightarrow> Awaiting call
       | Lead call stale \<Rightarrow> Leading \<lparr>ld_key = task_key parse errata t, ld_now = now, ld_stale = stale, ld_call = call\<rparr>)\<rparr> # after\<rparr> cw'"
proof -
  let ?key = "task_key parse errata t"
  note sim' = sim [unfolded enrich_sim_def ts map_filter_append map_filter_Cons]
  have known: "answer_known parse errata (x # cw_answers cw) u" if "u \<in> set before \<union> set after" for u x
    using sim' that answer_known_more by auto
  have b': "cache_begin ?key now (cw_cache cw) = (c', ans)" using b sim' by simp
  show ?thesis
  proof (cases ans)
    case (CacheHit content)
    show ?thesis
      by (intro exI conjI, rule step_hit [OF b' [unfolded CacheHit]])
        (use sim' t known CacheHit in \<open>simp add: enrich_sim_def map_filter_Cons task_abs\<close>)
  next
    case (WaitFor call)
    show ?thesis
      by (intro exI conjI, rule step_wait [OF b' [unfolded WaitFor]])
        (use sim' t WaitFor in \<open>simp add: enrich_sim_def map_filter_Cons task_abs\<close>)
  next
    case (Lead call stale)
    show ?thesis
      by (intro exI conjI, rule step_lead [OF b' [unfolded Lead]])
        (use sim' t Lead in \<open>simp add: enrich_sim_def map_filter_Cons task_abs\<close>)
  qed
qed

lemma enrich_sim_quiet:
  assumes "enrich_sim parse errata w cw" and "ew_tasks w = before @ t # after"
    and "tk_phase t = Queued \<and> tk_phase t' \<in> {Holding, Ended (Inl WaitCancelled)}
      \<or> (\<exists>res. tk_phase t = Answered res \<and> tk_phase t' = Ended res)" and "tk_given t' = tk_given t"
  shows "enrich_sim parse errata \<lparr>ew_cache = ew_cache w, ew_tasks = before @ t' # after\<rparr> cw"
  using assms by (auto simp: enrich_sim_def map_filter_Cons task_abs)

lemma enrich_sim_moves:
  assumes sim: "enrich_sim parse errata w cw" and ts: "ew_tasks w = before @ t # after"
    and ok: "task_ok parse errata t" and m: "task_moves parse errata used (ew_cache w) t c' t'"
  shows "\<exists>cw'. enrich_sim parse errata \<lparr>ew_cache = c', ew_tasks = before @ t' # after\<rparr> cw'
     \<and> (cw' = cw \<or> cache_step (fetch_yields errata) cw cw')"
  using m
proof cases
  case acquire
  then show ?thesis using enrich_sim_quiet [OF sim ts, of t'] by auto
next
  case hit
  then show ?thesis using enrich_sim_begin [OF sim ts hit(2,3)] by auto
next
  case await
  then show ?thesis using enrich_sim_begin [OF sim ts await(2,3)] by auto
next
  case lead
  then show ?thesis using enrich_sim_begin [OF sim ts lead(2,3)] by auto
next
  case (fetch l res answer)
  have key: "ld_key l = task_key parse errata t" using ok fetch(2) by (simp add: task_ok_def)
  have c: "cw_cache cw = ew_cache w" using sim by (simp add: enrich_sim_def)
  note f = enrich_sim_fetch [OF sim ts fetch(2) key]
  show ?thesis using f(1) [of c' answer] step_finish [where yields = "fetch_yields errata", OF f(2) fetch(3) fetch(4) [folded c]] fetch(1) by blast
next
  case (woken call answer)
  have c: "cw_cache cw = ew_cache w" using sim by (simp add: enrich_sim_def)
  note s = step_done [OF enrich_sim_waiter(1) [OF sim ts woken(3)] woken(4) [folded c]]
  show ?thesis using enrich_sim_done [OF sim ts woken(3), of answer] s woken(1,2) by blast
next
  case store
  then show ?thesis using enrich_sim_quiet [OF sim ts, of t'] by auto
qed

lemma enrich_sim_cancelled:
  assumes sim: "enrich_sim parse errata w cw" and ts: "ew_tasks w = before @ t # after" and m: "task_cancelled t t'"
  shows "\<exists>cw'. enrich_sim parse errata (w\<lparr>ew_tasks := before @ t' # after\<rparr>) cw'
     \<and> (cw' = cw \<or> cache_step (fetch_yields errata) cw cw')"
proof -
  have w: "w\<lparr>ew_tasks := before @ t' # after\<rparr> = \<lparr>ew_cache = ew_cache w, ew_tasks = before @ t' # after\<rparr>" by (cases w) simp
  show ?thesis
    using m
  proof cases
    case cancel_queued
    then show ?thesis using enrich_sim_quiet [OF sim ts, of t'] unfolding w by auto
  next
    case (cancel_wait call)
    note s = step_cancel [OF enrich_sim_waiter(1) [OF sim ts cancel_wait(2)]]
    show ?thesis using enrich_sim_done [OF sim ts cancel_wait(2), of "Inl WaitCancelled"] s cancel_wait(1) unfolding w by blast
  qed
qed

lemma enrich_runs_sim: "enrich_runs parse errata w \<Longrightarrow> \<exists>cw. cache_runs (fetch_yields errata) cw \<and> enrich_sim parse errata w cw"
proof (induction rule: enrich_runs.induct)
  case runs_none
  let ?cw = "\<lparr>cw_cache = new_changelog_cache, cw_leaders = [], cw_waiters = [], cw_answers = []\<rparr>"
  have "enrich_sim parse errata \<lparr>ew_cache = new_changelog_cache, ew_tasks = []\<rparr> ?cw"
    by (simp add: enrich_sim_def List.map_filter_def)
  then show ?case using runs_start by blast
next
  case (runs_call w g rs)
  have "List.map_filter leader_of (map (new_task parse g) rs) = []"
    "List.map_filter (waiter_of parse errata) (map (new_task parse g) rs) = []"
    by (induction rs) (simp_all add: List.map_filter_def new_task_def task_abs split: option.split)
  moreover have "answer_known parse errata answers (new_task parse g r)" for answers r
    by (simp add: new_task_def answer_known_def split: option.split)
  ultimately show ?case using runs_call.IH by (auto simp: enrich_sim_def)
next
  case (runs_step w w')
  then obtain cw where cw: "cache_runs (fetch_yields errata) cw" "enrich_sim parse errata w cw" by blast
  have "\<exists>cw'. enrich_sim parse errata w' cw' \<and> (cw' = cw \<or> cache_step (fetch_yields errata) cw cw')"
    using runs_step(2)
  proof (cases rule: enrich_step.cases)
    case (moves before t after c' t')
    have "task_ok parse errata t" using enrich_runs_tasks [OF runs_step(1)] moves(2) by simp
    from enrich_sim_moves [OF cw(2) moves(2) this moves(3)] show ?thesis using moves(1) by simp
  next
    case (cancels before t after t')
    from enrich_sim_cancelled [OF cw(2) cancels(2,3)] show ?thesis using cancels(1) by simp
  qed
  then show ?case using cw(1) cache_runs.runs_step by blast
qed

section \<open>Progress\<close>

definition can_move :: "(string \<Rightarrow> url option) \<Rightarrow> string \<Rightarrow> enrich_world \<Rightarrow> bool" where
  "can_move parse errata w \<longleftrightarrow> (\<exists>before t after c' t'. ew_tasks w = before @ t # after
     \<and> task_moves parse errata (slots_used (tk_group t) (ew_tasks w)) (ew_cache w) t c' t')"

lemma can_moveI:
  assumes "t \<in> set (ew_tasks w)" and "task_moves parse errata (slots_used (tk_group t) (ew_tasks w)) (ew_cache w) t c' t'"
  shows "can_move parse errata w"
  using assms split_list [OF assms(1)] unfolding can_move_def by blast

lemma no_slots: "(\<forall>t \<in> set ts. \<not> holds_slot (tk_phase t)) \<Longrightarrow> slots_used g ts = 0"
  by (simp add: slots_used_def)

lemma leader_can_move:
  assumes "t \<in> set (ew_tasks w)" and "tk_phase t = Leading l"
  shows "can_move parse errata w"
proof -
  obtain c' answer where "cache_finish (ld_key l) (ld_now l) (ld_stale l) (ld_call l) (Inl WaitCancelled) (ew_cache w) = (c', answer)"
    by (cases "cache_finish (ld_key l) (ld_now l) (ld_stale l) (ld_call l) (Inl WaitCancelled) (ew_cache w)")
  then show ?thesis using can_moveI [OF assms(1) fetch [OF assms(2), where res = "Inl WaitCancelled"]] by simp
qed

text \<open>A waiting goroutine can take the result, or the goroutine that fetches can move.\<close>

lemma waiter_can_move:
  assumes run: "enrich_runs parse errata w" and t: "t \<in> set (ew_tasks w)" "tk_phase t = Awaiting call"
  shows "can_move parse errata w"
proof -
  obtain cw where cw: "cache_runs (fetch_yields errata) cw" "enrich_sim parse errata w cw"
    using enrich_runs_sim [OF run] by blast
  obtain before after where s: "ew_tasks w = before @ t # after" using split_list [OF t(1)] by blast
  have "(task_key parse errata t, call) \<in> set (cw_waiters cw)" by (rule enrich_sim_waiter(1) [OF cw(2) s t(2)])
  then have "case cc_calls (cw_cache cw) ! call of
      None \<Rightarrow> \<exists>l \<in> set (cw_leaders cw). ld_key l = task_key parse errata t \<and> ld_call l = call
    | Some res \<Rightarrow> good_answer (fetch_yields errata) (task_key parse errata t) res"
    using cache_runs_ok [OF cw(1)] by (auto simp: cache_world_ok_def waiters_ok_def)
  then consider answer where "cc_calls (ew_cache w) ! call = Some answer" | l where "l \<in> set (cw_leaders cw)"
    using cw(2) by (auto simp: enrich_sim_def split: option.splits)
  then show ?thesis
  proof cases
    case (1 answer)
    then show ?thesis by (rule can_moveI [OF t(1) woken [OF t(2)]])
  next
    case (2 l)
    have "set (cw_leaders cw) = set (List.map_filter leader_of (ew_tasks w))"
      by (rule mset_eq_setD) (use cw(2) in \<open>simp add: enrich_sim_def\<close>)
    then obtain v where "v \<in> set (ew_tasks w)" "leader_of v = Some l"
      using 2 by (auto simp: List.map_filter_def)
    then show ?thesis using leader_can_move by (auto simp: leader_of_def split: phase.splits)
  qed
qed

lemma enrich_progress:
  assumes run: "enrich_runs parse errata w" and t: "t \<in> set (ew_tasks w)" "\<not> resting t"
  shows "can_move parse errata w"
proof (cases "\<exists>u \<in> set (ew_tasks w). holds_slot (tk_phase u)")
  case False
  then have "tk_phase t = Queued" using t by (cases "tk_phase t") (auto simp: resting_def)
  moreover have "slots_used (tk_group t) (ew_tasks w) < changelog_concurrency"
    using False no_slots by (simp add: changelog_concurrency_def)
  ultimately show ?thesis by (rule can_moveI [OF t(1) acquire])
next
  case True
  then obtain u where u: "u \<in> set (ew_tasks w)" "holds_slot (tk_phase u)" by blast
  show ?thesis
  proof (cases "tk_phase u")
    case Holding
    obtain c' ans where b: "cache_begin (task_key parse errata u) 0 (ew_cache w) = (c', ans)"
      by (cases "cache_begin (task_key parse errata u) 0 (ew_cache w)")
    then show ?thesis
      using can_moveI [OF u(1) hit [OF Holding]] can_moveI [OF u(1) await [OF Holding]] can_moveI [OF u(1) lead [OF Holding]]
      by (cases ans) blast+
  next
    case (Answered res)
    then show ?thesis by (rule can_moveI [OF u(1) store])
  qed (use u waiter_can_move [OF run u(1)] leader_can_move [OF u(1)] in simp_all)
qed

section \<open>The result\<close>

lemma changelog_key_inj: "changelog_key errata i = changelog_key errata j \<longleftrightarrow> i = j"
  by (simp add: changelog_key_def)

lemma enrich_answer:
  assumes run: "enrich_runs parse errata w" and t: "t \<in> set (ew_tasks w)" "task_answer t = Inr content"
  shows "\<exists>wb i. advisory_id_from_url parse (rl_changelog_url (tk_given t)) = Some i \<and> changelog_fetch wb errata i = Inr content"
proof -
  obtain cw where cw: "cache_runs (fetch_yields errata) cw" "enrich_sim parse errata w cw"
    using enrich_runs_sim [OF run] by blast
  have e: "tk_phase t = Ended (Inr content)" using t(2) by (auto simp: task_answer_def split: phase.splits)
  then have "(task_key parse errata t, Inr content) \<in> set (cw_answers cw)"
    using cw(2) t(1) by (auto simp: enrich_sim_def answer_known_def)
  then have y: "fetch_yields errata (task_key parse errata t) content"
    using cache_runs_ok [OF cw(1)] by (auto simp: cache_world_ok_def good_answer_def)
  obtain i where i: "advisory_id_from_url parse (rl_changelog_url (tk_given t)) = Some i"
    using enrich_runs_tasks [OF run t(1)] e by (auto simp: task_ok_def)
  then show ?thesis using y by (auto simp: fetch_yields_def task_key_def changelog_key_inj)
qed

lemma fill_changelogs_nth:
  "i < length rs \<Longrightarrow> fill_changelogs parse answers rs ! i =
     (case advisory_id_from_url parse (rl_changelog_url (rs ! i)) of None \<Rightarrow> rs ! i | Some _ \<Rightarrow> store_answer (answers i) (rs ! i))"
  by (simp add: fill_changelogs_def nth_enumerate_eq store_answer_def split: option.split)

lemma enrich_result:
  assumes run: "enrich_runs parse errata w" and rest: "\<forall>t \<in> set (task_slice g w). resting t"
  shows "map tk_release (task_slice g w) = fill_changelogs parse (\<lambda>i. task_answer (task_slice g w ! i)) (map tk_given (task_slice g w))"
proof (rule nth_equalityI)
  fix i assume "i < length (map tk_release (task_slice g w))"
  then have i: "i < length (task_slice g w)" by simp
  let ?t = "task_slice g w ! i"
  have t: "?t \<in> set (task_slice g w)" using i by simp
  then have ok: "task_ok parse errata ?t" "resting ?t"
    using enrich_runs_tasks [OF run] rest by (auto simp: task_slice_def)
  have "tk_release ?t = (case advisory_id_from_url parse (rl_changelog_url (tk_given ?t)) of
      None \<Rightarrow> tk_given ?t | Some _ \<Rightarrow> store_answer (task_answer ?t) (tk_given ?t))"
    using ok by (auto simp: task_ok_def resting_def task_answer_def split: option.split)
  then show "map tk_release (task_slice g w) ! i = fill_changelogs parse (\<lambda>i. task_answer (task_slice g w ! i)) (map tk_given (task_slice g w)) ! i"
    using i by (simp add: fill_changelogs_nth split: option.split)
qed (simp add: fill_changelogs_def)

lemma enrich_step_all: "enrich_step parse errata w w' \<Longrightarrow> enrich_runs parse errata w \<Longrightarrow> enrich_runs parse errata w'"
  by (rule enrich_runs.runs_step)

lemma can_move_step: "can_move parse errata w \<Longrightarrow> \<exists>w'. enrich_step parse errata w w'"
  unfolding can_move_def using enrich_step.moves by blast

lemma enrich_ends:
  "enrich_runs parse errata w \<Longrightarrow>
     \<exists>w'. (enrich_step parse errata)\<^sup>*\<^sup>* w w' \<and> (\<forall>t \<in> set (ew_tasks w'). resting t)"
proof (induction "work w" arbitrary: w rule: less_induct)
  case less
  show ?case
  proof (cases "\<forall>t \<in> set (ew_tasks w). resting t")
    case False
    then obtain w' where step: "enrich_step parse errata w w'"
      using enrich_progress [OF less.prems] can_move_step by blast
    then show ?thesis
      using less.hyps [OF enrich_step_work [OF step] enrich_step_all [OF step less.prems]]
      by (blast intro: converse_rtranclp_into_rtranclp)
  qed blast
qed

lemma work_bound: "work w \<le> 4 * length (ew_tasks w)"
proof -
  have "phase_work p \<le> 4" for p by (cases p) simp_all
  then have "work w \<le> sum_list (map (\<lambda>t. 4) (ew_tasks w))" unfolding work_def by (rule sum_list_mono)
  then show ?thesis by (simp add: sum_list_triv)
qed

text \<open>
  C36: The goroutines that fetch release notes. Whatever the interleaving and however many calls share
  the cache, at most four goroutines of one call are past its semaphore at a time. As long as one has
  not ended, one can move without any context being cancelled; every step lowers a bound of four steps
  for each release, so no run goes on for ever, and every run can be brought to the end of all its
  goroutines. When the goroutines of a call have ended, its slice of releases is what the functional
  \<open>fill_changelogs\<close> makes of their answers, each at its own index; and every summary in an answer was
  rendered from a page that was fetched for the advisory in that release's own link.
\<close>

theorem enrichment_ends:
  assumes run: "enrich_runs parse errata w"
  shows "(\<forall>g. slots_used g (ew_tasks w) \<le> 4)
   \<and> ((\<exists>t \<in> set (ew_tasks w). \<not> resting t) \<longrightarrow> can_move parse errata w)
   \<and> (\<forall>w'. enrich_step parse errata w w' \<longrightarrow> work w' < work w) \<and> work w \<le> 4 * length (ew_tasks w)
   \<and> (\<exists>w'. (enrich_step parse errata)\<^sup>*\<^sup>* w w' \<and> (\<forall>t \<in> set (ew_tasks w'). resting t))
   \<and> (\<forall>g. (\<forall>t \<in> set (task_slice g w). resting t) \<longrightarrow>
        map tk_release (task_slice g w) = fill_changelogs parse (\<lambda>i. task_answer (task_slice g w ! i)) (map tk_given (task_slice g w)))
   \<and> (\<forall>t \<in> set (ew_tasks w). \<forall>content. task_answer t = Inr content \<longrightarrow>
        (\<exists>wb i. advisory_id_from_url parse (rl_changelog_url (tk_given t)) = Some i \<and> changelog_fetch wb errata i = Inr content))"
  using slots_bound [OF run] enrich_progress [OF run] enrich_step_work work_bound [of w] enrich_ends [OF run]
    enrich_result [OF run] enrich_answer [OF run]
  unfolding changelog_concurrency_def by blast

section \<open>A sample run\<close>

definition ex_errata_web :: web where
  "ex_errata_web = \<lparr>wb_http = (\<lambda>u. Response 200 (''page'', None)), wb_html = (\<lambda>page. Inr ex_page), wb_url = ex_url\<rparr>"

abbreviation ex_id :: string where
  "ex_id \<equiv> ''RHSA-2026:1234''"

lemma ex_fetch: "\<exists>content. changelog_fetch ex_errata_web [] ex_id = Inr content"
proof -
  have "errata_base [] = default_errata_url" by (simp add: errata_base_def trim_right_def)
  moreover have "default_errata_url @ CHR ''/'' # ex_id = ''https://access.redhat.com/errata/RHSA-2026:1234''"
    by (simp add: default_errata_url_def)
  then have "\<exists>a. parse_advisory_html ex_url (Inr ex_page) (default_errata_url @ CHR ''/'' # ex_id) = Inr a \<and> ad_id a = ex_id"
    using ex_parsed by (simp only:) simp
  ultimately show ?thesis
    by (auto simp: changelog_fetch_def fetch_changelog_def ex_errata_web_def success_status_def read_limited_def max_errata_bytes_def)
qed

definition ex_noted :: release where
  "ex_noted = ex_release ''4.18.2'' ''https://access.redhat.com/errata/RHSA-2026:1234''"

lemma ex_noted_id: "advisory_id_from_url ex_url (rl_changelog_url ex_noted) = Some ex_id"
  by code_simp

lemma ex_enrichment:
  "\<exists>w. enrich_runs ex_url [] w \<and> length (task_slice 0 w) = 1 \<and> (\<forall>t \<in> set (task_slice 0 w). resting t)
     \<and> task_answer (task_slice 0 w ! 0) = changelog_fetch ex_errata_web [] ex_id"
proof -
  obtain content where content: "changelog_fetch ex_errata_web [] ex_id = Inr content" using ex_fetch by blast
  note i = ex_noted_id
  let ?key = "changelog_key [] ex_id"
  let ?t = "\<lambda>p. \<lparr>tk_group = 0, tk_given = ex_noted, tk_release = ex_noted, tk_phase = p\<rparr>"
  let ?l = "\<lparr>ld_key = ?key, ld_now = 5, ld_stale = None, ld_call = 0\<rparr> :: leader"
  let ?c1 = "\<lparr>cc_entries = [], cc_pending = [(?key, 0)], cc_calls = [None]\<rparr> :: changelog_cache"
  let ?c2 = "\<lparr>cc_entries = [(?key, \<lparr>ce_content = content, ce_fetched_at = 5\<rparr>)], cc_pending = [], cc_calls = [Some (Inr content)]\<rparr> :: changelog_cache"
  let ?last = "(?t (Ended (Inr content)))\<lparr>tk_release := store_answer (Inr content) ex_noted\<rparr>"
  have key: "task_key ex_url [] (?t p) = ?key" for p using i by (simp add: task_key_def)
  have yields: "fetch_yields [] ?key content" unfolding fetch_yields_def using content by blast
  have one: "enrich_step ex_url [] \<lparr>ew_cache = c, ew_tasks = [t]\<rparr> \<lparr>ew_cache = c', ew_tasks = [t']\<rparr>"
    if "task_moves ex_url [] (slots_used (tk_group t) [t]) c t c' t'" for c c' t t'
    using enrich_step.moves [of "\<lparr>ew_cache = c, ew_tasks = [t]\<rparr>" "[]" t "[]"] that by simp
  have "enrich_runs ex_url [] (\<lparr>ew_cache = new_changelog_cache, ew_tasks = []\<rparr>\<lparr>ew_tasks := [] @ map (new_task ex_url 0) [ex_noted]\<rparr>)"
    using runs_call [OF runs_none, where g = 0 and rs = "[ex_noted]"] by simp
  then have "enrich_runs ex_url [] \<lparr>ew_cache = new_changelog_cache, ew_tasks = [?t Queued]\<rparr>"
    using i by (simp add: new_task_def)
  then have "enrich_runs ex_url [] \<lparr>ew_cache = new_changelog_cache, ew_tasks = [?t Holding]\<rparr>"
    by (rule enrich_runs.runs_step [OF _ one])
      (use acquire [of "?t Queued"] in \<open>simp add: slots_used_def changelog_concurrency_def\<close>)
  then have "enrich_runs ex_url [] \<lparr>ew_cache = ?c1, ew_tasks = [?t (Leading ?l)]\<rparr>"
    by (rule enrich_runs.runs_step [OF _ one])
      (use lead [of "?t Holding" ex_url "[]" 5 new_changelog_cache ?c1 0 None] key
        in \<open>simp add: cache_begin_def new_changelog_cache_def\<close>)
  then have "enrich_runs ex_url [] \<lparr>ew_cache = ?c2, ew_tasks = [?t (Answered (Inr content))]\<rparr>"
    by (rule enrich_runs.runs_step [OF _ one])
      (use fetch [of "?t (Leading ?l)" ?l "Inr content" "[]" ?c1 ?c2 "Inr content" ex_url "slots_used 0 [?t (Leading ?l)]"] yields
        in \<open>simp add: cache_finish_def Let_def\<close>)
  then have "enrich_runs ex_url [] \<lparr>ew_cache = ?c2, ew_tasks = [?last]\<rparr>"
    by (rule enrich_runs.runs_step [OF _ one]) (use store [of "?t (Answered (Inr content))"] in simp)
  moreover have "task_slice 0 \<lparr>ew_cache = ?c2, ew_tasks = [?last]\<rparr> = [?last]" by (simp add: task_slice_def)
  ultimately show ?thesis using content by (auto simp: resting_def task_answer_def)
qed

theorem enrichment_ends_witness:
  "\<exists>w content. enrich_runs ex_url [] w \<and> changelog_fetch ex_errata_web [] ex_id = Inr content
     \<and> map tk_release (task_slice 0 w) = fill_changelogs ex_url (\<lambda>i. Inr content) (map tk_given (task_slice 0 w))
     \<and> slots_used 0 (ew_tasks w) \<le> 4"
proof -
  obtain w where w: "enrich_runs ex_url [] w" "length (task_slice 0 w) = 1" "\<forall>t \<in> set (task_slice 0 w). resting t"
    "task_answer (task_slice 0 w ! 0) = changelog_fetch ex_errata_web [] ex_id" using ex_enrichment by blast
  obtain t where t: "task_slice 0 w = [t]" using w(2) by (auto simp: length_Suc_conv)
  obtain content where content: "changelog_fetch ex_errata_web [] ex_id = Inr content" using ex_fetch by blast
  note e = enrichment_ends [OF w(1)]
  have "map tk_release (task_slice 0 w) = fill_changelogs ex_url (\<lambda>i. task_answer (task_slice 0 w ! i)) (map tk_given (task_slice 0 w))"
    using e w(3) by blast
  then have "map tk_release [t] = fill_changelogs ex_url (\<lambda>i. Inr content) (map tk_given [t])"
    using w(4) content unfolding t by (simp add: fill_changelogs_def split: option.splits)
  moreover have "slots_used 0 (ew_tasks w) \<le> 4" using e by blast
  ultimately show ?thesis using w(1) content unfolding t [symmetric] by blast
qed

end
