(* ===== verification/Command_Line.thy ===== *)
theory Command_Line
  imports Service_Refresh Config_Resolve Catalog_Selection
begin

text \<open>
  The process around the service: the periodic refresh \<open>Run\<close> of \<^verbatim>\<open>internal/service/service.go\<close> and,
  of \<^verbatim>\<open>cmd/ratatoskr/main.go\<close>, the start of the server, the watcher of the configuration file and the
  two queries on given flags. File contents, the hash and the outcomes of reads are arguments; the
  result of a query is the values it encodes, or its exit status.
\<close>

section \<open>The periodic refresh\<close>

datatype run_event = TimerFired | ConfigChange | Stopped

datatype run_action = QueueEverything | StartTimer duration

definition refresh_interval :: "service_config \<Rightarrow> duration" where
  "refresh_interval cfg = (if nanos (sc_refresh_interval cfg) \<le> 0 then hours 6 else sc_refresh_interval cfg)"

text \<open>One round per pair of the configuration when the timer is made and the event that ends the wait.\<close>

fun run_rounds :: "(service_config \<times> run_event) list \<Rightarrow> run_action list" where
  "run_rounds [] = []"
| "run_rounds ((cfg, ev) # rounds) =
     StartTimer (refresh_interval cfg) #
     (case ev of
        Stopped \<Rightarrow> []
      | TimerFired \<Rightarrow> QueueEverything # run_rounds rounds
      | ConfigChange \<Rightarrow> run_rounds rounds)"

definition run_service :: "(service_config \<times> run_event) list \<Rightarrow> run_action list" where
  "run_service rounds = QueueEverything # run_rounds rounds"

section \<open>Loading and watching the configuration\<close>

datatype load_error = FileError string | ConfigInvalid config_error

definition load_config :: "(string \<Rightarrow> string + string) \<Rightarrow> (string \<Rightarrow> config_error + app_config) \<Rightarrow> string \<Rightarrow> load_error + app_config" where
  "load_config read parse path =
     (case read path of
        Inl e \<Rightarrow> Inl (FileError e)
      | Inr b \<Rightarrow> (case parse b of Inl e \<Rightarrow> Inl (ConfigInvalid e) | Inr c \<Rightarrow> Inr c))"

definition load_with_digest ::
  "(string \<Rightarrow> string + string) \<Rightarrow> (string \<Rightarrow> config_error + app_config) \<Rightarrow> (string \<Rightarrow> 'd) \<Rightarrow> string
     \<Rightarrow> load_error + app_config \<times> 'd" where
  "load_with_digest read parse sha path =
     (case read path of
        Inl e \<Rightarrow> Inl (FileError e)
      | Inr b \<Rightarrow> (case parse b of Inl e \<Rightarrow> Inl (ConfigInvalid e) | Inr c \<Rightarrow> Inr (c, sha b)))"

text \<open>
  \<open>watchConfig\<close>: the outcomes of the reads at the ticks until the context ends, and the
  configurations handed to \<open>onChange\<close>.
\<close>

fun watch_config ::
  "(string \<Rightarrow> config_error + app_config) \<Rightarrow> (string \<Rightarrow> 'd) \<Rightarrow> 'd \<Rightarrow> (string + string) list \<Rightarrow> app_config list" where
  "watch_config parse sha last_digest [] = []"
| "watch_config parse sha last_digest (Inl e # reads) = watch_config parse sha last_digest reads"
| "watch_config parse sha last_digest (Inr b # reads) =
     (let digest = sha b in
      if digest = last_digest then watch_config parse sha last_digest reads
      else (case parse b of
        Inl e \<Rightarrow> watch_config parse sha digest reads
      | Inr c \<Rightarrow> c # watch_config parse sha digest reads))"

section \<open>The commands\<close>

record serve_flags =
  sf_config :: string
  sf_listen :: string
  sf_debug :: bool
  sf_reload_interval :: int

record 'd serving =
  sg_config :: app_config
  sg_digest :: 'd
  sg_address :: string
  sg_debug :: bool
  sg_watch :: bool

text \<open>\<open>serve\<close> up to the start of the server; a left value is its exit status.\<close>

definition serve ::
  "(string \<Rightarrow> string + string) \<Rightarrow> (string \<Rightarrow> config_error + app_config) \<Rightarrow> (string \<Rightarrow> 'd) \<Rightarrow> serve_flags \<Rightarrow> nat + 'd serving" where
  "serve read parse sha f =
     (if sf_reload_interval f < 0 then Inl 2
      else (case load_with_digest read parse sha (sf_config f) of
        Inl e \<Rightarrow> Inl 1
      | Inr (c, digest) \<Rightarrow>
          Inr \<lparr>sg_config = c, sg_digest = digest,
            sg_address = (if sf_listen f \<noteq> [] then sf_listen f
                          else if ac_listen_address c \<noteq> [] then ac_listen_address c else '':8080''),
            sg_debug = (sf_debug f \<or> ac_debug c), sg_watch = (0 < sf_reload_interval f)\<rparr>))"

text \<open>The function \<open>serve\<close> gives to the watcher, on the service and the log level.\<close>

definition on_change :: "serve_flags \<Rightarrow> app_config \<Rightarrow> service \<times> bool \<Rightarrow> service \<times> bool" where
  "on_change f c s = (fst (reload (ac_service c) (fst s)), sf_debug f \<or> ac_debug c)"

record query_flags =
  qf_image :: string
  qf_package :: string
  qf_channel :: string
  qf_current_version :: string
  qf_current_bundle :: string
  qf_policy :: string
  qf_platform :: string

definition query_reader :: "query_flags \<Rightarrow> reader" where
  "query_reader f = \<lparr>rd_signature_policy = qf_policy f, rd_parse_concurrency = 0\<rparr>"

definition query_source :: "query_flags \<Rightarrow> source" where
  "query_source f = \<lparr>src_id = ''query'', src_image = qf_image f, src_platform = qf_platform f\<rparr>"

text \<open>The part that both queries share: read the image, find the package, ask it.\<close>

definition query_package ::
  "registry \<Rightarrow> (reader \<Rightarrow> source \<Rightarrow> string \<Rightarrow> read_error + snapshot) \<Rightarrow> query_flags
     \<Rightarrow> (package \<Rightarrow> resolve_error + string list) \<Rightarrow> nat + string list" where
  "query_package rg extracted f ask =
     (case fst (reader_read rg (query_reader f) None (query_source f) (extracted (query_reader f) (query_source f))) of
        Inl e \<Rightarrow> Inl 1
      | Inr snap \<Rightarrow>
          (case map_of (sn_packages snap) (qf_package f) of
             None \<Rightarrow> Inl 1
           | Some p \<Rightarrow> (case ask p of Inl e \<Rightarrow> Inl 1 | Inr values \<Rightarrow> Inr values)))"

definition query ::
  "'v semver \<Rightarrow> (string list \<Rightarrow> string list) \<Rightarrow> registry \<Rightarrow> (reader \<Rightarrow> source \<Rightarrow> string \<Rightarrow> read_error + snapshot)
     \<Rightarrow> query_flags \<Rightarrow> nat + string list" where
  "query sv iter rg extracted f =
     (if qf_image f = [] \<or> qf_package f = [] \<or> (qf_current_version f = [] \<and> qf_current_bundle f = []) then Inl 2
      else query_package rg extracted f (\<lambda>p. version_updates sv iter p
        \<lparr>ur_current_version = qf_current_version f, ur_current_bundle = qf_current_bundle f,
         ur_channel = qf_channel f, ur_mode = ''reachable''\<rparr>))"

text \<open>Here \<open>qf_channel\<close> is the flag \<open>current-channel\<close>.\<close>

definition channel_query ::
  "'v semver \<Rightarrow> (string list \<Rightarrow> string list) \<Rightarrow> registry \<Rightarrow> (reader \<Rightarrow> source \<Rightarrow> string \<Rightarrow> read_error + snapshot)
     \<Rightarrow> query_flags \<Rightarrow> nat + string list" where
  "channel_query sv iter rg extracted f =
     (if qf_image f = [] \<or> qf_package f = [] \<or> qf_channel f = []
         \<or> (qf_current_version f = [] \<and> qf_current_bundle f = []) then Inl 2
      else query_package rg extracted f (\<lambda>p. channel_updates sv iter p
        \<lparr>cr_current_channel = qf_channel f, cr_current_version = qf_current_version f,
         cr_current_bundle = qf_current_bundle f, cr_selection = ''next''\<rparr>))"

section \<open>The watched configuration\<close>

definition read_contents :: "(string + string) list \<Rightarrow> string list" where
  "read_contents reads = List.map_filter (\<lambda>r. case r of Inl e \<Rightarrow> None | Inr b \<Rightarrow> Some b) reads"

definition valid_configs :: "(string \<Rightarrow> config_error + app_config) \<Rightarrow> string list \<Rightarrow> app_config list" where
  "valid_configs parse bs = List.map_filter (\<lambda>b. case parse b of Inl e \<Rightarrow> None | Inr c \<Rightarrow> Some c) bs"

lemma read_contents_simps [simp]:
  "read_contents [] = []" "read_contents (Inl e # reads) = read_contents reads"
  "read_contents (Inr b # reads) = b # read_contents reads"
  by (simp_all add: read_contents_def)

lemma valid_configs_simps [simp]:
  "valid_configs parse [] = []"
  "parse b = Inl e \<Longrightarrow> valid_configs parse (b # bs) = valid_configs parse bs"
  "parse b = Inr c \<Longrightarrow> valid_configs parse (b # bs) = c # valid_configs parse bs"
  by (simp_all add: valid_configs_def)

lemma watch_config_changes:
  "inj_on sha (set (b0 # read_contents reads)) \<Longrightarrow>
     watch_config parse sha (sha b0) reads = valid_configs parse (tl (remdups_adj (b0 # read_contents reads)))"
proof (induction reads arbitrary: b0)
  case (Cons r reads)
  show ?case
  proof (cases r)
    case (Inl e)
    then show ?thesis using Cons by simp
  next
    case (Inr b)
    have inj: "inj_on sha (set (b0 # read_contents reads))" "inj_on sha (set (b # read_contents reads))"
      using Cons.prems Inr by (auto intro: inj_on_subset)
    show ?thesis
    proof (cases "b = b0")
      case True
      then show ?thesis using Cons.IH [OF inj(1)] Inr by simp
    next
      case False
      then have "sha b \<noteq> sha b0" using Cons.prems Inr by (auto simp: inj_on_def)
      moreover obtain rest where "remdups_adj (b # read_contents reads) = b # rest"
        by (metis remdups_adj_Cons_alt)
      ultimately show ?thesis using Cons.IH [OF inj(2)] Inr False
        by (cases "parse b") (simp_all add: Let_def)
    qed
  qed
qed simp

lemma watch_config_last:
  "inj_on sha (set (b0 # read_contents reads)) \<Longrightarrow> isl (parse b0) \<or> parse b0 = Inr c \<Longrightarrow>
     last (c # watch_config parse sha (sha b0) reads) = last (c # valid_configs parse (read_contents reads))"
proof (induction reads arbitrary: b0 c)
  case (Cons r reads)
  show ?case
  proof (cases r)
    case (Inl e)
    then show ?thesis using Cons by simp
  next
    case (Inr b)
    have inj: "inj_on sha (set (b0 # read_contents reads))" "inj_on sha (set (b # read_contents reads))"
      using Cons.prems Inr by (auto intro: inj_on_subset)
    show ?thesis
    proof (cases "b = b0")
      case True
      then show ?thesis using Cons.IH [OF inj(1) Cons.prems(2)] Cons.prems(2) Inr
        by (cases "parse b0") (simp_all split: if_splits)
    next
      case False
      then have d: "sha b \<noteq> sha b0" using Cons.prems Inr by (auto simp: inj_on_def)
      show ?thesis
      proof (cases "parse b")
        case (Inl e)
        then show ?thesis using Cons.IH [OF inj(2), of c] \<open>r = Inr b\<close> d by (simp add: Let_def)
      next
        case p: (Inr c')
        then show ?thesis using Cons.IH [OF inj(2), of c'] \<open>r = Inr b\<close> d by (simp add: Let_def)
      qed
    qed
  qed
qed simp

lemma reload_cfg: "sv_cfg (fst (reload cfg s)) = cfg"
  by (simp add: reload_def Let_def)

lemma on_change_last:
  assumes "sv_cfg s = ac_service c" and "debug = (sf_debug f \<or> ac_debug c)"
  shows "sv_cfg (fst (foldl (\<lambda>s c. on_change f c s) (s, debug) cs)) = ac_service (last (c # cs))
    \<and> snd (foldl (\<lambda>s c. on_change f c s) (s, debug) cs) = (sf_debug f \<or> ac_debug (last (c # cs)))"
  using assms
proof (induction cs arbitrary: s debug c)
  case (Cons c' cs)
  have "sv_cfg (fst (reload (ac_service c') s)) = ac_service c'" by (rule reload_cfg)
  from Cons.IH [OF this refl] show ?case by (simp add: on_change_def)
qed simp

text \<open>
  C9: What the watcher of the configuration file applies. As long as different contents have different
  digests, the configurations handed to the service are those of the contents that differ from the
  one read before, in order, without those that do not parse; failed reads change nothing. So the
  service always ends with the last valid configuration that was read: an invalid file keeps the
  previous one in force, and no valid change is missed. The log level follows
  it, unless the debug flag was given.
\<close>

theorem watch_config_converges:
  assumes start: "serve read parse sha f = Inr sg" "read (sf_config f) = Inr b0"
    and inj: "inj_on sha (set (b0 # read_contents reads))"
  shows "let applied = watch_config parse sha (sg_digest sg) reads;
          after = foldl (\<lambda>s c. on_change f c s) (new_service (ac_service (sg_config sg)), sg_debug sg) applied;
          newest = last (valid_configs parse (b0 # read_contents reads))
     in applied = valid_configs parse (tl (remdups_adj (b0 # read_contents reads)))
        \<and> sv_cfg (fst after) = ac_service newest \<and> snd after = (sf_debug f \<or> ac_debug newest)"
proof -
  have c: "parse b0 = Inr (sg_config sg)" "sg_digest sg = sha b0" "sg_debug sg = (sf_debug f \<or> ac_debug (sg_config sg))"
    using start by (auto simp: serve_def load_with_digest_def split: if_splits sum.splits)
  have s0: "sv_cfg (new_service (ac_service (sg_config sg))) = ac_service (sg_config sg)" by (simp add: new_service_def)
  show ?thesis
    using watch_config_changes [OF inj, of parse] watch_config_last [OF inj, of parse "sg_config sg"]
      on_change_last [OF s0 c(3), of "watch_config parse sha (sha b0) reads"] c(1,2)
    by (simp add: Let_def)
qed

definition ex_parse :: "string \<Rightarrow> config_error + app_config" where
  "ex_parse b = (if b = ''old'' then Inr ex_config else if b = ''new'' then Inr (ex_config\<lparr>ac_debug := True\<rparr>)
     else Inl MultipleDocuments)"

definition ex_flags :: serve_flags where
  "ex_flags = \<lparr>sf_config = ''config.yaml'', sf_listen = [], sf_debug = False, sf_reload_interval = 5000000000\<rparr>"

theorem watch_config_converges_witness:
  "\<exists>sg. serve (\<lambda>p. Inr ''old'') ex_parse (\<lambda>b. b) ex_flags = Inr sg
     \<and> watch_config ex_parse (\<lambda>b. b) (sg_digest sg) [Inr ''old'', Inl ''busy'', Inr ''new'', Inr ''broken'', Inr ''new'']
         = [ex_config\<lparr>ac_debug := True\<rparr>, ex_config\<lparr>ac_debug := True\<rparr>]"
proof -
  let ?reads = "[Inr ''old'', Inl ''busy'', Inr ''new'', Inr ''broken'', Inr ''new''] :: (string + string) list"
  obtain sg where sg: "serve (\<lambda>p. Inr ''old'') ex_parse (\<lambda>b. b) ex_flags = Inr sg"
    by (simp add: serve_def load_with_digest_def ex_parse_def ex_flags_def)
  have "watch_config ex_parse (\<lambda>b. b) (sg_digest sg) ?reads = valid_configs ex_parse (tl (remdups_adj (''old'' # read_contents ?reads)))"
    using watch_config_converges [OF sg refl, of ?reads] by (simp add: Let_def)
  also have "\<dots> = [ex_config\<lparr>ac_debug := True\<rparr>, ex_config\<lparr>ac_debug := True\<rparr>]"
    by (simp add: valid_configs_def ex_parse_def)
  finally show ?thesis using sg by blast
qed

end
