(* ===== verification/Cluster_Discovery.thy ===== *)
theory Cluster_Discovery
  imports Go_Base
begin

text \<open>
  Discovery of subscriptions in a cluster (\<^verbatim>\<open>pkg/cluster/discovery.go\<close>). The Kubernetes client and its
  accessors for unstructured objects are arguments; a missing or mistyped field reads as empty, which
  is all that the code uses of it.
\<close>

section \<open>The model\<close>

text \<open>
  \<open>ku_string\<close> and \<open>ku_slice\<close> are \<open>NestedString\<close> and \<open>NestedSlice\<close> on a path of field names,
  \<open>ku_map\<close> the type assertion of a list element to a map.
\<close>

record 'o kube =
  ku_string :: "'o \<Rightarrow> string list \<Rightarrow> string"
  ku_slice :: "'o \<Rightarrow> string list \<Rightarrow> 'o list"
  ku_map :: "'o \<Rightarrow> bool"
  ku_namespace :: "'o \<Rightarrow> string"
  ku_name :: "'o \<Rightarrow> string"

record subscription_version =
  sb_namespace :: string
  sb_name :: string
  sb_package :: string
  sb_catalog_source :: string
  sb_current_channel :: string
  sb_current_channel_version :: string
  sb_default_channel :: string
  sb_default_channel_version :: string

datatype discover_error = ListSubscriptions string | ListManifests string

fun channel_version :: "'o kube \<Rightarrow> 'o list \<Rightarrow> string \<Rightarrow> string" where
  "channel_version ku [] name = []"
| "channel_version ku (raw # rest) name =
     (if \<not> ku_map ku raw then channel_version ku rest name
      else if ku_string ku raw [''name''] \<noteq> name then channel_version ku rest name
      else ku_string ku raw [''currentCSVDesc'', ''version''])"

definition manifest_default_channel :: "'o kube \<Rightarrow> 'o \<Rightarrow> string" where
  "manifest_default_channel ku m =
     (let default = ku_string ku m [''status'', ''defaultChannel''];
          channels = ku_slice ku m [''status'', ''channels'']
      in if default = [] \<and> length channels = 1 \<and> ku_map ku (hd channels)
         then ku_string ku (hd channels) [''name''] else default)"

definition resolve_in :: "'o kube \<Rightarrow> 'o \<Rightarrow> 'o \<Rightarrow> subscription_version option" where
  "resolve_in ku sub m =
     (let channels = ku_slice ku m [''status'', ''channels''];
          default = manifest_default_channel ku m;
          configured = ku_string ku sub [''spec'', ''channel''];
          channel = (if configured = [] then default else configured);
          current_version = channel_version ku channels channel;
          default_version = channel_version ku channels default
      in if current_version = [] \<or> default = [] \<or> default_version = [] then None
         else Some \<lparr>sb_namespace = ku_namespace ku sub, sb_name = ku_name ku sub,
           sb_package = ku_string ku sub [''spec'', ''name''], sb_catalog_source = ku_string ku sub [''spec'', ''source''],
           sb_current_channel = channel, sb_current_channel_version = current_version,
           sb_default_channel = default, sb_default_channel_version = default_version\<rparr>)"

definition manifest_matches :: "'o kube \<Rightarrow> 'o \<Rightarrow> 'o \<Rightarrow> bool" where
  "manifest_matches ku sub m \<longleftrightarrow>
     \<not> (ku_string ku m [''status'', ''packageName''] \<noteq> ku_string ku sub [''spec'', ''name'']
        \<or> ku_string ku m [''status'', ''catalogSource''] \<noteq> ku_string ku sub [''spec'', ''source'']
        \<or> ku_string ku m [''status'', ''catalogSourceNamespace''] \<noteq> ku_string ku sub [''spec'', ''sourceNamespace''])"

text \<open>The loop over the manifests ends at the first that matches.\<close>

fun resolve_among :: "'o kube \<Rightarrow> 'o \<Rightarrow> 'o list \<Rightarrow> subscription_version option" where
  "resolve_among ku sub [] = None"
| "resolve_among ku sub (m # ms) = (if \<not> manifest_matches ku sub m then resolve_among ku sub ms else resolve_in ku sub m)"

definition resolve_subscription :: "'o kube \<Rightarrow> 'o \<Rightarrow> 'o list \<Rightarrow> subscription_version option" where
  "resolve_subscription ku sub manifests =
     (if ku_string ku sub [''spec'', ''name''] = [] \<or> ku_string ku sub [''spec'', ''source''] = []
         \<or> ku_string ku sub [''spec'', ''sourceNamespace''] = [] then None
      else resolve_among ku sub manifests)"

text \<open>The answers of the two list calls are arguments.\<close>

definition discover ::
  "'o kube \<Rightarrow> string + 'o list \<Rightarrow> string + 'o list \<Rightarrow> discover_error + subscription_version list" where
  "discover ku subscriptions manifests =
     (case subscriptions of
        Inl e \<Rightarrow> Inl (ListSubscriptions e)
      | Inr subs \<Rightarrow>
          (case manifests of
             Inl e \<Rightarrow> Inl (ListManifests e)
           | Inr ms \<Rightarrow> Inr (concat (map (\<lambda>sub. case resolve_subscription ku sub ms of None \<Rightarrow> [] | Some v \<Rightarrow> [v]) subs))))"

section \<open>What is discovered\<close>

lemma channel_version_find:
  "channel_version ku cs name =
     (case find (\<lambda>c. ku_map ku c \<and> ku_string ku c [''name''] = name) cs of
        None \<Rightarrow> [] | Some c \<Rightarrow> ku_string ku c [''currentCSVDesc'', ''version''])"
  by (induction cs) auto

lemma resolve_among_find:
  "resolve_among ku sub ms = (case find (manifest_matches ku sub) ms of None \<Rightarrow> None | Some m \<Rightarrow> resolve_in ku sub m)"
  by (induction ms) auto

text \<open>The head of a channel is the version of the first channel of the name, if it has one.\<close>

definition channel_head :: "'o kube \<Rightarrow> 'o \<Rightarrow> string \<Rightarrow> string \<Rightarrow> bool" where
  "channel_head ku m name v \<longleftrightarrow> v \<noteq> [] \<and>
     (let channels = ku_slice ku m [''status'', ''channels''];
          named = (\<lambda>c. ku_map ku c \<and> ku_string ku c [''name''] = name)
      in \<exists>i < length channels. named (channels ! i) \<and> (\<forall>j < i. \<not> named (channels ! j))
           \<and> ku_string ku (channels ! i) [''currentCSVDesc'', ''version''] = v)"

lemma channel_head_iff:
  "channel_head ku m name v \<longleftrightarrow> v \<noteq> [] \<and> channel_version ku (ku_slice ku m [''status'', ''channels'']) name = v"
proof -
  have "channel_version ku cs name = v \<longleftrightarrow> (\<exists>c. find (\<lambda>c. ku_map ku c \<and> ku_string ku c [''name''] = name) cs = Some c
      \<and> ku_string ku c [''currentCSVDesc'', ''version''] = v)" if "v \<noteq> []" for cs
    using that by (auto simp: channel_version_find split: option.split)
  then show ?thesis by (auto simp: channel_head_def Let_def find_Some_iff)
qed

lemma resolve_in_iff:
  "resolve_in ku sub m = Some v \<longleftrightarrow>
     sb_namespace v = ku_namespace ku sub \<and> sb_name v = ku_name ku sub
     \<and> sb_package v = ku_string ku sub [''spec'', ''name''] \<and> sb_catalog_source v = ku_string ku sub [''spec'', ''source'']
     \<and> sb_default_channel v = manifest_default_channel ku m \<and> sb_default_channel v \<noteq> []
     \<and> sb_current_channel v = (if ku_string ku sub [''spec'', ''channel''] = [] then sb_default_channel v
                               else ku_string ku sub [''spec'', ''channel''])
     \<and> channel_head ku m (sb_current_channel v) (sb_current_channel_version v)
     \<and> channel_head ku m (sb_default_channel v) (sb_default_channel_version v)"
  unfolding channel_head_iff by (cases v) (auto simp: resolve_in_def Let_def)

text \<open>
  C15: What is discovered of a subscription. A result names a package, source and namespace that are
  all given, and comes from the first manifest that carries these three, and from no other. Its
  default channel is the one of the manifest, or its only channel; its current channel is the
  configured one, or else the default. Both have a version, the one of the first channel of that name
  in the manifest. Whenever these conditions hold, there is a result.
\<close>

theorem resolve_subscription_iff:
  "resolve_subscription ku sub ms = Some v \<longleftrightarrow>
     ku_string ku sub [''spec'', ''name''] \<noteq> [] \<and> ku_string ku sub [''spec'', ''source''] \<noteq> []
     \<and> ku_string ku sub [''spec'', ''sourceNamespace''] \<noteq> []
     \<and> (\<exists>i < length ms. manifest_matches ku sub (ms ! i) \<and> (\<forall>j < i. \<not> manifest_matches ku sub (ms ! j))
          \<and> sb_default_channel v = manifest_default_channel ku (ms ! i) \<and> sb_default_channel v \<noteq> []
          \<and> channel_head ku (ms ! i) (sb_current_channel v) (sb_current_channel_version v)
          \<and> channel_head ku (ms ! i) (sb_default_channel v) (sb_default_channel_version v))
     \<and> sb_current_channel v = (if ku_string ku sub [''spec'', ''channel''] = [] then sb_default_channel v
                               else ku_string ku sub [''spec'', ''channel''])
     \<and> sb_package v = ku_string ku sub [''spec'', ''name''] \<and> sb_catalog_source v = ku_string ku sub [''spec'', ''source'']
     \<and> sb_namespace v = ku_namespace ku sub \<and> sb_name v = ku_name ku sub"
proof -
  have "resolve_among ku sub ms = Some v \<longleftrightarrow>
      (\<exists>i < length ms. manifest_matches ku sub (ms ! i) \<and> (\<forall>j < i. \<not> manifest_matches ku sub (ms ! j))
         \<and> resolve_in ku sub (ms ! i) = Some v)"
    (is "_ \<longleftrightarrow> ?R")
  proof -
    have "resolve_among ku sub ms = Some v \<longleftrightarrow> (\<exists>m. find (manifest_matches ku sub) ms = Some m \<and> resolve_in ku sub m = Some v)"
      by (simp add: resolve_among_find split: option.split)
    also have "\<dots> \<longleftrightarrow> ?R" unfolding find_Some_iff by blast
    finally show ?thesis .
  qed
  then show ?thesis unfolding resolve_subscription_def resolve_in_iff by auto
qed

text \<open>A sample: an object is a list of fields, an element of a slice is a list of fields of its own.\<close>

datatype ex_object = Fields "(string list \<times> string) list" "ex_object list" | Scalar

definition ex_kube :: "ex_object kube" where
  "ex_kube = \<lparr>ku_string = (\<lambda>ob p. case ob of Fields fs cs \<Rightarrow> (case map_of fs p of Some v \<Rightarrow> v | None \<Rightarrow> []) | Scalar \<Rightarrow> []),
     ku_slice = (\<lambda>ob p. case ob of Fields fs cs \<Rightarrow> cs | Scalar \<Rightarrow> []), ku_map = (\<lambda>ob. ob \<noteq> Scalar),
     ku_namespace = (\<lambda>ob. ''apps''), ku_name = (\<lambda>ob. ''op-sub'')\<rparr>"

definition ex_subscription :: ex_object where
  "ex_subscription = Fields [([''spec'', ''name''], ''op''), ([''spec'', ''source''], ''ops''),
     ([''spec'', ''sourceNamespace''], ''market'')] []"

definition ex_manifest :: ex_object where
  "ex_manifest = Fields [([''status'', ''packageName''], ''op''), ([''status'', ''catalogSource''], ''ops''),
       ([''status'', ''catalogSourceNamespace''], ''market'')]
     [Fields [([''name''], ''stable''), ([''currentCSVDesc'', ''version''], ''1.2.0'')] []]"

definition ex_resolved :: subscription_version where
  "ex_resolved = \<lparr>sb_namespace = ''apps'', sb_name = ''op-sub'', sb_package = ''op'', sb_catalog_source = ''ops'',
     sb_current_channel = ''stable'', sb_current_channel_version = ''1.2.0'',
     sb_default_channel = ''stable'', sb_default_channel_version = ''1.2.0''\<rparr>"

theorem resolve_subscription_iff_witness:
  "discover ex_kube (Inr [ex_subscription]) (Inr [Scalar, ex_manifest]) = Inr [ex_resolved]
   \<and> channel_head ex_kube ex_manifest ''stable'' ''1.2.0''"
proof -
  have d: "discover ex_kube (Inr [ex_subscription]) (Inr [Scalar, ex_manifest]) = Inr [ex_resolved]"
    "resolve_subscription ex_kube ex_subscription [Scalar, ex_manifest] = Some ex_resolved"
    "manifest_matches ex_kube ex_subscription Scalar = False" by code_simp+
  obtain i where "i < length [Scalar, ex_manifest]" "manifest_matches ex_kube ex_subscription ([Scalar, ex_manifest] ! i)"
    "channel_head ex_kube ([Scalar, ex_manifest] ! i) (sb_default_channel ex_resolved) (sb_default_channel_version ex_resolved)"
    using iffD1 [OF resolve_subscription_iff d(2)] by blast
  moreover have "i = 1" using calculation(1,2) d(3) by (cases i) auto
  ultimately show ?thesis using d(1) by (simp add: ex_resolved_def)
qed

end
