(* ===== verification/Go_Flags.thy ===== *)
theory Go_Flags
  imports Go_Base
begin

text \<open>
  The part of Go's package \<open>flag\<close> that the commands use: string, boolean and duration flags of a set
  that exits on an error. \<open>time.ParseDuration\<close> is an argument.
\<close>

section \<open>Parsing\<close>

datatype flag_kind = TextFlag | BoolFlag | DurationFlag

datatype flag_value = FlagText string | FlagBool bool | FlagDuration int

datatype flag_error = HelpAsked | BadFlagSyntax string | UndefinedFlag string | InvalidFlag string string | FlagNeedsArgument string

text \<open>\<open>strconv.ParseBool\<close>.\<close>

definition parse_bool :: "string \<Rightarrow> bool option" where
  "parse_bool s =
     (if s \<in> {''1'', ''t'', ''T'', ''true'', ''TRUE'', ''True''} then Some True
      else if s \<in> {''0'', ''f'', ''F'', ''false'', ''FALSE'', ''False''} then Some False
      else None)"

definition set_flag :: "(string \<Rightarrow> int option) \<Rightarrow> flag_kind \<Rightarrow> string \<Rightarrow> flag_value option" where
  "set_flag dur kind v =
     (case kind of
        TextFlag \<Rightarrow> Some (FlagText v)
      | BoolFlag \<Rightarrow> map_option FlagBool (parse_bool v)
      | DurationFlag \<Rightarrow> map_option FlagDuration (dur v))"

text \<open>
  \<open>parseOne\<close> until the arguments end, one is not a flag, or \<open>--\<close> ends the flags. The values are those
  that were set, the result has what is left of the arguments. A boolean flag takes no argument of
  its own.
\<close>

fun parse_flags ::
  "(string \<Rightarrow> int option) \<Rightarrow> (string \<times> flag_kind) list \<Rightarrow> string list \<Rightarrow> (string, flag_value) gomap
     \<Rightarrow> flag_error + (string, flag_value) gomap \<times> string list" where
  "parse_flags dur formal [] vals = Inr (vals, [])"
| "parse_flags dur formal (s # args) vals =
     (if length s < 2 \<or> hd s \<noteq> CHR ''-'' then Inr (vals, s # args)
      else if s = ''--'' then Inr (vals, args)
      else
        let name = (if s ! 1 = CHR ''-'' then drop 2 s else drop 1 s) in
        if name = [] \<or> hd name = CHR ''-'' \<or> hd name = CHR ''='' then Inl (BadFlagSyntax s)
        else (case cut_byte (CHR ''='') name of (key, given) \<Rightarrow>
          (case map_of formal key of
             None \<Rightarrow> Inl (if key = ''help'' \<or> key = ''h'' then HelpAsked else UndefinedFlag key)
           | Some kind \<Rightarrow>
               (case (if kind = BoolFlag \<and> given = None then Some ''true'' else given) of
                  Some v \<Rightarrow>
                    (case set_flag dur kind v of
                       None \<Rightarrow> Inl (InvalidFlag key v)
                     | Some x \<Rightarrow> parse_flags dur formal args (AList.update key x vals))
                | None \<Rightarrow>
                    (case args of
                       [] \<Rightarrow> Inl (FlagNeedsArgument key)
                     | v # rest \<Rightarrow>
                         (case set_flag dur kind v of
                            None \<Rightarrow> Inl (InvalidFlag key v)
                          | Some x \<Rightarrow> parse_flags dur formal rest (AList.update key x vals)))))))"

text \<open>\<open>ExitOnError\<close>: asking for help is not an error.\<close>

definition flag_exit :: "flag_error \<Rightarrow> nat" where
  "flag_exit e = (if e = HelpAsked then 0 else 2)"

definition text_flag :: "(string, flag_value) gomap \<Rightarrow> string \<Rightarrow> string \<Rightarrow> string" where
  "text_flag vals key fallback = (case map_of vals key of Some (FlagText v) \<Rightarrow> v | _ \<Rightarrow> fallback)"

definition bool_flag :: "(string, flag_value) gomap \<Rightarrow> string \<Rightarrow> bool \<Rightarrow> bool" where
  "bool_flag vals key fallback = (case map_of vals key of Some (FlagBool v) \<Rightarrow> v | _ \<Rightarrow> fallback)"

definition duration_flag :: "(string, flag_value) gomap \<Rightarrow> string \<Rightarrow> int \<Rightarrow> int" where
  "duration_flag vals key fallback = (case map_of vals key of Some (FlagDuration v) \<Rightarrow> v | _ \<Rightarrow> fallback)"

section \<open>Spellings\<close>

text \<open>The ways to set a flag: one dash or two, with the value after an equals sign or as an argument.\<close>

datatype spelling = Joined bool | Separate bool

definition flag_name_ok :: "string \<Rightarrow> bool" where
  "flag_name_ok key \<longleftrightarrow> key \<noteq> [] \<and> hd key \<noteq> CHR ''-'' \<and> CHR ''='' \<notin> set key"

definition dashes :: "bool \<Rightarrow> string" where
  "dashes two = (if two then ''--'' else ''-'')"

fun spell :: "spelling \<times> string \<times> string \<Rightarrow> string list" where
  "spell (Joined two, key, v) = [dashes two @ key @ ''='' @ v]"
| "spell (Separate two, key, v) = [dashes two @ key, v]"

definition spelled_ok :: "(string \<Rightarrow> int option) \<Rightarrow> (string \<times> flag_kind) list \<Rightarrow> spelling \<times> string \<times> string \<Rightarrow> bool" where
  "spelled_ok dur formal a = (case a of (sp, key, v) \<Rightarrow>
     flag_name_ok key \<and> (\<exists>kind. map_of formal key = Some kind \<and> set_flag dur kind v \<noteq> None
        \<and> (case sp of Joined _ \<Rightarrow> True | Separate _ \<Rightarrow> kind \<noteq> BoolFlag)))"

definition assign :: "(string \<Rightarrow> int option) \<Rightarrow> (string \<times> flag_kind) list \<Rightarrow> spelling \<times> string \<times> string
    \<Rightarrow> (string, flag_value) gomap \<Rightarrow> (string, flag_value) gomap" where
  "assign dur formal a vals = (case a of (sp, key, v) \<Rightarrow>
     AList.update key (the (set_flag dur (the (map_of formal key)) v)) vals)"

lemma parse_spelled:
  assumes "spelled_ok dur formal a"
  shows "parse_flags dur formal (spell a @ args) vals = parse_flags dur formal args (assign dur formal a vals)"
proof -
  obtain sp key v where a: "a = (sp, key, v)" by (cases a)
  obtain kind x where k: "flag_name_ok key" "map_of formal key = Some kind" "set_flag dur kind v = Some x"
    "case sp of Joined _ \<Rightarrow> True | Separate _ \<Rightarrow> kind \<noteq> BoolFlag"
    using assms by (auto simp: spelled_ok_def a)
  obtain c key' where n: "key = c # key'" "c \<noteq> CHR ''-''" "c \<noteq> CHR ''=''" "CHR ''='' \<notin> set key"
    using k(1) by (cases key) (auto simp: flag_name_ok_def)
  note cut = cut_byte_found [OF n(4), of v, unfolded n(1)] cut_byte_absent [OF n(4), unfolded n(1)]
  show ?thesis
  proof (cases sp)
    case (Joined two)
    then show ?thesis using n k(2,3) cut(1) by (cases two) (simp_all add: a assign_def dashes_def Let_def del: cut_byte.simps)
  next
    case (Separate two)
    then show ?thesis using n k(2,3,4) cut(2) by (cases two) (simp_all add: a assign_def dashes_def Let_def del: cut_byte.simps)
  qed
qed

text \<open>Flags in any order and spelling; the last value of each wins, and the rest is left alone.\<close>

lemma parse_flags_spelled:
  assumes "\<forall>a \<in> set as. spelled_ok dur formal a" and "rest = [] \<or> length (hd rest) < 2 \<or> hd (hd rest) \<noteq> CHR ''-''"
  shows "parse_flags dur formal (concat (map spell as) @ rest) vals = Inr (fold (assign dur formal) as vals, rest)"
  using assms(1)
proof (induction as arbitrary: vals)
  case Nil
  then show ?case using assms(2) by (cases rest) auto
next
  case (Cons a as)
  then show ?case using parse_spelled [of dur formal a "concat (map spell as) @ rest" vals] by simp
qed

end
