(* ===== verification/Command_Main.thy ===== *)
theory Command_Main
  imports Command_Line Catalog_Access Service_Safety Cluster_Discovery Go_Flags
begin

text \<open>
  The commands of \<^verbatim>\<open>cmd/ratatoskr/main.go\<close> from the arguments of the process to its output and exit
  status. The files, the image registry, the cluster, the clock and the writer of standard output are
  the fields of \<open>process\<close>; log lines and messages on standard error are left out.
\<close>

section \<open>Output\<close>

datatype cli_output = Printed string | ReleasesJson "string list" | SubscriptionsJson "subscription_version list"

text \<open>What is written in full; an encoder that cannot write ends the process.\<close>

definition encode_output :: "(cli_output \<Rightarrow> string option) \<Rightarrow> cli_output \<Rightarrow> cli_output list \<times> nat" where
  "encode_output write out = (case write out of Some e \<Rightarrow> ([], 1) | None \<Rightarrow> ([out], 0))"

definition write_releases :: "(cli_output \<Rightarrow> string option) \<Rightarrow> string list \<Rightarrow> cli_output list \<times> nat" where
  "write_releases write vs = encode_output write (ReleasesJson vs)"

section \<open>The refresh command\<close>

text \<open>
  The loop over the sources on a service of its own: the ids printed, the exit status and the service
  at the end. \<open>read_catalog\<close> is \<open>Reader.Read\<close> with a reader of the given settings; nothing else holds
  the semaphore, and the context is never cancelled.
\<close>

fun refresh_sources ::
  "(reader \<Rightarrow> source \<Rightarrow> string + snapshot) \<Rightarrow> (source \<Rightarrow> time \<times> time) \<Rightarrow> string \<Rightarrow> source list \<Rightarrow> service
     \<Rightarrow> string list \<times> nat \<times> service" where
  "refresh_sources read_catalog clock only [] s = ([], 0, s)"
| "refresh_sources read_catalog clock only (src # rest) s =
     (if only \<noteq> [] \<and> src_id src \<noteq> only then refresh_sources read_catalog clock only rest s
      else (case refresh src (fst (clock src)) (read_catalog (reader_of s) src) (snd (clock src)) s of
        (Some e, s') \<Rightarrow> ([], 1, s')
      | (None, s') \<Rightarrow>
          (case refresh_sources read_catalog clock only rest s' of
             (out, code, s'') \<Rightarrow> (src_id src # out, code, s''))))"

definition refresh_command ::
  "(string \<Rightarrow> string + string) \<Rightarrow> (string \<Rightarrow> config_error + app_config) \<Rightarrow> (reader \<Rightarrow> source \<Rightarrow> string + snapshot)
     \<Rightarrow> (source \<Rightarrow> time \<times> time) \<Rightarrow> string \<Rightarrow> string \<Rightarrow> string list \<times> nat" where
  "refresh_command read parse read_catalog clock path only =
     (case load_config read parse path of
        Inl e \<Rightarrow> ([], 1)
      | Inr c \<Rightarrow>
          (case refresh_sources read_catalog clock only (sc_sources (ac_service c)) (new_service (ac_service c)) of
             (out, code, s) \<Rightarrow> (out, code)))"

section \<open>The discover command\<close>

record 'k cluster =
  cl_config :: "string option"          \<comment> \<open>the error of \<open>rest.InClusterConfig\<close>, if any\<close>
  cl_client :: "string option"          \<comment> \<open>the error of \<open>dynamic.NewForConfig\<close>, if any\<close>
  cl_subscriptions :: "string + 'k list"
  cl_manifests :: "string + 'k list"
  cl_objects :: "'k kube"

definition discover_command :: "'k cluster \<Rightarrow> (cli_output \<Rightarrow> string option) \<Rightarrow> cli_output list \<times> nat" where
  "discover_command cl write =
     (case cl_config cl of
        Some e \<Rightarrow> ([], 1)
      | None \<Rightarrow>
     (case cl_client cl of
        Some e \<Rightarrow> ([], 1)
      | None \<Rightarrow>
     (case discover (cl_objects cl) (cl_subscriptions cl) (cl_manifests cl) of
        Inl e \<Rightarrow> ([], 1)
      | Inr subs \<Rightarrow> encode_output write (SubscriptionsJson subs))))"

section \<open>Flags\<close>

definition serve_formal :: "(string \<times> flag_kind) list" where
  "serve_formal = [(''config'', TextFlag), (''listen'', TextFlag), (''debug'', BoolFlag), (''config-reload-interval'', DurationFlag)]"

definition serve_given :: "(string, flag_value) gomap \<Rightarrow> serve_flags" where
  "serve_given vals = \<lparr>sf_config = text_flag vals ''config'' ''config.yaml'', sf_listen = text_flag vals ''listen'' [],
     sf_debug = bool_flag vals ''debug'' False,
     sf_reload_interval = duration_flag vals ''config-reload-interval'' (5 * 1000000000)\<rparr>"

definition refresh_formal :: "(string \<times> flag_kind) list" where
  "refresh_formal = [(''config'', TextFlag), (''source'', TextFlag)]"

definition query_formal :: "(string \<times> flag_kind) list" where
  "query_formal = map (\<lambda>key. (key, TextFlag))
     [''image'', ''package'', ''channel'', ''current-version'', ''current-bundle'', ''signature-policy'', ''platform'']"

definition channel_query_formal :: "(string \<times> flag_kind) list" where
  "channel_query_formal = map (\<lambda>key. (key, TextFlag))
     [''image'', ''package'', ''current-channel'', ''current-version'', ''current-bundle'', ''signature-policy'', ''platform'']"

text \<open>The two queries differ in the name of the channel flag.\<close>

definition query_given :: "string \<Rightarrow> (string, flag_value) gomap \<Rightarrow> query_flags" where
  "query_given channel_flag vals = \<lparr>qf_image = text_flag vals ''image'' [], qf_package = text_flag vals ''package'' [],
     qf_channel = text_flag vals channel_flag [], qf_current_version = text_flag vals ''current-version'' [],
     qf_current_bundle = text_flag vals ''current-bundle'' [], qf_policy = text_flag vals ''signature-policy'' [],
     qf_platform = text_flag vals ''platform'' default_platform\<rparr>"

section \<open>The process\<close>

record ('v, 'd, 'k) process =
  pr_read :: "string \<Rightarrow> string + string"
  pr_parse :: "string \<Rightarrow> config_error + app_config"
  pr_sha :: "string \<Rightarrow> 'd"
  pr_duration :: "string \<Rightarrow> int option"
  pr_semver :: "'v semver"
  pr_iter :: "string list \<Rightarrow> string list"
  pr_registry :: registry
  pr_extracted :: "reader \<Rightarrow> source \<Rightarrow> string \<Rightarrow> read_error + snapshot"
  pr_describe :: "read_error \<Rightarrow> string"
  pr_clock :: "source \<Rightarrow> time \<times> time"
  pr_cluster :: "'k cluster"
  pr_write :: "cli_output \<Rightarrow> string option"

definition read_catalog :: "('v, 'd, 'k) process \<Rightarrow> reader \<Rightarrow> source \<Rightarrow> string + snapshot" where
  "read_catalog pr rd src =
     (case fst (reader_read (pr_registry pr) rd None src (pr_extracted pr rd src)) of
        Inl e \<Rightarrow> Inl (pr_describe pr e)
      | Inr snap \<Rightarrow> Inr snap)"

text \<open>A server that was started, or what the process wrote and its exit status.\<close>

datatype 'd ending = Serving "'d serving" | Exits "cli_output list" nat

definition with_flags ::
  "('v, 'd, 'k) process \<Rightarrow> (string \<times> flag_kind) list \<Rightarrow> string list \<Rightarrow> ((string, flag_value) gomap \<Rightarrow> 'd ending) \<Rightarrow> 'd ending" where
  "with_flags pr formal args run =
     (case parse_flags (pr_duration pr) formal args [] of
        Inl e \<Rightarrow> Exits [] (flag_exit e)
      | Inr (vals, rest) \<Rightarrow> run vals)"

definition exits :: "cli_output list \<times> nat \<Rightarrow> 'd ending" where
  "exits r = Exits (fst r) (snd r)"

definition answer_query :: "('v, 'd, 'k) process \<Rightarrow> nat + string list \<Rightarrow> 'd ending" where
  "answer_query pr res = (case res of Inl code \<Rightarrow> Exits [] code | Inr vs \<Rightarrow> exits (write_releases (pr_write pr) vs))"

definition main_run :: "('v, 'd, 'k) process \<Rightarrow> string list \<Rightarrow> 'd ending" where
  "main_run pr args =
     (case args of
        program # name # rest \<Rightarrow>
          if name = ''serve'' then with_flags pr serve_formal rest (\<lambda>vals.
            case serve (pr_read pr) (pr_parse pr) (pr_sha pr) (serve_given vals) of
              Inl code \<Rightarrow> Exits [] code | Inr sg \<Rightarrow> Serving sg)
          else if name = ''refresh'' then with_flags pr refresh_formal rest (\<lambda>vals.
            case refresh_command (pr_read pr) (pr_parse pr) (read_catalog pr) (pr_clock pr)
                (text_flag vals ''config'' ''config.yaml'') (text_flag vals ''source'' []) of
              (out, code) \<Rightarrow> Exits (map Printed out) code)
          else if name = ''discover'' then exits (discover_command (pr_cluster pr) (pr_write pr))
          else if name = ''query'' then with_flags pr query_formal rest (\<lambda>vals.
            answer_query pr (query (pr_semver pr) (pr_iter pr) (pr_registry pr) (pr_extracted pr) (query_given ''channel'' vals)))
          else if name = ''channel-query'' then with_flags pr channel_query_formal rest (\<lambda>vals.
            answer_query pr (channel_query (pr_semver pr) (pr_iter pr) (pr_registry pr) (pr_extracted pr)
              (query_given ''current-channel'' vals)))
          else if name = ''version'' then Exits [Printed ''ratatoskr dev''] 0
          else Exits [] 2
      | _ \<Rightarrow> Exits [] 2)"

section \<open>The end of the server\<close>

text \<open>
  The main goroutine is in \<open>ListenAndServe\<close> or has ended the process. By its documentation
  \<open>Shutdown\<close> waits for the requests that are served, up to its deadline, while
  \<open>ListenAndServe\<close> returns at once, never without an error.
\<close>

datatype listen_end = ServerClosed | ListenFailed string

definition serve_exit :: "listen_end \<Rightarrow> nat" where
  "serve_exit e = (case e of ServerClosed \<Rightarrow> 0 | ListenFailed msg \<Rightarrow> 1)"

record server_world =
  hs_requests :: nat
  hs_signalled :: bool
  hs_shutting_down :: bool
  hs_exit :: "nat option"

inductive server_step :: "server_world \<Rightarrow> server_world \<Rightarrow> bool" for w where
  accept_request: "hs_exit w = None \<Longrightarrow> \<not> hs_shutting_down w \<Longrightarrow> server_step w (w\<lparr>hs_requests := hs_requests w + 1\<rparr>)"
| finish_request: "hs_exit w = None \<Longrightarrow> 0 < hs_requests w \<Longrightarrow> server_step w (w\<lparr>hs_requests := hs_requests w - 1\<rparr>)"
| signal: "hs_exit w = None \<Longrightarrow> server_step w (w\<lparr>hs_signalled := True\<rparr>)"
| call_shutdown: "hs_exit w = None \<Longrightarrow> hs_signalled w \<Longrightarrow> server_step w (w\<lparr>hs_shutting_down := True\<rparr>)"
| listen_returns: "hs_exit w = None \<Longrightarrow> (e = ServerClosed \<longleftrightarrow> hs_shutting_down w) \<Longrightarrow>
     server_step w (w\<lparr>hs_exit := Some (serve_exit e)\<rparr>)"

definition server_start :: server_world where
  "server_start = \<lparr>hs_requests = 0, hs_signalled = False, hs_shutting_down = False, hs_exit = None\<rparr>"

text \<open>
  The process does not wait for \<open>Shutdown\<close>: after a signal it can end with status 0 while requests are
  still being served.
\<close>

lemma shutdown_drops_requests:
  "\<exists>w. server_step\<^sup>*\<^sup>* server_start w \<and> hs_signalled w \<and> hs_exit w = Some 0 \<and> hs_requests w = 1"
proof -
  let ?w1 = "server_start\<lparr>hs_requests := 1\<rparr>" and ?w2 = "server_start\<lparr>hs_requests := 1, hs_signalled := True\<rparr>"
  let ?w3 = "server_start\<lparr>hs_requests := 1, hs_signalled := True, hs_shutting_down := True\<rparr>"
  let ?w4 = "server_start\<lparr>hs_requests := 1, hs_signalled := True, hs_shutting_down := True, hs_exit := Some 0\<rparr>"
  have "server_step server_start ?w1" using accept_request [of server_start] by (simp add: server_start_def)
  moreover have "server_step ?w1 ?w2" using signal [of ?w1] by (simp add: server_start_def)
  moreover have "server_step ?w2 ?w3" using call_shutdown [of ?w2] by (simp add: server_start_def)
  moreover have "server_step ?w3 ?w4" using listen_returns [of ?w3 ServerClosed] by (simp add: server_start_def serve_exit_def)
  ultimately have "server_step\<^sup>*\<^sup>* server_start ?w4" by (meson rtranclp.rtrancl_into_rtrancl rtranclp.rtrancl_refl)
  then show ?thesis by (intro exI [of _ ?w4]) simp
qed

section \<open>What the commands write\<close>

lemma refresh_keeps_cfg: "refresh src now1 res now2 s = (err, s') \<Longrightarrow>
  sv_cfg s' = sv_cfg s \<and> err = (case res of Inl e \<Rightarrow> Some e | Inr snap \<Rightarrow> None)"
  by (auto simp: refresh_def mark_attempt_def mark_failure_def publish_def split: sum.splits)

lemma reader_of_cfg: "sv_cfg s' = sv_cfg s \<Longrightarrow> reader_of s' = reader_of s"
  by (simp add: reader_of_def)

definition chosen :: "string \<Rightarrow> source list \<Rightarrow> source list" where
  "chosen only srcs = filter (\<lambda>src. only = [] \<or> src_id src = only) srcs"

lemma refresh_sources_prefix:
  "refresh_sources reads clock only srcs s = (out, code, s') \<Longrightarrow>
     out = map src_id (takeWhile (\<lambda>src. \<not> isl (reads (reader_of s) src)) (chosen only srcs))
     \<and> code = (if \<forall>src \<in> set (chosen only srcs). \<not> isl (reads (reader_of s) src) then 0 else 1)"
proof (induction srcs arbitrary: s out code s')
  case (Cons src rest)
  show ?case
  proof (cases "only \<noteq> [] \<and> src_id src \<noteq> only")
    case True
    then show ?thesis using Cons by (simp add: chosen_def)
  next
    case False
    obtain err s1 where r: "refresh src (fst (clock src)) (reads (reader_of s) src) (snd (clock src)) s = (err, s1)"
      by (cases "refresh src (fst (clock src)) (reads (reader_of s) src) (snd (clock src)) s")
    note k = refresh_keeps_cfg [OF r]
    have ch: "chosen only (src # rest) = src # chosen only rest" using False by (auto simp: chosen_def)
    show ?thesis
    proof (cases "reads (reader_of s) src")
      case (Inl e)
      then show ?thesis using Cons.prems False r k by (simp add: ch)
    next
      case (Inr snap)
      obtain out1 code1 s2 where f: "refresh_sources reads clock only rest s1 = (out1, code1, s2)"
        by (cases "refresh_sources reads clock only rest s1")
      have "reader_of s1 = reader_of s" using k by (intro reader_of_cfg) simp
      then show ?thesis using Cons.IH [OF f] Cons.prems False r k f Inr by (simp add: ch)
    qed
  qed
qed (simp add: chosen_def)

definition reader_with :: "service_config \<Rightarrow> reader" where
  "reader_with cfg = \<lparr>rd_signature_policy = sc_signature_policy cfg, rd_parse_concurrency = sc_parse_concurrency cfg\<rparr>"

lemma reader_of_new: "reader_of (new_service cfg) = reader_with cfg"
  by (simp add: reader_of_def reader_with_def new_service_def)

lemma refresh_command_result:
  "refresh_command read parse reads clock path only =
     (case load_config read parse path of
        Inl e \<Rightarrow> ([], 1)
      | Inr c \<Rightarrow>
          let srcs = chosen only (sc_sources (ac_service c));
              complete = (\<lambda>src. \<not> isl (reads (reader_with (ac_service c)) src))
          in (map src_id (takeWhile complete srcs), if \<forall>src \<in> set srcs. complete src then 0 else 1))"
proof (cases "load_config read parse path")
  case (Inr c)
  obtain out code s where r: "refresh_sources reads clock only (sc_sources (ac_service c)) (new_service (ac_service c)) = (out, code, s)"
    by (cases "refresh_sources reads clock only (sc_sources (ac_service c)) (new_service (ac_service c))")
  show ?thesis using refresh_sources_prefix [OF r] r Inr by (simp add: refresh_command_def Let_def reader_of_new)
qed (simp add: refresh_command_def)

section \<open>The end of every command\<close>

text \<open>
  The commands that take flags, with their flags; what a flag gives or defaults to; a configuration
  file that is read and parsed; and a source that is read in full.
\<close>

definition command_flags :: "(string \<times> (string \<times> flag_kind) list) list" where
  "command_flags =
     [(''serve'', [(''config'', TextFlag), (''listen'', TextFlag), (''debug'', BoolFlag), (''config-reload-interval'', DurationFlag)]),
      (''refresh'', [(''config'', TextFlag), (''source'', TextFlag)]),
      (''query'', [(''image'', TextFlag), (''package'', TextFlag), (''channel'', TextFlag), (''current-version'', TextFlag),
         (''current-bundle'', TextFlag), (''signature-policy'', TextFlag), (''platform'', TextFlag)]),
      (''channel-query'', [(''image'', TextFlag), (''package'', TextFlag), (''current-channel'', TextFlag), (''current-version'', TextFlag),
         (''current-bundle'', TextFlag), (''signature-policy'', TextFlag), (''platform'', TextFlag)])]"

text \<open>
  A command that writes its result: with one, it writes it and exits with 0, or with 1 when the writer
  fails; without one it writes nothing and exits with 1.
\<close>

definition gives :: "('v, 'd, 'k) process \<Rightarrow> ('r \<Rightarrow> bool) \<Rightarrow> ('r \<Rightarrow> cli_output) \<Rightarrow> 'd ending \<Rightarrow> bool" where
  "gives pr P out e \<longleftrightarrow>
     (\<forall>r. P r \<longrightarrow> e = (if pr_write pr (out r) = None then Exits [out r] 0 else Exits [] 1))
     \<and> ((\<forall>r. \<not> P r) \<longrightarrow> e = Exits [] 1)"

text \<open>What the package of the flags answers, when the image of the flags is read in full and has it.\<close>

definition package_answer ::
  "('v, 'd, 'k) process \<Rightarrow> (string \<Rightarrow> string) \<Rightarrow> (package \<Rightarrow> resolve_error + string list) \<Rightarrow> string list \<Rightarrow> bool" where
  "package_answer pr flag ask vs \<longleftrightarrow>
     (let rd = \<lparr>rd_signature_policy = flag ''signature-policy'', rd_parse_concurrency = 0\<rparr>;
          src = \<lparr>src_id = ''query'', src_image = flag ''image'', src_platform = flag ''platform''\<rparr>
      in \<exists>snap p. fst (reader_read (pr_registry pr) rd None src (pr_extracted pr rd src)) = Inr snap
           \<and> map_of (sn_packages snap) (flag ''package'') = Some p \<and> ask p = Inr vs)"

definition given_text :: "(string, flag_value) gomap \<Rightarrow> string \<Rightarrow> string" where
  "given_text vals key = text_flag vals key (if key = ''platform'' then ''linux/amd64'' else if key = ''config'' then ''config.yaml'' else [])"

definition with_config :: "('v, 'd, 'k) process \<Rightarrow> string \<Rightarrow> 'r \<Rightarrow> (string \<Rightarrow> app_config \<Rightarrow> 'r) \<Rightarrow> 'r" where
  "with_config pr path failed run =
     (case pr_read pr path of
        Inl e \<Rightarrow> failed
      | Inr b \<Rightarrow> (case pr_parse pr b of Inl e \<Rightarrow> failed | Inr c \<Rightarrow> run b c))"

definition reads_in_full :: "('v, 'd, 'k) process \<Rightarrow> reader \<Rightarrow> source \<Rightarrow> bool" where
  "reads_in_full pr rd src \<longleftrightarrow> \<not> isl (fst (reader_read (pr_registry pr) rd None src (pr_extracted pr rd src)))"

lemma not_isl_read: "\<not> isl (read_catalog pr rd src) \<longleftrightarrow> reads_in_full pr rd src"
  by (simp add: read_catalog_def reads_in_full_def split: sum.split)

lemma given_text_simps:
  "given_text vals ''platform'' = text_flag vals ''platform'' default_platform"
  "given_text vals ''config'' = text_flag vals ''config'' ''config.yaml''"
  "key \<noteq> ''platform'' \<Longrightarrow> key \<noteq> ''config'' \<Longrightarrow> given_text vals key = text_flag vals key []"
  by (simp_all add: given_text_def default_platform_def)

lemma query_package_gives:
  "gives pr (package_answer pr (given_text vals) ask) ReleasesJson
     (answer_query pr (query_package (pr_registry pr) (pr_extracted pr) (query_given c vals) ask))"
  by (auto simp: gives_def package_answer_def Let_def query_package_def query_given_def query_reader_def query_source_def
      given_text_simps answer_query_def exits_def write_releases_def encode_output_def split: sum.splits option.splits)

lemma discover_gives:
  "gives pr (\<lambda>subs. cl_config (pr_cluster pr) = None \<and> cl_client (pr_cluster pr) = None
       \<and> discover (cl_objects (pr_cluster pr)) (cl_subscriptions (pr_cluster pr)) (cl_manifests (pr_cluster pr)) = Inr subs)
     SubscriptionsJson (main_run pr (program # ''discover'' # rest))"
  by (auto simp: gives_def main_run_def discover_command_def exits_def encode_output_def split: option.splits sum.splits)

lemma main_no_command: "length args < 2 \<Longrightarrow> main_run pr args = Exits [] 2"
  by (cases args; cases "tl args") (simp_all add: main_run_def)

lemma main_unknown_command:
  "name \<notin> {''serve'', ''refresh'', ''discover'', ''query'', ''channel-query'', ''version''} \<Longrightarrow>
     main_run pr (program # name # rest) = Exits [] 2"
  by (simp add: main_run_def)

lemma main_version: "main_run pr (program # ''version'' # rest) = Exits [Printed ''ratatoskr dev''] 0"
  by (simp add: main_run_def)

lemma main_flags:
  "main_run pr (program # ''serve'' # rest) = with_flags pr serve_formal rest (\<lambda>vals.
     case serve (pr_read pr) (pr_parse pr) (pr_sha pr) (serve_given vals) of Inl code \<Rightarrow> Exits [] code | Inr sg \<Rightarrow> Serving sg)"
  "main_run pr (program # ''refresh'' # rest) = with_flags pr refresh_formal rest (\<lambda>vals.
     case refresh_command (pr_read pr) (pr_parse pr) (read_catalog pr) (pr_clock pr)
       (text_flag vals ''config'' ''config.yaml'') (text_flag vals ''source'' []) of (out, code) \<Rightarrow> Exits (map Printed out) code)"
  "main_run pr (program # ''query'' # rest) = with_flags pr query_formal rest (\<lambda>vals.
     answer_query pr (query (pr_semver pr) (pr_iter pr) (pr_registry pr) (pr_extracted pr) (query_given ''channel'' vals)))"
  "main_run pr (program # ''channel-query'' # rest) = with_flags pr channel_query_formal rest (\<lambda>vals.
     answer_query pr (channel_query (pr_semver pr) (pr_iter pr) (pr_registry pr) (pr_extracted pr)
       (query_given ''current-channel'' vals)))"
  by (simp_all add: main_run_def)

lemma command_formal:
  "command_flags = [(''serve'', serve_formal), (''refresh'', refresh_formal), (''query'', query_formal),
     (''channel-query'', channel_query_formal)]"
  by (simp add: command_flags_def serve_formal_def refresh_formal_def query_formal_def channel_query_formal_def)

lemma formal_of:
  "map_of command_flags ''serve'' = Some serve_formal" "map_of command_flags ''refresh'' = Some refresh_formal"
  "map_of command_flags ''query'' = Some query_formal" "map_of command_flags ''channel-query'' = Some channel_query_formal"
  unfolding command_formal by simp_all

lemma main_bad_flags:
  assumes "map_of command_flags name = Some formal" and "parse_flags (pr_duration pr) formal rest [] = Inl e"
  shows "main_run pr (program # name # rest) = Exits [] (if e = HelpAsked then 0 else 2)"
proof -
  have "(name, formal) \<in> set command_flags" using assms(1) by (rule map_of_SomeD)
  then consider "name = ''serve''" "formal = serve_formal" | "name = ''refresh''" "formal = refresh_formal"
    | "name = ''query''" "formal = query_formal" | "name = ''channel-query''" "formal = channel_query_formal"
    unfolding command_formal by force
  then show ?thesis
    by cases (use assms(2) in \<open>simp_all add: main_flags with_flags_def flag_exit_def\<close>)
qed

text \<open>The commands with their flags read: \<open>flag\<close> is the text of a flag, or its default.\<close>

lemma main_query:
  assumes "parse_flags (pr_duration pr) query_formal rest [] = Inr (vals, extra)"
  shows "let flag = given_text vals; e = main_run pr (program # ''query'' # rest) in
     if flag ''image'' = [] \<or> flag ''package'' = [] \<or> flag ''current-version'' = [] \<and> flag ''current-bundle'' = [] then e = Exits [] 2
     else gives pr (package_answer pr flag (\<lambda>p. version_updates (pr_semver pr) (pr_iter pr) p
       \<lparr>ur_current_version = flag ''current-version'', ur_current_bundle = flag ''current-bundle'',
        ur_channel = flag ''channel'', ur_mode = ''reachable''\<rparr>)) ReleasesJson e"
proof -
  let ?f = "query_given ''channel'' vals"
  have f: "qf_image ?f = given_text vals ''image''" "qf_package ?f = given_text vals ''package''"
    "qf_current_version ?f = given_text vals ''current-version''" "qf_current_bundle ?f = given_text vals ''current-bundle''"
    "qf_channel ?f = given_text vals ''channel''"
    by (simp_all add: query_given_def given_text_simps)
  show ?thesis
    unfolding Let_def main_flags with_flags_def assms sum.case prod.case query_def f
    by (cases "given_text vals ''image'' = []") (auto simp: answer_query_def [of pr "Inl 2"] intro: query_package_gives)
qed

lemma main_channel_query:
  assumes "parse_flags (pr_duration pr) channel_query_formal rest [] = Inr (vals, extra)"
  shows "let flag = given_text vals; e = main_run pr (program # ''channel-query'' # rest) in
     if flag ''image'' = [] \<or> flag ''package'' = [] \<or> flag ''current-channel'' = []
         \<or> flag ''current-version'' = [] \<and> flag ''current-bundle'' = [] then e = Exits [] 2
     else gives pr (package_answer pr flag (\<lambda>p. channel_updates (pr_semver pr) (pr_iter pr) p
       \<lparr>cr_current_channel = flag ''current-channel'', cr_current_version = flag ''current-version'',
        cr_current_bundle = flag ''current-bundle'', cr_selection = ''next''\<rparr>)) ReleasesJson e"
proof -
  let ?f = "query_given ''current-channel'' vals"
  have f: "qf_image ?f = given_text vals ''image''" "qf_package ?f = given_text vals ''package''"
    "qf_current_version ?f = given_text vals ''current-version''" "qf_current_bundle ?f = given_text vals ''current-bundle''"
    "qf_channel ?f = given_text vals ''current-channel''"
    by (simp_all add: query_given_def given_text_simps)
  show ?thesis
    unfolding Let_def main_flags with_flags_def assms sum.case prod.case channel_query_def f
    by (cases "given_text vals ''image'' = []") (auto simp: answer_query_def [of pr "Inl 2"] intro: query_package_gives)
qed

lemma main_serve:
  assumes "parse_flags (pr_duration pr) serve_formal rest [] = Inr (vals, extra)"
  shows "let interval = duration_flag vals ''config-reload-interval'' 5000000000;
         e = main_run pr (program # ''serve'' # rest) in
     if interval < 0 then e = Exits [] 2
     else with_config pr (given_text vals ''config'') (e = Exits [] 1) (\<lambda>b c.
         e = Serving \<lparr>sg_config = c, sg_digest = pr_sha pr b,
             sg_address = hd (filter (\<lambda>a. a \<noteq> []) [given_text vals ''listen'', ac_listen_address c, '':8080'']),
             sg_debug = (bool_flag vals ''debug'' False \<or> ac_debug c), sg_watch = (0 < interval)\<rparr>)"
  unfolding Let_def main_flags with_flags_def assms sum.case prod.case
  by (auto simp: serve_def serve_given_def load_with_digest_def with_config_def given_text_simps split: sum.split)

lemma main_refresh:
  assumes "parse_flags (pr_duration pr) refresh_formal rest [] = Inr (vals, extra)"
  shows "main_run pr (program # ''refresh'' # rest) =
     with_config pr (given_text vals ''config'') (Exits [] 1) (\<lambda>b c.
          let srcs = chosen (given_text vals ''source'') (sc_sources (ac_service c));
              complete = reads_in_full pr (reader_with (ac_service c))
          in Exits (map (\<lambda>src. Printed (src_id src)) (takeWhile complete srcs)) (if \<forall>src \<in> set srcs. complete src then 0 else 1))"
  unfolding main_flags with_flags_def assms sum.case prod.case refresh_command_result given_text_simps(2)
  by (simp add: given_text_simps Let_def comp_def load_config_def with_config_def not_isl_read split: sum.split)

text \<open>
  C40: How every command ends. Without a command, or with an unknown one, the process writes nothing and
  exits with 2; bad flags exit with 2 and asking for their help with 0, again with nothing written;
  \<open>version\<close> writes one line and exits with 0. \<open>query\<close> and \<open>channel-query\<close> exit with 2
  when a required flag is missing; otherwise they write the releases and exit with 0 exactly when the
  image of the flags is read in full, has the package, and \<open>VersionUpdates\<close> in reachable mode or
  \<open>ChannelUpdates\<close> for the next channel answers it, and exit with 1 and nothing written when one of
  these fails or the writer does. \<open>discover\<close> does the same with what \<open>Discover\<close> gives in a cluster.
  \<open>serve\<close> exits with 2 for a negative interval and with 1 for a configuration that cannot be read or
  parsed; otherwise it serves that configuration, on the first address given by the flag, the
  configuration or the default. \<open>refresh\<close> exits with 1 for such a configuration; otherwise it prints
  the ids of the selected sources up to the first that cannot be read, and exits with 0 if there is none.
\<close>

theorem command_outcomes:
  "(length args < 2 \<longrightarrow> main_run pr args = Exits [] 2)
   \<and> (name \<notin> {''serve'', ''refresh'', ''discover'', ''query'', ''channel-query'', ''version''} \<longrightarrow>
        main_run pr (program # name # rest) = Exits [] 2)
   \<and> (\<forall>formal e. map_of command_flags name = Some formal \<longrightarrow> parse_flags (pr_duration pr) formal rest [] = Inl e \<longrightarrow>
        main_run pr (program # name # rest) = Exits [] (if e = HelpAsked then 0 else 2))
   \<and> main_run pr (program # ''version'' # rest) = Exits [Printed ''ratatoskr dev''] 0
   \<and> gives pr (\<lambda>subs. cl_config (pr_cluster pr) = None \<and> cl_client (pr_cluster pr) = None
          \<and> discover (cl_objects (pr_cluster pr)) (cl_subscriptions (pr_cluster pr)) (cl_manifests (pr_cluster pr)) = Inr subs)
        SubscriptionsJson (main_run pr (program # ''discover'' # rest))
   \<and> (\<forall>vals extra. parse_flags (pr_duration pr) (the (map_of command_flags ''query'')) rest [] = Inr (vals, extra) \<longrightarrow>
        (let flag = given_text vals; e = main_run pr (program # ''query'' # rest) in
         if flag ''image'' = [] \<or> flag ''package'' = [] \<or> flag ''current-version'' = [] \<and> flag ''current-bundle'' = [] then e = Exits [] 2
         else gives pr (package_answer pr flag (\<lambda>p. version_updates (pr_semver pr) (pr_iter pr) p
           \<lparr>ur_current_version = flag ''current-version'', ur_current_bundle = flag ''current-bundle'',
            ur_channel = flag ''channel'', ur_mode = ''reachable''\<rparr>)) ReleasesJson e))
   \<and> (\<forall>vals extra. parse_flags (pr_duration pr) (the (map_of command_flags ''channel-query'')) rest [] = Inr (vals, extra) \<longrightarrow>
        (let flag = given_text vals; e = main_run pr (program # ''channel-query'' # rest) in
         if flag ''image'' = [] \<or> flag ''package'' = [] \<or> flag ''current-channel'' = []
             \<or> flag ''current-version'' = [] \<and> flag ''current-bundle'' = [] then e = Exits [] 2
         else gives pr (package_answer pr flag (\<lambda>p. channel_updates (pr_semver pr) (pr_iter pr) p
           \<lparr>cr_current_channel = flag ''current-channel'', cr_current_version = flag ''current-version'',
            cr_current_bundle = flag ''current-bundle'', cr_selection = ''next''\<rparr>)) ReleasesJson e))
   \<and> (\<forall>vals extra. parse_flags (pr_duration pr) (the (map_of command_flags ''serve'')) rest [] = Inr (vals, extra) \<longrightarrow>
        (let interval = duration_flag vals ''config-reload-interval'' 5000000000;
             e = main_run pr (program # ''serve'' # rest) in
         if interval < 0 then e = Exits [] 2
         else with_config pr (given_text vals ''config'') (e = Exits [] 1) (\<lambda>b c.
             e = Serving \<lparr>sg_config = c, sg_digest = pr_sha pr b,
                 sg_address = hd (filter (\<lambda>a. a \<noteq> []) [given_text vals ''listen'', ac_listen_address c, '':8080'']),
                 sg_debug = (bool_flag vals ''debug'' False \<or> ac_debug c), sg_watch = (0 < interval)\<rparr>)))
   \<and> (\<forall>vals extra. parse_flags (pr_duration pr) (the (map_of command_flags ''refresh'')) rest [] = Inr (vals, extra) \<longrightarrow>
        main_run pr (program # ''refresh'' # rest) =
        with_config pr (given_text vals ''config'') (Exits [] 1) (\<lambda>b c.
             let srcs = chosen (given_text vals ''source'') (sc_sources (ac_service c));
                 complete = reads_in_full pr (reader_with (ac_service c))
             in Exits (map (\<lambda>src. Printed (src_id src)) (takeWhile complete srcs)) (if \<forall>src \<in> set srcs. complete src then 0 else 1)))"
  unfolding formal_of option.sel
  by (intro conjI allI impI main_no_command main_unknown_command main_version discover_gives main_query main_channel_query
      main_serve main_refresh main_bad_flags)

section \<open>A refresh of one source\<close>

definition ex_two :: app_config where
  "ex_two = ex_config\<lparr>ac_service := ex_cfg [ex_source, ex_source\<lparr>src_id := ''other''\<rparr>] ''old''\<rparr>"

definition ex_process :: "(version, string, ex_object) process" where
  "ex_process = \<lparr>pr_read = (\<lambda>path. if path = ''config.yaml'' then Inr ''one'' else Inl ''no such file''),
     pr_parse = (\<lambda>b. Inr ex_two),
     pr_sha = (\<lambda>b. b), pr_duration = (\<lambda>s. None), pr_semver = std_semver, pr_iter = rev, pr_registry = ex_registry,
     pr_extracted = (\<lambda>rd src path. Inr ex_snapshot), pr_describe = (\<lambda>e. ''failed''), pr_clock = (\<lambda>src. (1, 2)),
     pr_cluster = \<lparr>cl_config = None, cl_client = None, cl_subscriptions = Inr [ex_subscription],
       cl_manifests = Inr [ex_manifest], cl_objects = ex_kube\<rparr>, pr_write = (\<lambda>out. None)\<rparr>"

theorem command_outcomes_witness:
  "main_run ex_process [''ratatoskr'', ''refresh'', ''--source=ops''] = Exits [Printed ''ops''] 0
   \<and> main_run ex_process [''ratatoskr'', ''refresh'', ''--all''] = Exits [] 2"
proof -
  let ?vals = "[(''source'', FlagText ''ops'')]"
  have p: "parse_flags (pr_duration ex_process) (the (map_of command_flags ''refresh'')) [''--source=ops''] [] = Inr (?vals, [])"
    "parse_flags (pr_duration ex_process) (the (map_of command_flags ''refresh'')) [''--all''] [] = Inl (UndefinedFlag ''all'')"
    by code_simp+
  have l: "with_config ex_process (given_text ?vals ''config'') failed run = run ''one'' ex_two"
    for failed :: "string ending" and run
    by (simp add: with_config_def ex_process_def given_text_def text_flag_def)
  have r: "reads_in_full ex_process (reader_with (ac_service ex_two)) ex_source" by code_simp
  have s: "chosen (given_text ?vals ''source'') (sc_sources (ac_service ex_two)) = [ex_source]" by code_simp
  note outcomes = command_outcomes [where pr = ex_process and program = "''ratatoskr''" and name = "''refresh''" and args = "[]"]
  have "main_run ex_process [''ratatoskr'', ''refresh'', ''--source=ops''] = Exits [Printed ''ops''] 0"
    using outcomes [of "[''--source=ops'']", THEN conjunct2, THEN conjunct2, THEN conjunct2, THEN conjunct2, THEN conjunct2,
      THEN conjunct2, THEN conjunct2, THEN conjunct2, rule_format, OF p(1)] l r s
    by (simp add: Let_def) (simp add: ex_source_def)
  moreover have "map_of command_flags ''refresh'' = Some (the (map_of command_flags ''refresh''))" unfolding formal_of by simp
  then have "main_run ex_process [''ratatoskr'', ''refresh'', ''--all''] = Exits [] 2"
    using outcomes [of "[''--all'']", THEN conjunct2, THEN conjunct2, THEN conjunct1, rule_format, OF _ p(2)] by simp
  ultimately show ?thesis ..
qed

end
