(* ===== verification/Spec2Isabelle.thy ===== *)
theory Spec2Isabelle
  imports Catalog_Selection Catalog_Access Service_Releases Openshift_Enrich Command_Main
begin

text \<open>
  Verification development for ratatoskr (olm-catalog-datasource), an HTTP service and command line tool that answers
  Renovate-style datasource queries about operator catalogs (Operator Lifecycle Manager file-based
  catalogs) and OpenShift release graphs. The properties carry the ids C1 to C40 in the theories.

  \<^bold>\<open>How the program works.\<close> A configuration file names the sources (catalog images). The service
  reads each image into a snapshot, periodically, on request and after a reload, one at a time, and
  answers package queries from the newest acceptable snapshot: which versions, or channels, the
  declared update edges lead to from the installed bundle. OpenShift releases are not read in
  advance: a request asks the update graph, adds what the release stream lists in between and the
  text of Red Hat advisories, and the result is kept for the time the graph cannot be reached.

  \<^bold>\<open>The Go library.\<close> \<open>Go_Base\<close> has maps as association lists with the iteration order of a
  \<open>range\<close> as an explicit argument (\<open>is_iter\<close>), byte strings, and \<open>sort.Slice\<close> as a concrete insertion sort,
  together with the locales \<open>weak_order\<close> and \<open>sorting\<close>: facts about a sorted list come from the laws of \<open>sorting\<close>, which
  any sorting algorithm satisfies. The one exception is C7, whose comparator need not be a weak order over all channels: it
  uses that the insertion sort, which is what Go runs up to 12 elements, keeps the family of the channel together. \<open>Go_Paths\<close>, \<open>Go_Net\<close>, \<open>Go_Text\<close> and \<open>Go_Flags\<close> have what the program uses of \<open>path\<close>,
  \<open>net/url\<close> and \<open>net/http\<close>, \<open>unicode/utf8\<close>, \<open>strings\<close> and \<open>regexp\<close>, and \<open>flag\<close>.

  \<^bold>\<open>The catalog resolver\<close>, \<^verbatim>\<open>pkg/catalog/resolve.go\<close>. \<open>Catalog_Model\<close> has the types of the catalog, the edge
  relation (\<open>successors\<close>, \<open>rangeMatches\<close>) and \<open>currentBundle\<close> (C1), with the locale \<open>bundle_graph\<close>
  that the searches rest on. \<open>Catalog_Versions\<close> has \<open>VersionUpdates\<close>: the breadth-first search returns
  exactly the versions reachable over declared edges (C2), with the outcome of every error and the
  order of the answer (C3), independent of the map order (C4). \<open>Catalog_Channels\<close> and \<open>Catalog_Selection\<close> have
  the channel queries: the search for heads (C5), the candidates (C6), the selection of the next
  channel (C7) and the bundle returned as a token (C8). The version library is the parameter record
  \<open>semver\<close> with the laws \<open>semver_laws\<close> (\<open>Semver_Interface\<close>, with an instance that follows the SemVer 2.0.0 grammar).

  \<^bold>\<open>The catalog reader\<close>, \<^verbatim>\<open>pkg/catalog/catalog.go\<close>. \<open>Catalog_Reader\<close> has \<open>parsePlatform\<close>, \<open>addMeta\<close>, the concurrent
  walk as an arbitrary sequence of callbacks, \<open>readFS\<close> and \<open>Reader.Read\<close> with its effects on the registry and the
  temporary directory as a list. \<open>Catalog_Merge\<close> shows that a snapshot is well-formed (C10), that \<open>readFS\<close> is
  the validated merge of the records or fails (C11), whatever the order of the callbacks (C12).
  \<open>Catalog_Access\<close> confines the configs path to the image (C14) and shows that every path releases what
  it took (C16).

  \<^bold>\<open>The configuration\<close>, \<^verbatim>\<open>internal/config/config.go\<close>. \<open>Service_Config\<close> has the effective configuration,
  durations as 64-bit words and the comparison of two configurations, \<open>Config_Resolve\<close> the file:
  the expansion of channels, catalogs and explicit sources equals its declarative form (C17), an
  accepted file can be run and its duration check does not wrap (C18), channels are canonical (C19).

  \<^bold>\<open>The service\<close>, \<^verbatim>\<open>internal/service/service.go\<close> and \<^verbatim>\<open>snapshot.go\<close>. \<open>Service_State\<close> is the record under the mutex
  with the acceptability of a snapshot. \<open>Service_Refresh\<close> has each section under the mutex
  as a definition on it, a goroutine as a datatype of program points, and the service as a step
  relation over a multiset of goroutines that share the state and the semaphore. The invariants are proved there;
  \<open>Service_Safety\<close> states exclusion (C20), snapshots of configured sources only (C21), completion of all
  queued work (C22), one refresh (C23) and a reload (C24). What the service needs of the reader is
  the locale \<open>snapshot_provider\<close>, interpreted by \<open>readFS\<close>. \<open>Service_Lookup\<close> has the two sections of \<open>openShiftUpdates\<close> and
  a step relation for overlapping lookups, \<open>Service_Cache\<close> their order and bounds (C25) and what each answers
  in every case (C26). \<open>Service_Http\<close> has one definition per handler of the catalog API on the state at its critical
  sections, with the other goroutines as the argument \<open>en_between\<close>; \<open>Service_Api\<close> its properties (C28 to C32).
  \<open>Service_OpenShift\<close> has the handler of OpenShift releases, which joins the lookups with the client (C13), and
  the routing table with what any request can change (C27). \<open>Service_Releases\<close> composes the lookups with the client
  behind the locale \<open>release_client\<close>: what clients are given is always a complete result for their own
  request (C38).

  \<^bold>\<open>The OpenShift client\<close>, \<^verbatim>\<open>internal/openshift\<close>. \<open>Openshift_Releases\<close> has \<open>Client.Updates\<close> and the release stream, \<open>Openshift_Updates\<close>
  which releases are offered (C37) and which are added as deprecated (C39). \<open>Openshift_Advisory\<close> reads an
  errata page and \<open>Openshift_Summary\<close> renders it; \<open>Openshift_Patterns\<close> states the texts of the patterns and \<open>Openshift_Page\<close> what a page
  says (the nodes in document order, the headings they stand under, the links and dates), and the advisory that is read is
  exactly this (C33). \<open>Openshift_Changelog\<close> fetches one and has the shared cache as two critical sections and
  the budget of a response, \<open>Openshift_Cache\<close> the budget (C34) and the single-flight protocol (C35).
  \<open>Openshift_Enrich\<close> has the goroutines of \<open>enrichChangelogs\<close> at their semaphore and the cache; it refines that
  protocol, always ends, and ends in the functional \<open>fill_changelogs\<close> (C36).

  \<^bold>\<open>Around the service.\<close> \<open>Cluster_Discovery\<close> is \<^verbatim>\<open>pkg/cluster/discovery.go\<close> (C15). \<open>Command_Line\<close> has the loop of \<open>Run\<close>, the start of the
  server, the watcher of the configuration (C9) and the queries, \<open>Command_Main\<close> the whole of \<^verbatim>\<open>cmd/ratatoskr/main.go\<close> from
  the arguments of the process to its output and exit status, in every case (C40), and the end of the server.

  \<^bold>\<open>Conventions.\<close> A definition has the name of its function in snake case. Errors are values of a sum.
  The \<open>uint64\<close> counters are \<open>nat\<close> with \<open>wrap64\<close> written out, durations are \<open>64 word\<close>; where a property assumes that the attempt
  counter has not wrapped, it says so. Loops over slices are structural recursion; the two graph
  searches recurse on the bundles not seen yet and carry their termination proofs, so there is no
  fuel. The clock, map orders, results of reads, and the steps of other goroutines are arguments.

  \<^bold>\<open>Not modelled.\<close> The decoders of JSON and YAML, the HTML and the URL parser, \<open>declcfg.WalkMetasFS\<close>, the image
  registry, the Kubernetes client, SHA-256, \<open>time.ParseDuration\<close> and the HTTP transport are arguments:
  their source is not part of the repository. Contexts and deadlines appear as failed reads and as cancelled
  steps, not as time that passes. \<open>strings.ToLower\<close> is modelled on ASCII. Of the HTTP layer, the
  redirects and errors of \<open>ServeMux\<close> are an argument (\<open>en_mux\<close>), and the encoding of response bodies is
  left as the value that is encoded. Log lines, the log level handler, usage texts and the settings of
  \<open>http.Server\<close> have no effect on what is proved and are left out.
\<close>

end
